(* ===== verification/Tftp_Prelude.thy ===== *)
theory Tftp_Prelude
  imports Main "HOL-Library.Word"
begin

text \<open>
  Shared ground of the development: the machine types of the C sources, the memory
  operations the programs use on their static buffers, C strings, and the collections
  of rewrite rules the component theories extend.

  A buffer (\<^verbatim>\<open>char buf[N]\<close>) is the list of its bytes; its length never changes.
  \<open>overlay b off s\<close> is what \<^verbatim>\<open>memcpy(b + off, s, n)\<close>, \<^verbatim>\<open>recv(b + off)\<close> and
  \<^verbatim>\<open>read(b + off)\<close> leave in it: the bytes behind the copied ones stay as they were,
  which matters for datagrams shorter than the header the code reads next.
\<close>

unbundle bit_operations_syntax

type_synonym byte = "8 word"
type_synonym u16 = "16 word"
type_synonym errno = int
type_synonym datagram = "byte list"

named_theorems wire_simps \<open>header fields and byte order\<close>
named_theorems bf_simps \<open>the double buffer of tftpsubs.c\<close>

subsection \<open>Static buffers\<close>

definition overlay :: "'a list \<Rightarrow> nat \<Rightarrow> 'a list \<Rightarrow> 'a list" where
  "overlay b off s = take off b @ s @ drop (off + length s) b"

lemma length_overlay [simp]:
  "off + length s \<le> length b \<Longrightarrow> length (overlay b off s) = length b"
  by (simp add: overlay_def)

lemma overlay_Nil [simp]: "overlay b off [] = b"
  by (simp add: overlay_def)

lemma nth_overlay_below: "i < off \<Longrightarrow> off \<le> length b \<Longrightarrow> overlay b off s ! i = b ! i"
  by (simp add: overlay_def nth_append)

lemma nth_overlay_in:
  "off \<le> i \<Longrightarrow> i < off + length s \<Longrightarrow> off \<le> length b \<Longrightarrow> overlay b off s ! i = s ! (i - off)"
  by (simp add: overlay_def nth_append less_diff_conv2)

lemma take_drop_overlay:
  "off \<le> length b \<Longrightarrow> take (length s) (drop off (overlay b off s)) = s"
  by (simp add: overlay_def)

lemma take_overlay_0: "take (length s) (overlay b 0 s) = s"
  by (simp add: overlay_def)

lemma drop_list_update_below: "i < k \<Longrightarrow> drop k (xs[i := v]) = drop k xs"
  by (simp add: drop_update_cancel)

lemma drop_min_length [simp]: "drop (min (length xs) n) xs = drop n xs"
  by (simp add: min_def)

subsection \<open>C strings\<close>

text \<open>
  String literals of the sources, as the bytes a \<^verbatim>\<open>char *\<close> points to (without the
  terminating NUL), and \<^verbatim>\<open>strlen\<close> on memory: the index of the first NUL.
\<close>

definition cbytes :: "string \<Rightarrow> byte list" where
  "cbytes s = map of_char s"

definition cstr :: "byte list \<Rightarrow> byte list" where
  "cstr m = takeWhile (\<lambda>c. c \<noteq> 0) m"

lemma length_cbytes [simp]: "length (cbytes s) = length s"
  by (simp add: cbytes_def)

lemma cstr_no_nul: "0 \<notin> set (cstr m)"
  by (auto simp: cstr_def dest: set_takeWhileD)

lemma cstr_append_nul: "0 \<notin> set s \<Longrightarrow> cstr (s @ 0 # rest) = s"
  unfolding cstr_def by (subst takeWhile_append2) auto

subsection \<open>Lists cut into blocks\<close>

text \<open>\<open>chunk n k xs\<close>: the k-th block (from 0) of at most n bytes.\<close>

definition chunk :: "nat \<Rightarrow> nat \<Rightarrow> 'a list \<Rightarrow> 'a list" where
  "chunk n k xs = take n (drop (n * k) xs)"

lemma length_chunk_le: "length (chunk n k xs) \<le> n"
  by (simp add: chunk_def)

lemma chunk_0: "chunk n 0 xs = take n xs"
  by (simp add: chunk_def)

lemma chunk_drop: "chunk n k (drop n xs) = chunk n (Suc k) xs"
  by (simp add: chunk_def add.commute)

lemma take_chunk: "take (n * k) xs @ chunk n k xs = take (n * Suc k) xs"
  by (simp add: chunk_def take_add [symmetric] add.commute)

lemma concat_chunks: "concat (map (\<lambda>k. chunk n k xs) [0..<m]) = take (n * m) xs"
  by (induction m) (simp_all add: take_chunk del: mult_Suc_right)

lemma chunk_full: "n * Suc k \<le> length xs \<Longrightarrow> length (chunk n k xs) = n"
  by (simp add: chunk_def)

lemma chunk_short: "length (chunk n k xs) < n \<Longrightarrow> length xs < n * Suc k"
  by (auto simp: chunk_def)

end
