(* ===== verification/Tftp_Wire.thy ===== *)
theory Tftp_Wire
  imports Tftp_Prelude
begin

text \<open>
  \<^verbatim>\<open>include/arpa/tftp.h\<close>: the segment and packet sizes, the opcodes, the error codes and
  the header overlay \<^verbatim>\<open>struct tftphdr\<close> the programs cast their byte buffers to.  The two
  short fields live at offsets 0 (\<^verbatim>\<open>th_opcode\<close>) and 2 (\<^verbatim>\<open>th_block\<close>, \<^verbatim>\<open>th_code\<close>), the
  data at offset 4, the request strings at offset 2.  The programs convert the fields in
  place (\<^verbatim>\<open>ap->th_opcode = ntohs(ap->th_opcode)\<close>), so the model keeps the byte order of
  the host: \<open>endian\<close> is a parameter of every load and store.
\<close>

subsection \<open>Sizes, opcodes, error codes\<close>

definition SEGSIZE :: nat where "SEGSIZE = 512"
definition MAXSEGSIZE :: nat where "MAXSEGSIZE = 65464"
definition TFTP_HEADER :: nat where "TFTP_HEADER = 4"
definition PKTSIZE :: nat where "PKTSIZE = SEGSIZE + TFTP_HEADER"
definition MAXPKTSIZE :: nat where "MAXPKTSIZE = MAXSEGSIZE + TFTP_HEADER"

definition RRQ :: u16 where "RRQ = 1"
definition WRQ :: u16 where "WRQ = 2"
definition DATA :: u16 where "DATA = 3"
definition ACK :: u16 where "ACK = 4"
definition ERROR :: u16 where "ERROR = 5"
definition OACK :: u16 where "OACK = 6"

definition EUNDEF :: int where "EUNDEF = 0"
definition ENOTFOUND :: int where "ENOTFOUND = 1"
definition EACCESS :: int where "EACCESS = 2"
definition ENOSPACE :: int where "ENOSPACE = 3"
definition EBADOP :: int where "EBADOP = 4"
definition EBADID :: int where "EBADID = 5"
definition EEXISTS :: int where "EEXISTS = 6"
definition ENOUSER :: int where "ENOUSER = 7"
definition EOPTNEG :: int where "EOPTNEG = 8"

lemmas size_defs = SEGSIZE_def MAXSEGSIZE_def TFTP_HEADER_def PKTSIZE_def MAXPKTSIZE_def
lemmas opcode_defs = RRQ_def WRQ_def DATA_def ACK_def ERROR_def OACK_def
lemmas ecode_defs = EUNDEF_def ENOTFOUND_def EACCESS_def ENOSPACE_def EBADOP_def EBADID_def
  EEXISTS_def ENOUSER_def EOPTNEG_def

lemma opcode_distinct [simp]:
  "ACK \<noteq> ERROR" "DATA \<noteq> ERROR" "ERROR \<noteq> ACK" "ERROR \<noteq> DATA" "DATA \<noteq> ACK" "ACK \<noteq> DATA"
  "RRQ \<noteq> WRQ" "WRQ \<noteq> RRQ" "RRQ \<noteq> DATA" "WRQ \<noteq> DATA" "DATA \<noteq> 0" "ACK \<noteq> 0"
  "OACK \<noteq> DATA" "OACK \<noteq> ERROR" "OACK \<noteq> ACK" "RRQ \<noteq> ACK" "WRQ \<noteq> ACK" "RRQ \<noteq> ERROR" "WRQ \<noteq> ERROR"
  by (simp_all add: opcode_defs)

subsection \<open>Shorts in a byte buffer\<close>

datatype endian = Little | Big

definition hi_byte :: "u16 \<Rightarrow> byte" where "hi_byte x = ucast (drop_bit 8 x)"
definition lo_byte :: "u16 \<Rightarrow> byte" where "lo_byte x = ucast x"
definition mk16 :: "byte \<Rightarrow> byte \<Rightarrow> u16" where "mk16 h l = word_cat h l"

lemma hi_mk16 [simp]: "hi_byte (mk16 h l) = h"
  by (rule bit_word_eqI)
    (simp add: hi_byte_def mk16_def bit_ucast_iff bit_drop_bit_eq bit_word_cat_iff)

lemma lo_mk16 [simp]: "lo_byte (mk16 h l) = l"
  by (rule bit_word_eqI) (simp add: lo_byte_def mk16_def bit_ucast_iff bit_word_cat_iff)

lemma mk16_hi_lo [simp]: "mk16 (hi_byte x) (lo_byte x) = x"
  by (rule bit_word_eqI)
    (auto simp: lo_byte_def hi_byte_def mk16_def bit_ucast_iff bit_word_cat_iff bit_drop_bit_eq)

lemma mk16_inject [simp]: "mk16 h l = mk16 h' l' \<longleftrightarrow> h = h' \<and> l = l'"
  by (metis hi_mk16 lo_mk16)

text \<open>Reading and writing a \<^verbatim>\<open>short\<close> at an offset, in the byte order of the host.\<close>

definition load_short :: "endian \<Rightarrow> byte list \<Rightarrow> nat \<Rightarrow> u16" where
  "load_short e b off =
     (case e of Little \<Rightarrow> mk16 (b ! (off + 1)) (b ! off) | Big \<Rightarrow> mk16 (b ! off) (b ! (off + 1)))"

definition store_short :: "endian \<Rightarrow> byte list \<Rightarrow> nat \<Rightarrow> u16 \<Rightarrow> byte list" where
  "store_short e b off v =
     (case e of Little \<Rightarrow> b[off := lo_byte v, off + 1 := hi_byte v]
              | Big \<Rightarrow> b[off := hi_byte v, off + 1 := lo_byte v])"

definition htons :: "endian \<Rightarrow> u16 \<Rightarrow> u16" where
  "htons e v = (case e of Little \<Rightarrow> mk16 (lo_byte v) (hi_byte v) | Big \<Rightarrow> v)"

definition ntohs :: "endian \<Rightarrow> u16 \<Rightarrow> u16" where
  "ntohs e v = (case e of Little \<Rightarrow> mk16 (lo_byte v) (hi_byte v) | Big \<Rightarrow> v)"

text \<open>The short at an offset as it stands on the wire: most significant byte first.\<close>

definition net_short :: "byte list \<Rightarrow> nat \<Rightarrow> u16" where
  "net_short b off = mk16 (b ! off) (b ! (off + 1))"

lemma ntohs_htons [simp, wire_simps]: "ntohs e (htons e v) = v"
  by (simp add: ntohs_def htons_def split: endian.split)

lemma htons_ntohs [simp, wire_simps]: "htons e (ntohs e v) = v"
  by (simp add: ntohs_def htons_def split: endian.split)

lemma ntohs_load [wire_simps]: "ntohs e (load_short e b off) = net_short b off"
  by (simp add: ntohs_def load_short_def net_short_def split: endian.split)

lemma length_store_short [simp]: "length (store_short e b off v) = length b"
  by (simp add: store_short_def split: endian.split)

lemma load_store_short [wire_simps]:
  "off + 1 < length b \<Longrightarrow> load_short e (store_short e b off v) off = v"
  by (simp add: load_short_def store_short_def split: endian.split)

lemma load_store_short_other [wire_simps]:
  "off' + 1 < off \<or> off + 1 < off' \<Longrightarrow>
   load_short e (store_short e b off v) off' = load_short e b off'"
  by (auto simp: load_short_def store_short_def split: endian.split)

lemma net_store_htons [wire_simps]:
  "off + 1 < length b \<Longrightarrow> net_short (store_short e b off (htons e v)) off = v"
  by (simp add: net_short_def store_short_def htons_def split: endian.split)

lemma net_store_short_other [wire_simps]:
  "off' + 1 < off \<or> off + 1 < off' \<Longrightarrow>
   net_short (store_short e b off v) off' = net_short b off'"
  by (auto simp: net_short_def store_short_def split: endian.split)

lemma drop_store_short [wire_simps]:
  "off + 1 < k \<Longrightarrow> drop k (store_short e b off v) = drop k b"
  by (simp add: store_short_def drop_list_update_below split: endian.split)

lemma nth_store_short_other [wire_simps]:
  "i < off \<or> off + 1 < i \<Longrightarrow> store_short e b off v ! i = b ! i"
  by (auto simp: store_short_def split: endian.split)

subsection \<open>The header overlay\<close>

definition th_opcode :: "endian \<Rightarrow> byte list \<Rightarrow> u16" where "th_opcode e b = load_short e b 0"
definition th_block :: "endian \<Rightarrow> byte list \<Rightarrow> u16" where "th_block e b = load_short e b 2"
definition set_th_opcode :: "endian \<Rightarrow> u16 \<Rightarrow> byte list \<Rightarrow> byte list" where
  "set_th_opcode e v b = store_short e b 0 v"
definition set_th_block :: "endian \<Rightarrow> u16 \<Rightarrow> byte list \<Rightarrow> byte list" where
  "set_th_block e v b = store_short e b 2 v"

text \<open>
  The two statements that open every receive loop:
  \<^verbatim>\<open>p->th_opcode = ntohs(p->th_opcode); p->th_block = ntohs(p->th_block);\<close>
  and the two that close every header written for sending.
\<close>

definition ntoh_header :: "endian \<Rightarrow> byte list \<Rightarrow> byte list" where
  "ntoh_header e b =
     (let b1 = set_th_opcode e (ntohs e (th_opcode e b)) b
      in set_th_block e (ntohs e (th_block e b1)) b1)"

definition put_header :: "endian \<Rightarrow> u16 \<Rightarrow> u16 \<Rightarrow> byte list \<Rightarrow> byte list" where
  "put_header e op blk b = set_th_block e (htons e blk) (set_th_opcode e (htons e op) b)"

lemmas header_defs = th_opcode_def th_block_def set_th_opcode_def set_th_block_def
  ntoh_header_def put_header_def

lemma length_ntoh_header [simp]: "length (ntoh_header e b) = length b"
  by (simp add: header_defs Let_def)

lemma length_put_header [simp]: "length (put_header e op blk b) = length b"
  by (simp add: header_defs)

lemma ntoh_header_opcode [wire_simps]:
  "4 \<le> length b \<Longrightarrow> th_opcode e (ntoh_header e b) = net_short b 0"
  by (simp add: header_defs Let_def wire_simps)

lemma ntoh_header_block [wire_simps]:
  "4 \<le> length b \<Longrightarrow> th_block e (ntoh_header e b) = net_short b 2"
  by (simp add: header_defs Let_def wire_simps)

lemma drop_ntoh_header [wire_simps]: "4 \<le> k \<Longrightarrow> drop k (ntoh_header e b) = drop k b"
  by (simp add: header_defs Let_def wire_simps)

lemma drop_put_header [wire_simps]: "4 \<le> k \<Longrightarrow> drop k (put_header e op blk b) = drop k b"
  by (simp add: header_defs wire_simps)

lemma four_bytes: "4 \<le> length b \<Longrightarrow> \<exists>b0 b1 b2 b3 r. b = b0 # b1 # b2 # b3 # r"
  by (auto simp: numeral_eq_Suc Suc_le_length_iff)

lemma take4: "4 \<le> length b \<Longrightarrow> take 4 b = [b ! 0, b ! 1, b ! 2, b ! 3]"
  by (rule nth_equalityI) (auto simp: less_Suc_eq numeral_eq_Suc)

text \<open>The bytes of a header on the wire, whatever the byte order of the host.\<close>

definition hdr :: "u16 \<Rightarrow> u16 \<Rightarrow> byte list" where
  "hdr op blk = [hi_byte op, lo_byte op, hi_byte blk, lo_byte blk]"

lemma length_hdr [simp]: "length (hdr op blk) = 4"
  by (simp add: hdr_def)

lemma take_put_header [wire_simps]:
  "4 \<le> length b \<Longrightarrow> take 4 (put_header e op blk b) = hdr op blk"
  by (drule four_bytes)
    (auto simp: hdr_def header_defs store_short_def htons_def split: endian.split)

lemma take_put_header_ge [wire_simps]:
  assumes "4 \<le> length b"
  shows "take (4 + n) (put_header e op blk b) = hdr op blk @ take n (drop 4 b)"
  using assms by (simp add: take_add wire_simps)

lemma net_short_hdr [wire_simps]:
  "net_short (hdr op blk @ d) 0 = op" "net_short (hdr op blk @ d) 2 = blk"
  by (simp_all add: net_short_def hdr_def)

lemma hdr_inject [simp]: "hdr op blk = hdr op' blk' \<longleftrightarrow> op = op' \<and> blk = blk'"
  by (auto simp: hdr_def) (metis mk16_hi_lo)+

lemma net_short_prefix: "off + 1 < n \<Longrightarrow> net_short (take n b) off = net_short b off"
  by (simp add: net_short_def)

lemma net_short_overlay:
  "off + 1 < length s \<Longrightarrow> net_short (overlay b 0 s) off = net_short s off"
  by (simp add: net_short_def nth_overlay_in)

lemma datagram_hdr:
  "4 \<le> length p \<Longrightarrow> p = hdr (net_short p 0) (net_short p 2) @ drop 4 p"
  using append_take_drop_id [of 4 p] by (simp add: take4 hdr_def net_short_def)

subsection \<open>Packets\<close>

text \<open>What goes over the wire: the packets of RFC 1350 as byte strings.\<close>

definition data_pkt :: "u16 \<Rightarrow> byte list \<Rightarrow> datagram" where
  "data_pkt blk d = hdr DATA blk @ d"

definition ack_pkt :: "u16 \<Rightarrow> datagram" where
  "ack_pkt blk = hdr ACK blk"

text \<open>A read or write request carries two strings, an error packet a code and a string.\<close>

definition request_pkt :: "u16 \<Rightarrow> byte list \<Rightarrow> byte list \<Rightarrow> datagram" where
  "request_pkt op name mode = [hi_byte op, lo_byte op] @ name @ 0 # mode @ [0]"

definition error_pkt :: "u16 \<Rightarrow> byte list \<Rightarrow> datagram" where
  "error_pkt code msg = hdr ERROR code @ msg @ [0]"

lemma request_pkt_net [wire_simps]:
  "net_short (request_pkt op name mode) 0 = op" "drop 2 (request_pkt op name mode) = name @ 0 # mode @ [0]"
  "length (request_pkt op name mode) = length name + length mode + 4"
  by (simp_all add: request_pkt_def net_short_def)

lemma data_pkt_net [wire_simps]:
  "net_short (data_pkt blk d) 0 = DATA" "net_short (data_pkt blk d) 2 = blk"
  "length (data_pkt blk d) = 4 + length d" "drop 4 (data_pkt blk d) = d"
  by (simp_all add: data_pkt_def wire_simps)

lemma ack_pkt_net [wire_simps]:
  "net_short (ack_pkt blk) 0 = ACK" "net_short (ack_pkt blk) 2 = blk" "length (ack_pkt blk) = 4"
  using net_short_hdr [of ACK blk "[]"] by (simp_all add: ack_pkt_def)

lemma ack_not_data [simp]: "ack_pkt b \<noteq> data_pkt c d" "data_pkt c d \<noteq> ack_pkt b"
  by (metis ack_pkt_net(1) data_pkt_net(1) opcode_distinct(5))+

text \<open>The parts of a \<^verbatim>\<open>struct sockaddr_storage\<close> the programs look at.\<close>

record sockaddr =
  family :: nat
  address :: "byte list"
  port :: u16

definition AF_INET :: nat where "AF_INET = 2"
definition AF_INET6 :: nat where "AF_INET6 = 10"

subsection \<open>Error messages\<close>

text \<open>
  The table \<^verbatim>\<open>errmsgs\<close> of \<^verbatim>\<open>tftp/tftp.c\<close> and \<^verbatim>\<open>tftpd/tftpd.c\<close> (the two are the
  same) and the search loop of \<^verbatim>\<open>nak\<close>: the first entry with the code, else the
  sentinel.  \<^verbatim>\<open>strerror\<close> belongs to the C library and is a parameter.
\<close>

definition errmsgs :: "(int \<times> byte list) list" where
  "errmsgs =
    [(EUNDEF, cbytes ''Undefined error code''),
     (ENOTFOUND, cbytes ''File not found''),
     (EACCESS, cbytes ''Access violation''),
     (ENOSPACE, cbytes ''Disk full or allocation exceeded''),
     (EBADOP, cbytes ''Illegal TFTP operation''),
     (EBADID, cbytes ''Unknown transfer ID''),
     (EEXISTS, cbytes ''File already exists''),
     (ENOUSER, cbytes ''No such user'')]"

definition nak_code_msg ::
  "(int \<times> byte list) list \<Rightarrow> (errno \<Rightarrow> byte list) \<Rightarrow> int \<Rightarrow> u16 \<times> byte list" where
  "nak_code_msg table strerror err =
     (case map_of table err of
        Some m \<Rightarrow> (of_int err, m)
      | None \<Rightarrow> (of_int EUNDEF, strerror (err - 100)))"

lemma errmsgs_short: "map_of errmsgs err = Some m \<Longrightarrow> length m < 40 \<and> 0 \<le> err \<and> err < 8"
  by (auto simp: errmsgs_def ecode_defs split: if_splits)

end
