(* ===== verification/Tftp_Netascii.thy ===== *)
theory Tftp_Netascii
  imports Tftp_Prelude
begin

text \<open>
  The netascii transfer format as an abstract specification: \<open>na_encode\<close> is the byte
  stream a sender puts into its data blocks, \<open>na_decode\<close> the file a receiver makes of it.
  The comments of \<^verbatim>\<open>read_ahead\<close> (\<^verbatim>\<open>lf -> cr,lf  and cr -> cr, nul\<close>) and
  \<^verbatim>\<open>write_behind\<close> (\<^verbatim>\<open>CR,NUL -> CR  and CR,LF => LF\<close>) promise these two functions; the
  theory \<open>Tftp_Subs\<close> proves that the buffered code computes them.
\<close>

definition LF :: byte where "LF = 10"
definition CR :: byte where "CR = 13"
definition NUL :: byte where "NUL = 0"

lemma na_char_distinct [simp]:
  "LF \<noteq> CR" "CR \<noteq> LF" "NUL \<noteq> CR" "CR \<noteq> NUL" "NUL \<noteq> LF" "LF \<noteq> NUL"
  by (simp_all add: LF_def CR_def NUL_def)

fun na_encode :: "byte list \<Rightarrow> byte list" where
  "na_encode [] = []"
| "na_encode (c # cs) =
     (if c = LF then CR # LF # na_encode cs
      else if c = CR then CR # NUL # na_encode cs
      else c # na_encode cs)"

fun na_decode :: "byte list \<Rightarrow> byte list" where
  "na_decode [] = []"
| "na_decode [c] = [c]"
| "na_decode (c # d # cs) =
     (if c = CR \<and> d = LF then LF # na_decode cs
      else if c = CR \<and> d = NUL then CR # na_decode cs
      else c # na_decode (d # cs))"

lemma na_decode_Cons: "c \<noteq> CR \<Longrightarrow> na_decode (c # cs) = c # na_decode cs"
  by (cases cs) auto

lemma na_decode_encode: "na_decode (na_encode cs) = cs"
  by (induction cs) (auto simp: na_decode_Cons)

lemma na_encode_append: "na_encode (xs @ ys) = na_encode xs @ na_encode ys"
  by (induction xs) auto

lemma length_na_encode: "length (na_encode cs) = length cs + length (filter (\<lambda>c. c = LF \<or> c = CR) cs)"
  by (induction cs) auto

subsection \<open>Decoding one byte at a time\<close>

text \<open>
  The same decoder as a machine that has read a prefix: the output so far, and whether
  the previous byte was a CR.  This is the shape of the loop in \<^verbatim>\<open>write_behind\<close>, with
  the file replaced by its contents.  In octet mode a byte is stored as it is.
\<close>

type_synonym decoder = "byte list \<times> bool"

fun dec_step :: "bool \<Rightarrow> byte \<Rightarrow> decoder \<Rightarrow> decoder" where
  "dec_step convert c (out, cr) =
     (if \<not> convert then (out @ [c], cr)
      else if cr \<and> c = LF then (butlast out @ [LF], False)
      else if cr \<and> c = NUL then (out, False)
      else (out @ [c], c = CR))"

definition decode_from :: "bool \<Rightarrow> byte list \<Rightarrow> decoder \<Rightarrow> decoder" where
  "decode_from convert cs st = fold (dec_step convert) cs st"

definition decoded :: "bool \<Rightarrow> byte list \<Rightarrow> byte list" where
  "decoded convert cs = (if convert then na_decode cs else cs)"

definition encoded :: "bool \<Rightarrow> byte list \<Rightarrow> byte list" where
  "encoded convert cs = (if convert then na_encode cs else cs)"

lemma decode_from_Nil [simp]: "decode_from v [] st = st"
  by (simp add: decode_from_def)

lemma decode_from_append: "decode_from v (xs @ ys) st = decode_from v ys (decode_from v xs st)"
  by (simp add: decode_from_def)

lemma decode_from_octet: "decode_from False cs (out, cr) = (out @ cs, cr)"
  by (induction cs arbitrary: out) (simp_all add: decode_from_def)

lemma decode_from_plain:
  "fst (decode_from True cs (out, False)) = out @ na_decode cs"
proof (induction cs arbitrary: out rule: na_decode.induct)
  case (3 c d cs)
  show ?case
  proof (cases "c = CR \<and> (d = LF \<or> d = NUL)")
    case True
    with "3.IH"(1,2) show ?thesis by (auto simp: decode_from_def)
  next
    case False
    then have "fst (decode_from True (d # cs) (out @ [c], False)) = (out @ [c]) @ na_decode (d # cs)"
      using "3.IH"(3) by auto
    with False show ?thesis by (auto simp: decode_from_def)
  qed
qed (auto simp: decode_from_def)

lemma decode_from_start: "fst (decode_from v cs ([], False)) = decoded v cs"
  by (cases v) (simp_all add: decode_from_plain decode_from_octet decoded_def)

lemma decoded_encoded: "decoded v (encoded v cs) = cs"
  by (simp add: decoded_def encoded_def na_decode_encode)

end
