(* ===== verification/Tftp_Interfaces.thy ===== *)
theory Tftp_Interfaces
  imports Tftp_Wire Tftp_Netascii
begin

text \<open>
  The interfaces of the protocol machines: to the double buffer of \<^verbatim>\<open>tftpsubs.c\<close>, and to their timers.  A sender takes its data blocks from a \<open>block_source\<close> (\<^verbatim>\<open>readit\<close>,
  \<^verbatim>\<open>read_ahead\<close>), a receiver hands them to a \<open>block_sink\<close> (\<^verbatim>\<open>writeit\<close>,
  \<^verbatim>\<open>write_behind\<close>).  The laws say what the machines rely on and hide when a buffer is
  filled or flushed: \<open>rest\<close> is the byte stream still to be sent, \<open>contents\<close> what the file
  holds once every pending buffer has been written.
\<close>

subsection \<open>Where the data blocks come from\<close>

locale block_source =
  fixes inv :: "'s \<Rightarrow> bool"
    and rest :: "'s \<Rightarrow> byte list"
    and payload :: "'s \<Rightarrow> byte list"
    and take_block :: "'s \<Rightarrow> int \<times> 's"
    and ahead :: "'s \<Rightarrow> 's"
  assumes ahead_inv: "inv s \<Longrightarrow> inv (ahead s)"
    and ahead_rest: "inv s \<Longrightarrow> rest (ahead s) = rest s"
    and ahead_payload: "inv s \<Longrightarrow> payload (ahead s) = payload s"
    and take_inv: "inv s \<Longrightarrow> inv (snd (take_block s))"
    and take_count: "inv s \<Longrightarrow> fst (take_block s) = int (length (take SEGSIZE (rest s)))"
    and take_payload: "inv s \<Longrightarrow> payload (snd (take_block s)) = take SEGSIZE (rest s)"
    and take_rest: "inv s \<Longrightarrow> rest (snd (take_block s)) = drop SEGSIZE (rest s)"
begin

text \<open>
  The k-th block of the stream, whatever the interleaving of reads ahead: reading ahead
  any number of times before and after each block changes nothing a sender sees.
\<close>

definition next_state :: "nat \<Rightarrow> 's \<Rightarrow> 's" where
  "next_state n s = snd (take_block ((ahead ^^ n) s))"

lemma aheads: "inv s \<Longrightarrow> inv ((ahead ^^ n) s) \<and> rest ((ahead ^^ n) s) = rest s"
  by (induction n) (simp_all add: ahead_inv ahead_rest)

lemma next_state_props:
  assumes "inv s"
  shows "inv (next_state n s)" "rest (next_state n s) = drop SEGSIZE (rest s)"
    "payload (next_state n s) = take SEGSIZE (rest s)"
  using aheads [OF assms, of n] by (simp_all add: next_state_def take_inv take_rest take_payload)

lemma blocks_in_order:
  assumes "inv s"
  shows "inv (fold next_state ns s) \<and> rest (fold next_state ns s) = drop (SEGSIZE * length ns) (rest s)"
  using assms
proof (induction ns arbitrary: s)
  case (Cons n ns)
  then show ?case
    by (simp add: next_state_props add.commute)
qed simp

text \<open>The block a sender takes when k blocks of the data d have gone before.\<close>

lemma take_kth:
  assumes "inv s" "rest s = drop (SEGSIZE * k) d"
  shows "fst (take_block s) = int (length (chunk SEGSIZE k d))" "payload (snd (take_block s)) = chunk SEGSIZE k d"
    "inv (snd (take_block s))" "rest (snd (take_block s)) = drop (SEGSIZE * Suc k) d"
  using assms take_count [OF assms(1)] take_payload [OF assms(1)] take_inv [OF assms(1)] take_rest [OF assms(1)]
  by (simp_all add: chunk_def add.commute)

lemma block_payload:
  assumes "inv s"
  shows "payload (next_state n (fold next_state ns s)) = chunk SEGSIZE (length ns) (rest s)"
  using blocks_in_order [OF assms, of ns] by (simp add: next_state_props chunk_def)

end

subsection \<open>Where the data blocks go\<close>

text \<open>
  A sink takes blocks of at most \<open>cap\<close> bytes; the C routines also confirm the size of the block, the C++
  routines return what the flush of the block before wrote.
\<close>

locale block_sink =
  fixes cap :: nat
    and convert :: bool
    and inv :: "'s \<Rightarrow> bool"
    and contents :: "'s \<Rightarrow> decoder"
    and stored :: "'s \<Rightarrow> byte list"
    and staged :: "'s \<Rightarrow> byte list"
    and put :: "int \<Rightarrow> 's \<Rightarrow> int \<times> 's"
    and flush :: "'s \<Rightarrow> 's"
  assumes put_inv: "inv s \<Longrightarrow> n \<le> cap \<Longrightarrow> inv (snd (put (int n) s))"
    and put_contents: "inv s \<Longrightarrow> n \<le> cap \<Longrightarrow>
      contents (snd (put (int n) s)) = decode_from convert (take n (staged s)) (contents s)"
    and flush_inv: "inv s \<Longrightarrow> inv (flush s)"
    and flush_contents: "inv s \<Longrightarrow> contents (flush s) = contents s"
    and flush_stored: "inv s \<Longrightarrow> stored (flush s) = fst (contents s)"
begin

text \<open>Flushing twice writes nothing twice.\<close>

lemma flush_flush: "inv s \<Longrightarrow> stored (flush (flush s)) = stored (flush s)"
  by (simp add: flush_inv flush_contents flush_stored)

text \<open>The sink holds the first k blocks of the data d.\<close>

definition holds :: "nat \<Rightarrow> byte list \<Rightarrow> nat \<Rightarrow> 's \<Rightarrow> bool" where
  "holds g d k s \<longleftrightarrow> inv s \<and> contents s = decode_from convert (take (g * k) d) ([], False)"

lemma put_kth:
  assumes "holds g d k s" "g \<le> cap" "take (length (chunk g k d)) (staged s) = chunk g k d"
  shows "holds g d (Suc k) (snd (put (int (length (chunk g k d))) s))"
proof -
  have n: "length (chunk g k d) \<le> cap" using length_chunk_le [of g k d] assms(2) by simp
  have "inv s" using assms(1) by (simp add: holds_def)
  from put_inv [OF this n] put_contents [OF this n] assms show ?thesis
    by (simp add: holds_def decode_from_append [symmetric] take_chunk del: mult_Suc_right)
qed

lemma flush_kth:
  assumes "holds g d k s"
  shows "holds g d k (flush s)" "stored (flush s) = fst (decode_from convert (take (g * k) d) ([], False))"
  using assms by (simp_all add: holds_def flush_inv flush_contents flush_stored)

text \<open>When the last block is short, the sink has all of the data, and a flush writes it to the file.\<close>

lemma flush_all:
  assumes "holds g d (Suc k) s" "length (chunk g k d) < g"
  shows "stored (flush s) = decoded convert d"
  using flush_kth(2) [OF assms(1)] chunk_short [OF assms(2)] by (simp add: decode_from_start del: mult_Suc_right)

end

locale counted_sink = block_sink +
  assumes put_count: "inv s \<Longrightarrow> n \<le> cap \<Longrightarrow> fst (put (int n) s) = int n"

subsection \<open>Retransmission\<close>

text \<open>
  The transfers of daemon and client share the contract of their timers: an alarm that leaves a transfer
  waiting has found it waiting, has added the interval to the time that passed since the last progress, and
  that time is still below the limit.  \<open>v\<close> is what else the retransmission depends on.
\<close>

locale retransmission =
  fixes waiting :: "'s \<Rightarrow> bool"
    and elapsed :: "'s \<Rightarrow> int"
    and alarm :: "'v \<Rightarrow> 's \<Rightarrow> 's"
    and interval :: int
    and limit :: int
  assumes alarm_counts: "interval \<noteq> 0 \<Longrightarrow> waiting (alarm v s) \<Longrightarrow>
      waiting s \<and> elapsed (alarm v s) = elapsed s + interval \<and> elapsed s + interval < limit"
begin

lemma alarms_count:
  assumes "interval \<noteq> 0" "waiting (fold alarm vs s)"
  shows "elapsed (fold alarm vs s) = elapsed s + int (length vs) * interval \<and>
    (vs \<noteq> [] \<longrightarrow> elapsed s + int (length vs) * interval < limit)"
  using assms(2)
proof (induction vs rule: rev_induct)
  case (snoc v vs)
  from snoc.prems have "waiting (alarm v (fold alarm vs s))" by simp
  from alarm_counts [OF assms(1) this] snoc.IH show ?case by (auto simp: algebra_simps)
qed simp

text \<open>A transfer that hears nothing but alarms ends.\<close>

lemma gives_up:
  assumes "0 < interval" "0 \<le> elapsed s" "vs \<noteq> []" "limit \<le> int (length vs) * interval"
  shows "\<not> waiting (fold alarm vs s)"
  using alarms_count [of vs s] assms by fastforce

end

subsection \<open>Troubles between the packets that are waited for\<close>

text \<open>
  A run in rounds: in round k come the troubles \<open>ts k\<close>, each with its events, and then what the transfer waits for.
\<close>

definition rounds :: "('t \<Rightarrow> 'e list) \<Rightarrow> (nat \<Rightarrow> 'e list) \<Rightarrow> (nat \<Rightarrow> 't list) \<Rightarrow> nat \<Rightarrow> 'e list" where
  "rounds events go ts n = concat (map (\<lambda>k. concat (map events (ts k)) @ go k) [0..<n])"

lemma rounds_Suc: "rounds events go ts (Suc n) = rounds events go ts n @ concat (map events (ts n)) @ go n"
  by (simp add: rounds_def)

text \<open>
  A transfer is \<open>at k n\<close> when k blocks are done and n timeouts have passed since.  It survives fewer than \<open>limit\<close> of
  them and whatever else is \<open>fine\<close>, and what it waits for brings it to the next block or to the end.
\<close>

locale lossy_transfer =
  fixes at :: "nat \<Rightarrow> nat \<Rightarrow> 's \<Rightarrow> bool"
    and run :: "'e list \<Rightarrow> 's \<Rightarrow> 's"
    and events :: "'t \<Rightarrow> 'e list"
    and loss :: "'t \<Rightarrow> bool"
    and fine :: "nat \<Rightarrow> 't \<Rightarrow> bool"
    and go :: "nat \<Rightarrow> 'e list"
    and ended :: "'s \<Rightarrow> bool"
    and blocks :: nat
    and limit :: nat
  assumes run_Nil: "run [] s = s"
    and run_append: "run (xs @ ys) s = run ys (run xs s)"
    and at_loss: "at k n s \<Longrightarrow> Suc n < limit \<Longrightarrow> loss t \<Longrightarrow> at k (Suc n) (run (events t) s)"
    and at_stray: "at k n s \<Longrightarrow> \<not> loss t \<Longrightarrow> fine k t \<Longrightarrow> at k n (run (events t) s)"
    and at_next: "at k n s \<Longrightarrow> Suc k \<noteq> blocks \<Longrightarrow> at (Suc k) 0 (run (go k) s)"
    and at_end: "at k n s \<Longrightarrow> Suc k = blocks \<Longrightarrow> ended (run (go k) s)"
begin

definition bearable :: "nat \<Rightarrow> 't list \<Rightarrow> bool" where
  "bearable k ts \<longleftrightarrow> length (filter loss ts) < limit \<and> (\<forall>t\<in>set ts. loss t \<or> fine k t)"

lemma troubles:
  assumes "at k n s" "n + length (filter loss ts) < limit" "\<forall>t\<in>set ts. loss t \<or> fine k t"
  shows "\<exists>m. at k m (run (concat (map events ts)) s)"
  using assms
proof (induction ts arbitrary: s n)
  case Nil
  then show ?case by (auto simp: run_Nil)
next
  case (Cons t ts)
  show ?case
  proof (cases "loss t")
    case True
    with Cons.prems at_loss [of k n s t] have "at k (Suc n) (run (events t) s)" by simp
    from Cons.IH [OF this] Cons.prems(2,3) True show ?thesis by (simp add: run_append)
  next
    case False
    with Cons.prems at_stray [of k n s t] have "at k n (run (events t) s)" by simp
    from Cons.IH [OF this] Cons.prems(2,3) False show ?thesis by (simp add: run_append)
  qed
qed

lemma bearable_troubles:
  "at k 0 s \<Longrightarrow> bearable k ts \<Longrightarrow> \<exists>m. at k m (run (concat (map events ts)) s)"
  using troubles [of k 0 s ts] by (simp add: bearable_def)

lemma goes_on:
  assumes "at 0 0 s" "\<forall>k<blocks. bearable k (ts k)"
  shows "n < blocks \<Longrightarrow> at n 0 (run (rounds events go ts n) s)"
proof (induction n)
  case 0
  with assms(1) show ?case by (simp add: rounds_def run_Nil)
next
  case (Suc n)
  then have "at n 0 (run (rounds events go ts n) s)" by simp
  with bearable_troubles assms(2) Suc.prems
  obtain m where "at n m (run (concat (map events (ts n))) (run (rounds events go ts n) s))" by (meson Suc_lessD)
  from at_next [OF this] Suc.prems show ?case by (simp add: rounds_Suc run_append)
qed

lemma survives:
  assumes "at 0 0 s" "\<forall>k<blocks. bearable k (ts k)" "0 < blocks"
  shows "ended (run (rounds events go ts blocks) s)"
proof -
  obtain n where n: "blocks = Suc n" using assms(3) by (cases blocks) simp_all
  with goes_on [OF assms(1,2), of n] have "at n 0 (run (rounds events go ts n) s)" by simp
  with bearable_troubles assms(2) n
  obtain m where "at n m (run (concat (map events (ts n))) (run (rounds events go ts n) s))" by blast
  from at_end [OF this] n show ?thesis by (simp add: rounds_Suc run_append)
qed

end

end
