(* ===== verification/Tftp_File.thy ===== *)
theory Tftp_File
  imports Tftp_Prelude
begin

text \<open>
  The C library's file operations as the programs use them: \<^verbatim>\<open>read\<close> and \<^verbatim>\<open>write\<close> on
  the descriptor (octet transfers), \<^verbatim>\<open>getc\<close>, \<^verbatim>\<open>putc\<close> and \<^verbatim>\<open>fseek(file, -1, 1)\<close> on the
  stream (netascii transfers).  A transfer uses one of the two families only, so the
  stream's buffer is not part of the state: a stream is its contents and its position.

  Two fields describe the environment.  \<open>flimit\<close> is the size the file can reach before
  the disk is full (\<open>None\<close>: never), \<open>fbad\<close> an offset the medium cannot read (\<open>None\<close>: no
  such offset).  A full disk makes \<^verbatim>\<open>write\<close> store a prefix, and fail with \<^verbatim>\<open>ENOSPC\<close> when
  not even one byte fits; a bad offset makes \<^verbatim>\<open>read\<close> stop before it, and fail with
  \<^verbatim>\<open>EIO\<close> when it stands there.  Both are the behaviour POSIX documents.
\<close>

record cfile =
  fdata :: "byte list"
  fpos :: nat
  flimit :: "nat option"
  fbad :: "nat option"

definition EIO :: errno where "EIO = 5"
definition ENOSPC :: errno where "ENOSPC = 28"
definition ENOENT :: errno where "ENOENT = 2"

definition readable :: "cfile \<Rightarrow> byte list" where
  "readable f = drop (fpos f) (case fbad f of None \<Rightarrow> fdata f | Some b \<Rightarrow> take b (fdata f))"

definition at_bad :: "cfile \<Rightarrow> bool" where
  "at_bad f = (case fbad f of None \<Rightarrow> False | Some b \<Rightarrow> b \<le> fpos f \<and> fpos f < length (fdata f))"

definition sys_read :: "cfile \<Rightarrow> nat \<Rightarrow> (errno + byte list) \<times> cfile" where
  "sys_read f n =
     (if at_bad f then (Inl EIO, f)
      else let bs = take n (readable f) in (Inr bs, f\<lparr>fpos := fpos f + length bs\<rparr>))"

definition c_getc :: "cfile \<Rightarrow> byte option \<times> cfile" where
  "c_getc f = (case readable f of [] \<Rightarrow> (None, f) | c # _ \<Rightarrow> (Some c, f\<lparr>fpos := fpos f + 1\<rparr>))"

definition write_at :: "byte list \<Rightarrow> nat \<Rightarrow> byte list \<Rightarrow> byte list" where
  "write_at d pos bs = overlay (d @ replicate (pos - length d) 0) pos bs"

definition room :: "cfile \<Rightarrow> nat \<Rightarrow> nat" where
  "room f n = (case flimit f of None \<Rightarrow> n | Some l \<Rightarrow> min n (l - fpos f))"

definition sys_write :: "cfile \<Rightarrow> byte list \<Rightarrow> (errno + nat) \<times> cfile" where
  "sys_write f bs =
     (let n = room f (length bs)
      in if n = 0 \<and> bs \<noteq> [] then (Inl ENOSPC, f)
         else (Inr n, f\<lparr>fdata := write_at (fdata f) (fpos f) (take n bs), fpos := fpos f + n\<rparr>))"

definition c_putc :: "byte \<Rightarrow> cfile \<Rightarrow> cfile" where
  "c_putc c f =
     (if room f 1 = 0 then f
      else f\<lparr>fdata := write_at (fdata f) (fpos f) [c], fpos := fpos f + 1\<rparr>)"

definition c_fseek_cur :: "int \<Rightarrow> cfile \<Rightarrow> cfile" where
  "c_fseek_cur d f = (if int (fpos f) + d < 0 then f else f\<lparr>fpos := nat (int (fpos f) + d)\<rparr>)"

subsection \<open>Files without faults\<close>

text \<open>
  A file being read without a bad offset, and a file being written on a disk that does
  not fill up, with the position at the end of what was written so far.
\<close>

definition sound_in :: "cfile \<Rightarrow> bool" where "sound_in f \<longleftrightarrow> fbad f = None"

definition sound_out :: "cfile \<Rightarrow> bool" where
  "sound_out f \<longleftrightarrow> flimit f = None \<and> fpos f = length (fdata f)"

definition unread :: "cfile \<Rightarrow> byte list" where "unread f = drop (fpos f) (fdata f)"

definition open_read :: "byte list \<Rightarrow> cfile" where
  "open_read d = \<lparr>fdata = d, fpos = 0, flimit = None, fbad = None\<rparr>"

definition open_trunc :: "nat option \<Rightarrow> cfile" where
  "open_trunc l = \<lparr>fdata = [], fpos = 0, flimit = l, fbad = None\<rparr>"

lemma open_read_sound [simp]: "sound_in (open_read d)" "unread (open_read d) = d"
  by (simp_all add: sound_in_def open_read_def unread_def)

lemma open_trunc_sound [simp]: "sound_out (open_trunc None)" "fdata (open_trunc l) = []"
  by (simp_all add: sound_out_def open_trunc_def)

lemma sys_read_sound:
  "sound_in f \<Longrightarrow>
   sys_read f n = (Inr (take n (unread f)), f\<lparr>fpos := fpos f + length (take n (unread f))\<rparr>)"
  by (simp add: sys_read_def sound_in_def at_bad_def readable_def unread_def Let_def)

lemma unread_advance: "unread (f\<lparr>fpos := fpos f + k\<rparr>) = drop k (unread f)"
  by (simp add: unread_def add.commute)

lemma c_getc_sound:
  "sound_in f \<Longrightarrow>
   c_getc f = (case unread f of [] \<Rightarrow> (None, f) | c # _ \<Rightarrow> (Some c, f\<lparr>fpos := fpos f + 1\<rparr>))"
  by (simp add: c_getc_def sound_in_def readable_def unread_def)

lemma sound_in_pos [simp]: "sound_in (f\<lparr>fpos := p\<rparr>) = sound_in f"
  by (simp add: sound_in_def)

lemma write_at_end: "write_at d (length d) bs = d @ bs"
  by (simp add: write_at_def overlay_def)

lemma sys_write_sound:
  "sound_out f \<Longrightarrow>
   sys_write f bs = (Inr (length bs), f\<lparr>fdata := fdata f @ bs, fpos := fpos f + length bs\<rparr>)"
  by (simp add: sys_write_def room_def sound_out_def Let_def write_at_end)

lemma sys_write_keeps_sound:
  "sound_out f \<Longrightarrow> sound_out (snd (sys_write f bs))"
  by (simp add: sys_write_sound) (simp add: sound_out_def)

text \<open>A write stores a prefix of the buffer, and a fault is the only error.\<close>

lemma sys_write_prefix:
  assumes "sys_write f bs = (Inr n, f')"
  shows "n \<le> length bs \<and> fdata f' = write_at (fdata f) (fpos f) (take n bs)"
  using assms
  by (auto simp: sys_write_def room_def Let_def split: if_splits option.splits)

lemma c_putc_sound:
  "sound_out f \<Longrightarrow> c_putc c f = f\<lparr>fdata := fdata f @ [c], fpos := fpos f + 1\<rparr>"
  by (simp add: c_putc_def room_def sound_out_def write_at_end)

lemma putc_over_last:
  assumes "sound_out f" "fdata f \<noteq> []"
  shows "c_putc c (c_fseek_cur (-1) f) = f\<lparr>fdata := butlast (fdata f) @ [c]\<rparr>"
proof -
  from assms obtain n where n: "length (fdata f) = Suc n" "fpos f = Suc n" "flimit f = None"
    by (cases "length (fdata f)") (auto simp: sound_out_def)
  have "drop (Suc n) (fdata f) = []" "take n (fdata f) = butlast (fdata f)"
    using n by (simp_all add: butlast_conv_take)
  with n show ?thesis
    by (simp add: c_putc_def c_fseek_cur_def room_def write_at_def overlay_def)
qed

end
