(* ===== verification/Tftp_Subs.thy ===== *)
theory Tftp_Subs
  imports Tftp_Interfaces Tftp_File
begin

text \<open>
  \<^verbatim>\<open>tftp/tftpsubs.c\<close>: the read-ahead and write-behind routines over two packet buffers,
  with the netascii conversions.  The file-scope variables of the C file are the record
  \<open>subs\<close>; a buffer index is a truth value (\<^verbatim>\<open>!current\<close> is the other buffer) and a
  \<^verbatim>\<open>struct tftphdr *\<close> into a buffer is the index of that buffer.
\<close>

record bf =
  counter :: int
  bbuf :: "byte list"

record subs =
  bfs :: "bool \<Rightarrow> bf"
  nextone :: bool
  current :: bool
  newline :: bool
  prevchar :: int
  errno :: errno

definition BF_ALLOC :: int where "BF_ALLOC = -3"
definition BF_FREE :: int where "BF_FREE = -2"

lemma BF_simps [simp]:
  "BF_ALLOC \<noteq> BF_FREE" "BF_FREE \<noteq> BF_ALLOC" "0 \<le> n \<Longrightarrow> n \<noteq> BF_FREE" "int k \<noteq> BF_FREE"
  "BF_ALLOC < -1" "BF_FREE < -1" "BF_ALLOC \<noteq> int k" "nat BF_ALLOC = 0" "nat BF_FREE = 0"
  by (simp_all add: BF_ALLOC_def BF_FREE_def)

text \<open>The state of a fresh process: static storage is zero.\<close>

definition subs_start :: subs where
  "subs_start = \<lparr>bfs = (\<lambda>_. \<lparr>counter = 0, bbuf = replicate PKTSIZE 0\<rparr>), nextone = False,
     current = False, newline = False, prevchar = -1, errno = 0\<rparr>"

definition set_counter :: "bool \<Rightarrow> int \<Rightarrow> subs \<Rightarrow> subs" where
  "set_counter i n s = s\<lparr>bfs := (bfs s)(i := (bfs s i)\<lparr>counter := n\<rparr>)\<rparr>"

definition set_bbuf :: "bool \<Rightarrow> byte list \<Rightarrow> subs \<Rightarrow> subs" where
  "set_bbuf i b s = s\<lparr>bfs := (bfs s)(i := (bfs s i)\<lparr>bbuf := b\<rparr>)\<rparr>"

subsection \<open>Operations\<close>

definition rw_init :: "bool \<Rightarrow> subs \<Rightarrow> bool \<times> subs" where
  "rw_init x s =
     (let s1 = s\<lparr>newline := False, prevchar := -1\<rparr>;
          s2 = (set_counter False BF_ALLOC s1)\<lparr>current := False\<rparr>;
          s3 = (set_counter True BF_FREE s2)\<lparr>nextone := x\<rparr>
      in (False, s3))"

definition w_init :: "subs \<Rightarrow> bool \<times> subs" where "w_init = rw_init False"
definition r_init :: "subs \<Rightarrow> bool \<times> subs" where "r_init = rw_init True"

text \<open>
  The conversion loop of \<^verbatim>\<open>read_ahead\<close>, for the remaining number of turns of its
  \<^verbatim>\<open>for (i = 0; i < SEGSIZE; i++)\<close>: it stops early at the end of the file.
\<close>

fun fill_ascii :: "nat \<Rightarrow> cfile \<times> bool \<times> int \<Rightarrow> byte list \<times> cfile \<times> bool \<times> int" where
  "fill_ascii 0 st = ([], st)"
| "fill_ascii (Suc i) (f, nl, pc) =
     (if nl
      then (let c = (if pc = 10 then LF else NUL); (bs, st) = fill_ascii i (f, False, pc)
            in (c # bs, st))
      else (case c_getc f of
              (None, f') \<Rightarrow> ([], f', nl, pc)
            | (Some c, f') \<Rightarrow>
                if c = LF \<or> c = CR
                then (let (bs, st) = fill_ascii i (f', True, uint c) in (CR # bs, st))
                else (let (bs, st) = fill_ascii i (f', nl, pc) in (c # bs, st))))"

definition read_ahead :: "bool \<Rightarrow> cfile \<times> subs \<Rightarrow> cfile \<times> subs" where
  "read_ahead convert fs =
     (let (f, s) = fs; i = nextone s; b = bfs s i
      in if counter b \<noteq> BF_FREE then (f, s)
         else let s1 = s\<lparr>nextone := \<not> i\<rparr>
              in if \<not> convert
                 then (case sys_read f SEGSIZE of
                         (Inl e, f') \<Rightarrow> (f', (set_counter i (-1) s1)\<lparr>errno := e\<rparr>)
                       | (Inr bs, f') \<Rightarrow>
                           (f', set_counter i (int (length bs)) (set_bbuf i (overlay (bbuf b) 4 bs) s1)))
                 else (let (bs, f', nl, pc) = fill_ascii SEGSIZE (f, newline s, prevchar s)
                       in (f', (set_counter i (int (length bs))
                                 (set_bbuf i (overlay (bbuf b) 4 bs) s1))\<lparr>newline := nl, prevchar := pc\<rparr>)))"

definition readit :: "bool \<Rightarrow> cfile \<times> subs \<Rightarrow> int \<times> bool \<times> cfile \<times> subs" where
  "readit convert fs =
     (let (f, s) = fs;
          s1 = set_counter (current s) BF_FREE s;
          i = (\<not> current s);
          s2 = s1\<lparr>current := i\<rparr>;
          (f3, s3) = (if counter (bfs s2 i) = BF_FREE then read_ahead convert (f, s2) else (f, s2))
      in (counter (bfs s3 i), i, f3, s3))"

text \<open>The loop of \<^verbatim>\<open>write_behind\<close> over the bytes of the buffer.\<close>

fun put_ascii :: "byte list \<Rightarrow> cfile \<times> int \<Rightarrow> cfile \<times> int" where
  "put_ascii [] (f, pc) = (f, pc)"
| "put_ascii (b # bs) (f, pc) =
     (let c = sint b
      in if pc = 13 \<and> c = 0 then put_ascii bs (f, c)
         else (let f' = (if pc = 13 \<and> c = 10 then c_fseek_cur (-1) f else f)
               in put_ascii bs (c_putc b f', c)))"

definition write_behind :: "bool \<Rightarrow> cfile \<times> subs \<Rightarrow> int \<times> cfile \<times> subs" where
  "write_behind convert fs =
     (let (f, s) = fs; i = nextone s; b = bfs s i
      in if counter b < -1 then (0, f, s)
         else let count = counter b;
                  s1 = (set_counter i BF_FREE s)\<lparr>nextone := \<not> i\<rparr>;
                  buf = take (nat count) (drop 4 (bbuf b))
              in if count \<le> 0 then (-1, f, s1)
                 else if \<not> convert
                 then (case sys_write f buf of
                         (Inl e, f') \<Rightarrow> (-1, f', s1\<lparr>errno := e\<rparr>)
                       | (Inr n, f') \<Rightarrow> (int n, f', s1))
                 else (let (f', pc) = put_ascii buf (f, prevchar s1)
                       in (count, f', s1\<lparr>prevchar := pc\<rparr>)))"

definition writeit :: "bool \<Rightarrow> int \<Rightarrow> cfile \<times> subs \<Rightarrow> int \<times> bool \<times> cfile \<times> subs" where
  "writeit convert count fs =
     (let (f, s) = fs;
          s1 = set_counter (current s) count s;
          i = (\<not> current s);
          s2 = s1\<lparr>current := i\<rparr>;
          (f3, s3) = (if counter (bfs s2 i) \<noteq> BF_FREE then snd (write_behind convert (f, s2)) else (f, s2))
      in (count, i, f3, set_counter i BF_ALLOC s3))"

text \<open>
  \<^verbatim>\<open>synchnet\<close>: discard what is queued on the socket.  \<^verbatim>\<open>FIONREAD\<close> gives the size of the
  first queued datagram, 0 for an empty queue and for an empty datagram, at which the
  loop stops.  The first component is the number of discarded packets.
\<close>

fun synchnet :: "datagram list \<Rightarrow> nat \<times> datagram list" where
  "synchnet [] = (0, [])"
| "synchnet (p # q) =
     (if p = [] then (0, p # q) else (let (j, q') = synchnet q in (Suc j, q')))"

subsection \<open>Flushing the socket\<close>

lemma synchnet_drops: "snd (synchnet q) = drop (fst (synchnet q)) q"
  by (induction q) (auto split: prod.splits)

lemma synchnet_all: "[] \<notin> set q \<Longrightarrow> synchnet q = (length q, [])"
  by (induction q) auto

lemma set_synchnet: "set (snd (synchnet q)) \<subseteq> set q"
  by (simp add: synchnet_drops set_drop_subset)

subsection \<open>Buffers\<close>

lemma set_counter_bfs [bf_simps]:
  "bfs (set_counter i n s) j = (if j = i then (bfs s i)\<lparr>counter := n\<rparr> else bfs s j)"
  "nextone (set_counter i n s) = nextone s" "current (set_counter i n s) = current s"
  "newline (set_counter i n s) = newline s" "prevchar (set_counter i n s) = prevchar s"
  "errno (set_counter i n s) = errno s"
  by (simp_all add: set_counter_def)

lemma set_bbuf_bfs [bf_simps]:
  "bfs (set_bbuf i b s) j = (if j = i then (bfs s i)\<lparr>bbuf := b\<rparr> else bfs s j)"
  "nextone (set_bbuf i b s) = nextone s" "current (set_bbuf i b s) = current s"
  "newline (set_bbuf i b s) = newline s" "prevchar (set_bbuf i b s) = prevchar s"
  "errno (set_bbuf i b s) = errno s"
  by (simp_all add: set_bbuf_def)

definition bufs_ok :: "subs \<Rightarrow> bool" where
  "bufs_ok s \<longleftrightarrow> length (bbuf (bfs s False)) = PKTSIZE \<and> length (bbuf (bfs s True)) = PKTSIZE"

lemma bufs_okD: "bufs_ok s \<Longrightarrow> length (bbuf (bfs s i)) = PKTSIZE"
  by (cases i) (simp_all add: bufs_ok_def)

lemma bufs_okI: "(\<And>i. length (bbuf (bfs s i)) = PKTSIZE) \<Longrightarrow> bufs_ok s"
  by (simp add: bufs_ok_def)

lemma bufs_ok_start: "bufs_ok subs_start"
  by (simp add: bufs_ok_def subs_start_def)

lemma length_fill_ascii: "length (fst (fill_ascii k st)) \<le> k"
proof (induction k arbitrary: st)
  case (Suc k)
  then show ?case
    by (cases st) (auto simp: Let_def case_prod_beta split: option.split)
qed simp

subsection \<open>Reading: the stream of data bytes\<close>

text \<open>
  What the sender still has to send when no buffer is filled ahead: in netascii mode the
  second byte of a pair whose CR closed the last block, then the encoded rest of the file.
\<close>

definition na_stream :: "cfile \<Rightarrow> bool \<Rightarrow> int \<Rightarrow> byte list" where
  "na_stream f nl pc = (if nl then [if pc = 10 then LF else NUL] else []) @ na_encode (unread f)"

lemma na_stream_pending:
  "na_stream f True pc = (if pc = 10 then LF else NUL) # na_stream f False pc"
  by (simp add: na_stream_def)

lemma na_stream_eof: "unread f = [] \<Longrightarrow> na_stream f False pc = []"
  by (simp add: na_stream_def)

lemma na_stream_getc:
  assumes "unread f = c # cs"
  shows "na_stream f False pc =
    (if c = LF \<or> c = CR then CR # na_stream (f\<lparr>fpos := fpos f + 1\<rparr>) True (uint c)
     else c # na_stream (f\<lparr>fpos := fpos f + 1\<rparr>) False pc)"
  unfolding na_stream_def unread_advance using assms by (auto simp: LF_def CR_def)

lemma fill_ascii_stream:
  assumes "sound_in f" and "fill_ascii k (f, nl, pc) = (bs, f', nl', pc')"
  shows "bs = take k (na_stream f nl pc) \<and> na_stream f' nl' pc' = drop k (na_stream f nl pc) \<and> sound_in f'"
  using assms
proof (induction k arbitrary: f nl pc bs)
  case (Suc k)
  show ?case
  proof (cases nl)
    case True
    with Suc.prems Suc.IH [of f False pc] show ?thesis
      by (auto simp: Let_def na_stream_pending split: prod.splits)
  next
    case False
    show ?thesis
    proof (cases "unread f")
      case Nil
      with False Suc.prems show ?thesis
        by (auto simp: c_getc_sound na_stream_eof)
    next
      case (Cons c cs)
      let ?g = "f\<lparr>fpos := fpos f + 1\<rparr>"
      have g: "sound_in ?g" "c_getc f = (Some c, ?g)"
        using Cons Suc.prems(1) by (simp_all add: c_getc_sound)
      show ?thesis
        using False Suc.prems(2) g(2) Suc.IH [OF g(1)]
        by (auto simp: Let_def na_stream_getc [OF Cons] split: prod.splits if_splits)
    qed
  qed
qed simp

definition stream :: "bool \<Rightarrow> cfile \<times> subs \<Rightarrow> byte list" where
  "stream convert fs =
     (if convert then na_stream (fst fs) (newline (snd fs)) (prevchar (snd fs)) else unread (fst fs))"

text \<open>
  One fill of a free buffer takes the next block off the stream.
\<close>

lemma read_ahead_fill:
  assumes "sound_in f" "bufs_ok s" "counter (bfs s i) = BF_FREE" "nextone s = i"
    and "read_ahead convert (f, s) = (f', s')"
  shows "sound_in f'" "bufs_ok s'" "current s' = current s" "nextone s' = (\<not> i)"
    "bfs s' (\<not> i) = bfs s (\<not> i)"
    "counter (bfs s' i) = int (length (take SEGSIZE (stream convert (f, s))))"
    "take (length (take SEGSIZE (stream convert (f, s)))) (drop 4 (bbuf (bfs s' i))) =
       take SEGSIZE (stream convert (f, s))"
    "stream convert (f', s') = drop SEGSIZE (stream convert (f, s))"
proof -
  have len: "length (bbuf (bfs s i)) = 4 + SEGSIZE"
    using bufs_okD [OF assms(2)] by (simp add: size_defs)
  define bs where "bs = take SEGSIZE (stream convert (f, s))"
  have bs: "length bs \<le> SEGSIZE" by (simp add: bs_def)
  obtain g nl pc where sh:
    "f' = g" "s' = (set_counter i (int (length bs)) (set_bbuf i (overlay (bbuf (bfs s i)) 4 bs)
        (s\<lparr>nextone := \<not> i\<rparr>)))\<lparr>newline := nl, prevchar := pc\<rparr>"
    "sound_in g" "stream convert (g, s') = drop SEGSIZE (stream convert (f, s))"
  proof (cases convert)
    case True
    obtain b g nl pc where fa: "fill_ascii SEGSIZE (f, newline s, prevchar s) = (b, g, nl, pc)"
      by (metis prod_cases4)
    from fill_ascii_stream [OF assms(1) fa] True assms(3-5) fa that [where g = g and nl = nl and pc = pc] show ?thesis
      by (auto simp: read_ahead_def Let_def stream_def bs_def)
  next
    case False
    with assms sys_read_sound [OF assms(1), of SEGSIZE] that [where g = f' and nl = "newline s" and pc = "prevchar s"]
    show ?thesis
      by (auto simp: read_ahead_def Let_def stream_def bs_def unread_advance set_counter_def
          set_bbuf_def)
  qed
  show "sound_in f'" "current s' = current s" "nextone s' = (\<not> i)"
    "bfs s' (\<not> i) = bfs s (\<not> i)"
    "counter (bfs s' i) = int (length (take SEGSIZE (stream convert (f, s))))"
    "stream convert (f', s') = drop SEGSIZE (stream convert (f, s))"
    using sh by (simp_all add: bf_simps bs_def)
  show "bufs_ok s'"
    using sh(2) len bs by (intro bufs_okI) (auto simp: bf_simps bufs_okD [OF assms(2)] PKTSIZE_def TFTP_HEADER_def)
  show "take (length (take SEGSIZE (stream convert (f, s)))) (drop 4 (bbuf (bfs s' i))) =
       take SEGSIZE (stream convert (f, s))"
    using take_drop_overlay [of 4 "bbuf (bfs s i)" bs] sh(2) len by (simp add: bf_simps bs_def)
qed

lemma read_ahead_busy:
  "counter (bfs s (nextone s)) \<noteq> BF_FREE \<Longrightarrow> read_ahead convert (f, s) = (f, s)"
  by (simp add: read_ahead_def)

subsection \<open>The double buffer as a block source\<close>

definition payload :: "cfile \<times> subs \<Rightarrow> byte list" where
  "payload fs = (let b = bfs (snd fs) (current (snd fs)) in take (nat (counter b)) (drop 4 (bbuf b)))"

definition ahead_bytes :: "subs \<Rightarrow> byte list" where
  "ahead_bytes s = (let b = bfs s (\<not> current s) in take (nat (counter b)) (drop 4 (bbuf b)))"

text \<open>
  The buffer in use is never free; the other one is either free and next to be filled,
  or filled ahead, in full unless the file is exhausted.
\<close>

definition source_inv :: "bool \<Rightarrow> cfile \<times> subs \<Rightarrow> bool" where
  "source_inv convert fs =
     (let (f, s) = fs; i = current s
      in sound_in f \<and> bufs_ok s \<and> counter (bfs s i) \<noteq> BF_FREE \<and>
         (if nextone s = i
          then 0 \<le> counter (bfs s (\<not> i)) \<and> counter (bfs s (\<not> i)) \<le> int SEGSIZE \<and>
               (counter (bfs s (\<not> i)) < int SEGSIZE \<longrightarrow> stream convert fs = [])
          else counter (bfs s (\<not> i)) = BF_FREE))"

definition source_rest :: "bool \<Rightarrow> cfile \<times> subs \<Rightarrow> byte list" where
  "source_rest convert fs =
     (let s = snd fs in (if nextone s = current s then ahead_bytes s else []) @ stream convert fs)"

definition take_block :: "bool \<Rightarrow> cfile \<times> subs \<Rightarrow> int \<times> cfile \<times> subs" where
  "take_block convert fs = (let (n, i, fs') = readit convert fs in (n, fs'))"

lemma source_ahead:
  assumes "source_inv convert fs"
  shows "source_inv convert (read_ahead convert fs)"
    "source_rest convert (read_ahead convert fs) = source_rest convert fs"
    "payload (read_ahead convert fs) = payload fs"
proof -
  obtain f s where fs: "fs = (f, s)" by (cases fs)
  obtain f' s' where ra: "read_ahead convert (f, s) = (f', s')" by fastforce
  have "source_inv convert (f', s') \<and> source_rest convert (f', s') = source_rest convert fs \<and>
    payload (f', s') = payload fs"
  proof (cases "nextone s = current s")
    case True
    with assms ra fs show ?thesis
      by (simp add: source_inv_def Let_def read_ahead_busy)
  next
    case False
    then have i: "nextone s = (\<not> current s)" by simp
    with assms fs have pre: "sound_in f" "bufs_ok s" "counter (bfs s (\<not> current s)) = BF_FREE"
      "counter (bfs s (current s)) \<noteq> BF_FREE"
      by (simp_all add: source_inv_def Let_def)
    note fill = read_ahead_fill [OF pre(1,2,3) i ra, simplified]
    have "source_inv convert (f', s')"
      using fill pre(4) by (auto simp: source_inv_def Let_def)
    moreover have "source_rest convert (f', s') = source_rest convert fs"
      using fill i fs by (simp add: source_rest_def ahead_bytes_def Let_def)
    moreover have "payload (f', s') = payload fs"
      using fill fs by (simp add: payload_def Let_def)
    ultimately show ?thesis by simp
  qed
  with ra fs show "source_inv convert (read_ahead convert fs)"
    "source_rest convert (read_ahead convert fs) = source_rest convert fs"
    "payload (read_ahead convert fs) = payload fs"
    by simp_all
qed

lemma source_take:
  assumes "source_inv convert fs"
  shows "source_inv convert (snd (take_block convert fs))"
    "fst (take_block convert fs) = int (length (take SEGSIZE (source_rest convert fs)))"
    "payload (snd (take_block convert fs)) = take SEGSIZE (source_rest convert fs)"
    "source_rest convert (snd (take_block convert fs)) = drop SEGSIZE (source_rest convert fs)"
proof -
  obtain f s where fs: "fs = (f, s)" by (cases fs)
  define i where "i = (\<not> current s)"
  define s2 where "s2 = (set_counter (current s) BF_FREE s)\<lparr>current := i\<rparr>"
  have s2: "bfs s2 i = bfs s i" "counter (bfs s2 (\<not> i)) = BF_FREE" "current s2 = i"
    "nextone s2 = nextone s" "stream convert (f, s2) = stream convert (f, s)"
    "bufs_ok s2 = bufs_ok s"
    by (simp_all add: s2_def i_def bf_simps stream_def bufs_ok_def)
  have "let r = take_block convert fs in source_inv convert (snd r) \<and>
    fst r = int (length (take SEGSIZE (source_rest convert fs))) \<and>
    payload (snd r) = take SEGSIZE (source_rest convert fs) \<and>
    source_rest convert (snd r) = drop SEGSIZE (source_rest convert fs)"
  proof (cases "nextone s = current s")
    case True
    then have n: "nextone s = (\<not> i)" by (simp add: i_def)
    define m where "m = nat (counter (bfs s i))"
    from assms fs True i_def have inv: "sound_in f" "bufs_ok s"
      "counter (bfs s i) = int m" "m \<le> SEGSIZE" "m < SEGSIZE \<longrightarrow> stream convert (f, s) = []"
      by (auto simp: source_inv_def Let_def m_def)
    have "counter (bfs s i) \<noteq> BF_FREE" using inv(3) by simp
    then have r: "take_block convert fs = (counter (bfs s i), f, s2)"
      using fs s2(1) by (simp add: take_block_def readit_def Let_def s2_def i_def)
    have ah: "length (ahead_bytes s) = m" "source_rest convert fs = ahead_bytes s @ stream convert (f, s)"
      using inv bufs_okD [OF inv(2), of i] True fs
      by (simp_all add: ahead_bytes_def source_rest_def Let_def i_def size_defs)
    have "payload (f, s2) = ahead_bytes s"
      using s2 by (simp add: payload_def ahead_bytes_def Let_def i_def)
    then show ?thesis
      using r s2 n inv ah by (auto simp: source_inv_def source_rest_def Let_def)
  next
    case False
    then have n: "nextone s = i" by (auto simp: i_def)
    from assms fs False i_def have inv: "sound_in f" "bufs_ok s" "counter (bfs s i) = BF_FREE"
      by (auto simp: source_inv_def Let_def)
    obtain f' s' where ra: "read_ahead convert (f, s2) = (f', s')" by fastforce
    have r: "take_block convert fs = (counter (bfs s' i), f', s')"
      using fs s2(1) inv(3) ra by (simp add: take_block_def readit_def Let_def s2_def i_def)
    note fill = read_ahead_fill [OF inv(1) _ _ _ ra, of i, simplified s2 inv n, simplified]
    have "source_rest convert fs = stream convert (f, s)"
      using False fs by (simp add: source_rest_def Let_def)
    then show ?thesis
      using r fill s2 by (auto simp: source_inv_def source_rest_def payload_def Let_def)
  qed
  then show "source_inv convert (snd (take_block convert fs))"
    "fst (take_block convert fs) = int (length (take SEGSIZE (source_rest convert fs)))"
    "payload (snd (take_block convert fs)) = take SEGSIZE (source_rest convert fs)"
    "source_rest convert (snd (take_block convert fs)) = drop SEGSIZE (source_rest convert fs)"
    by (simp_all add: Let_def)
qed

interpretation dbuf_in: block_source "source_inv convert" "source_rest convert" payload
  "take_block convert" "read_ahead convert"
  by unfold_locales (rule source_ahead source_take, assumption)+

lemma r_init_source:
  assumes "sound_in f" "bufs_ok s" "r_init s = (i, s')"
  shows "source_inv convert (f, s')" "source_rest convert (f, s') = encoded convert (unread f)"
    "current s' = i"
  using assms
  by (auto simp: r_init_def rw_init_def Let_def source_inv_def source_rest_def stream_def
      na_stream_def encoded_def bufs_ok_def bf_simps)

subsection \<open>Writing: the decoded contents\<close>

lemma sint_chars [simp]: "sint CR = 13" "sint LF = 10" "sint NUL = 0"
  by (simp_all add: CR_def LF_def NUL_def)

lemma sint_byte_eq:
  "sint (b :: byte) = 13 \<longleftrightarrow> b = CR" "sint (b :: byte) = 10 \<longleftrightarrow> b = LF" "sint (b :: byte) = 0 \<longleftrightarrow> b = NUL"
  by (metis sint_chars signed_word_eqI)+

definition dec_ok :: "cfile \<Rightarrow> int \<Rightarrow> bool" where
  "dec_ok f pc \<longleftrightarrow> sound_out f \<and> (pc = 13 \<longrightarrow> fdata f \<noteq> [])"

text \<open>The loop of \<^verbatim>\<open>write_behind\<close> is the abstract decoder, the file its output.\<close>

lemma put_ascii_decodes:
  assumes "dec_ok f pc" "put_ascii bs (f, pc) = (f', pc')"
  shows "dec_ok f' pc' \<and> (fdata f', pc' = 13) = decode_from True bs (fdata f, pc = 13)"
  using assms
proof (induction bs arbitrary: f pc)
  case (Cons b bs)
  let ?g = "c_putc b (if pc = 13 \<and> b = LF then c_fseek_cur (-1) f else f)"
  show ?case
  proof (cases "pc = 13 \<and> b = NUL")
    case True
    with Cons.prems Cons.IH [of f "sint b"] show ?thesis
      by (auto simp: Let_def sint_byte_eq decode_from_def dec_ok_def)
  next
    case False
    have g: "dec_ok ?g (sint b)" "fdata ?g = (if pc = 13 \<and> b = LF then butlast (fdata f) @ [LF] else fdata f @ [b])"
      using Cons.prems(1) putc_over_last [of f b] c_putc_sound [of f b]
      by (auto simp: dec_ok_def sound_out_def)
    have "put_ascii bs (?g, sint b) = (f', pc')"
      using False Cons.prems(2)
      by (cases "pc = 13 \<and> b = LF") (auto simp: Let_def sint_byte_eq)
    from Cons.IH [OF g(1) this] g(2) False show ?thesis
      by (auto simp: decode_from_def sint_byte_eq)
  qed
qed simp

subsection \<open>The double buffer as a block sink\<close>

definition pending :: "subs \<Rightarrow> byte list" where
  "pending s = (if nextone s = current s then [] else ahead_bytes s)"

definition sink_inv :: "bool \<Rightarrow> cfile \<times> subs \<Rightarrow> bool" where
  "sink_inv convert fs =
     (let (f, s) = fs; i = current s
      in dec_ok f (prevchar s) \<and> bufs_ok s \<and> counter (bfs s i) = BF_ALLOC \<and>
         (if nextone s = i then counter (bfs s (\<not> i)) = BF_FREE
          else 0 \<le> counter (bfs s (\<not> i)) \<and> counter (bfs s (\<not> i)) \<le> int SEGSIZE))"

definition sink_contents :: "bool \<Rightarrow> cfile \<times> subs \<Rightarrow> decoder" where
  "sink_contents convert fs =
     decode_from convert (pending (snd fs)) (fdata (fst fs), prevchar (snd fs) = 13)"

definition staged :: "cfile \<times> subs \<Rightarrow> byte list" where
  "staged fs = drop 4 (bbuf (bfs (snd fs) (current (snd fs))))"

definition put_block :: "bool \<Rightarrow> int \<Rightarrow> cfile \<times> subs \<Rightarrow> int \<times> cfile \<times> subs" where
  "put_block convert n fs = (let (c, i, fs') = writeit convert n fs in (c, fs'))"

definition flush_block :: "bool \<Rightarrow> cfile \<times> subs \<Rightarrow> cfile \<times> subs" where
  "flush_block convert fs = snd (write_behind convert fs)"

lemma flush_pending:
  assumes "dec_ok f (prevchar s)" "counter (bfs s i) = int n" "nextone s = i"
    and "flush_block convert (f, s) = (f', s')"
  shows "dec_ok f' (prevchar s') \<and> (fdata f', prevchar s' = 13) =
       decode_from convert (take n (drop 4 (bbuf (bfs s i)))) (fdata f, prevchar s = 13) \<and>
     bfs s' = (bfs s)(i := (bfs s i)\<lparr>counter := BF_FREE\<rparr>) \<and> nextone s' = (\<not> i) \<and>
     current s' = current s"
proof -
  let ?buf = "take n (drop 4 (bbuf (bfs s i)))"
  let ?s1 = "(set_counter i BF_FREE s)\<lparr>nextone := \<not> i\<rparr>"
  have s1: "bfs ?s1 = (bfs s)(i := (bfs s i)\<lparr>counter := BF_FREE\<rparr>)" "prevchar ?s1 = prevchar s"
    by (simp_all add: set_counter_def)
  consider "n = 0" | "0 < n" convert | "0 < n" "\<not> convert" by blast
  then show ?thesis
  proof cases
    case 1
    then have "flush_block convert (f, s) = (f, ?s1)"
      using assms(2,3) by (simp add: flush_block_def write_behind_def Let_def)
    with assms(1,4) s1 1 show ?thesis by (auto simp: bf_simps)
  next
    case 2
    obtain g pc where pa: "put_ascii ?buf (f, prevchar s) = (g, pc)" by fastforce
    have "flush_block convert (f, s) = (g, ?s1\<lparr>prevchar := pc\<rparr>)"
      using 2 assms(2,3) pa by (simp add: flush_block_def write_behind_def Let_def bf_simps)
    with assms(4) s1 2 put_ascii_decodes [OF assms(1) pa] show ?thesis by (auto simp: bf_simps)
  next
    case 3
    have sound: "sound_out f" using assms(1) by (simp add: dec_ok_def)
    have "flush_block convert (f, s) = (snd (sys_write f ?buf), ?s1)"
      using 3 assms(2,3)
      by (simp add: flush_block_def write_behind_def Let_def bf_simps sys_write_sound [OF sound])
    with assms(1,4) s1 3 sys_write_keeps_sound [OF sound, of ?buf] show ?thesis
      by (auto simp: bf_simps dec_ok_def decode_from_octet sys_write_sound [OF sound])
  qed
qed

lemma flush_idle:
  "counter (bfs s (nextone s)) < -1 \<Longrightarrow> flush_block convert (f, s) = (f, s)"
  by (simp add: flush_block_def write_behind_def Let_def)

lemma sink_flush:
  assumes "sink_inv convert fs"
  shows "sink_inv convert (flush_block convert fs)"
    "sink_contents convert (flush_block convert fs) = sink_contents convert fs"
    "fdata (fst (flush_block convert fs)) = fst (sink_contents convert fs)"
    "current (snd (flush_block convert fs)) = current (snd fs)"
    "nextone (snd (flush_block convert fs)) = current (snd fs)"
    "bbuf (bfs (snd (flush_block convert fs)) i) = bbuf (bfs (snd fs) i)"
proof -
  obtain f s where fs: "fs = (f, s)" by (cases fs)
  obtain f' s' where fl: "flush_block convert (f, s) = (f', s')" by fastforce
  have "sink_inv convert (f', s') \<and> sink_contents convert (f', s') = sink_contents convert fs \<and>
    fdata f' = fst (sink_contents convert fs) \<and> current s' = current s \<and> nextone s' = current s \<and>
    (\<forall>i. bbuf (bfs s' i) = bbuf (bfs s i))"
  proof (cases "nextone s = current s")
    case True
    with assms fs fl show ?thesis
      by (auto simp: sink_inv_def sink_contents_def pending_def Let_def flush_idle)
  next
    case False
    then have n: "nextone s = (\<not> current s)" by simp
    define m where "m = nat (counter (bfs s (\<not> current s)))"
    from assms fs False have inv: "dec_ok f (prevchar s)" "bufs_ok s" "counter (bfs s (current s)) = BF_ALLOC"
      "counter (bfs s (\<not> current s)) = int m"
      by (simp_all add: sink_inv_def Let_def m_def)
    note fl' = flush_pending [OF inv(1,4) n fl]
    with inv n fs False show ?thesis
      by (auto simp: sink_inv_def sink_contents_def pending_def ahead_bytes_def Let_def bufs_ok_def)
        (metis fst_conv)+
  qed
  with fl fs show "sink_inv convert (flush_block convert fs)"
    "sink_contents convert (flush_block convert fs) = sink_contents convert fs"
    "fdata (fst (flush_block convert fs)) = fst (sink_contents convert fs)"
    "current (snd (flush_block convert fs)) = current (snd fs)"
    "nextone (snd (flush_block convert fs)) = current (snd fs)"
    "bbuf (bfs (snd (flush_block convert fs)) i) = bbuf (bfs (snd fs) i)"
    by simp_all
qed

text \<open>
  A put leaves the data in its buffer and moves on to the other one, which is flushed
  first when it still waits.
\<close>

lemma put_block_flushed:
  assumes "sink_inv convert (f, s)"
  shows "put_block convert n (f, s) =
    (let (f', s') = flush_block convert (f, s); i = current s
     in (n, f', set_counter (\<not> i) BF_ALLOC ((set_counter i n s')\<lparr>current := \<not> i\<rparr>)))"
proof (cases "nextone s = current s")
  case True
  with assms show ?thesis
    by (auto simp: sink_inv_def put_block_def writeit_def Let_def flush_idle bf_simps)
next
  case False
  then have n: "nextone s = (\<not> current s)" by simp
  have comm: "write_behind convert (f, (set_counter (current s) n s)\<lparr>current := \<not> current s\<rparr>) =
     (let (c, f', s') = write_behind convert (f, s)
      in (c, f', (set_counter (current s) n s')\<lparr>current := \<not> current s\<rparr>))"
    using n by (auto simp: write_behind_def Let_def set_counter_def fun_upd_twist
        split: sum.splits prod.splits)
  have "counter (bfs s (\<not> current s)) \<noteq> BF_FREE"
    using assms False by (auto simp: sink_inv_def Let_def)
  then show ?thesis
    by (auto simp: put_block_def writeit_def Let_def bf_simps comm flush_block_def split: prod.splits)
qed

lemma sink_put:
  assumes "sink_inv convert fs" "n \<le> SEGSIZE"
  shows "sink_inv convert (snd (put_block convert (int n) fs))"
    "fst (put_block convert (int n) fs) = int n"
    "sink_contents convert (snd (put_block convert (int n) fs)) =
       decode_from convert (take n (staged fs)) (sink_contents convert fs)"
    "current (snd (snd (put_block convert (int n) fs))) = (\<not> current (snd fs))"
    "bbuf (bfs (snd (snd (put_block convert (int n) fs))) i) = bbuf (bfs (snd fs) i)"
proof -
  obtain f s where fs: "fs = (f, s)" by (cases fs)
  obtain f' s' where fl: "flush_block convert (f, s) = (f', s')" by fastforce
  note flushed = sink_flush [OF assms(1), unfolded fs fl, simplified]
  let ?i = "current s"
  let ?s = "set_counter (\<not> ?i) BF_ALLOC ((set_counter ?i (int n) s')\<lparr>current := \<not> ?i\<rparr>)"
  have r: "put_block convert (int n) fs = (int n, f', ?s)"
    using put_block_flushed [of convert f s "int n"] assms(1) fl fs by (simp add: Let_def)
  have c: "sink_contents convert (f', s') = (fdata f', prevchar s' = 13)"
    using flushed(4,5) by (simp add: sink_contents_def pending_def)
  have "sink_inv convert (f', ?s)"
    using flushed(1,4,5) assms(2) by (simp add: sink_inv_def Let_def bf_simps bufs_ok_def)
  moreover have "sink_contents convert (f', ?s) =
      decode_from convert (take n (staged fs)) (sink_contents convert fs)"
    using flushed(2,4,5,6) c fs
    by (simp add: sink_contents_def pending_def ahead_bytes_def staged_def bf_simps Let_def)
  ultimately show "sink_inv convert (snd (put_block convert (int n) fs))"
    "fst (put_block convert (int n) fs) = int n"
    "sink_contents convert (snd (put_block convert (int n) fs)) =
       decode_from convert (take n (staged fs)) (sink_contents convert fs)"
    "current (snd (snd (put_block convert (int n) fs))) = (\<not> current (snd fs))"
    "bbuf (bfs (snd (snd (put_block convert (int n) fs))) i) = bbuf (bfs (snd fs) i)"
    using r flushed(6) fs by (simp_all add: bf_simps)
qed

interpretation dbuf_out: counted_sink SEGSIZE convert "sink_inv convert" "sink_contents convert"
  "\<lambda>fs. fdata (fst fs)" staged "put_block convert" "flush_block convert"
  by unfold_locales (rule sink_put sink_flush, assumption+)+

lemma w_init_sink:
  assumes "sound_out f" "fdata f = []" "bufs_ok s" "w_init s = (i, s')"
  shows "sink_inv convert (f, s')" "sink_contents convert (f, s') = ([], False)" "current s' = i"
  using assms
  by (auto simp: w_init_def rw_init_def Let_def sink_inv_def sink_contents_def pending_def
      bufs_ok_def dec_ok_def bf_simps)

subsection \<open>What the callers do to the buffer in use\<close>

text \<open>
  Reading ahead leaves the buffer in use alone; \<^verbatim>\<open>readit\<close> returns the buffer it makes
  current; a header stored in the buffer in use changes no data.
\<close>

lemma read_ahead_current:
  assumes "source_inv v fs"
  shows "current (snd (read_ahead v fs)) = current (snd fs)"
    "bfs (snd (read_ahead v fs)) (current (snd fs)) = bfs (snd fs) (current (snd fs))"
proof -
  obtain f s where fs: "fs = (f, s)" by (cases fs)
  obtain f' s' where ra: "read_ahead v (f, s) = (f', s')" by fastforce
  have "current s' = current s \<and> bfs s' (current s) = bfs s (current s)"
  proof (cases "nextone s = current s")
    case True
    with assms ra fs show ?thesis
      by (simp add: source_inv_def Let_def read_ahead_busy)
  next
    case False
    then have i: "nextone s = (\<not> current s)" by simp
    with assms fs have "sound_in f" "bufs_ok s" "counter (bfs s (\<not> current s)) = BF_FREE"
      by (simp_all add: source_inv_def Let_def)
    from read_ahead_fill [OF this i ra] show ?thesis by simp
  qed
  with fs ra show "current (snd (read_ahead v fs)) = current (snd fs)"
    "bfs (snd (read_ahead v fs)) (current (snd fs)) = bfs (snd fs) (current (snd fs))"
    by simp_all
qed

lemma read_ahead_keeps_current: "current (snd (read_ahead v fs)) = current (snd fs)"
  by (cases fs)
    (auto simp: read_ahead_def Let_def bf_simps split: prod.splits sum.splits)

lemma readit_index:
  assumes "readit v fs = (n, i, fs')"
  shows "i = current (snd fs')"
proof -
  obtain f s where fs: "fs = (f, s)" by (cases fs)
  let ?s = "(set_counter (current s) BF_FREE s)\<lparr>current := \<not> current s\<rparr>"
  obtain f3 s3 where ra: "read_ahead v (f, ?s) = (f3, s3)" by fastforce
  have "current s3 = (\<not> current s)"
    using read_ahead_keeps_current [of v "(f, ?s)"] ra by simp
  with assms fs ra show ?thesis
    by (cases fs') (simp add: readit_def Let_def split: if_splits)
qed

lemma writeit_index:
  assumes "writeit v n fs = (m, i, fs')"
  shows "m = n" "i = (\<not> current (snd fs))"
  using assms by (cases fs; auto simp: writeit_def Let_def split: prod.splits)+

lemma source_set_bbuf:
  assumes "source_inv v (f, s)" "i = current s" "length b = PKTSIZE" "drop 4 b = drop 4 (bbuf (bfs s i))"
  shows "source_inv v (f, set_bbuf i b s)" "source_rest v (f, set_bbuf i b s) = source_rest v (f, s)"
    "payload (f, set_bbuf i b s) = payload (f, s)"
  using assms
  by (auto simp: source_inv_def source_rest_def payload_def ahead_bytes_def stream_def Let_def
      bf_simps bufs_ok_def)

lemma sink_set_bbuf:
  assumes "sink_inv v (f, s)" "i = current s" "length b = PKTSIZE"
  shows "sink_inv v (f, set_bbuf i b s)" "sink_contents v (f, set_bbuf i b s) = sink_contents v (f, s)"
    "staged (f, set_bbuf i b s) = drop 4 b"
  using assms
  by (auto simp: sink_inv_def sink_contents_def pending_def ahead_bytes_def staged_def Let_def
      bf_simps bufs_ok_def)

lemma source_bufs: "source_inv v (f, s) \<Longrightarrow> length (bbuf (bfs s i)) = PKTSIZE"
  by (auto simp: source_inv_def Let_def bufs_okD)

lemma sink_bufs: "sink_inv v (f, s) \<Longrightarrow> length (bbuf (bfs s i)) = PKTSIZE"
  by (auto simp: sink_inv_def Let_def bufs_okD)

end
