(* ===== verification/Tftpd_Transfer.thy ===== *)
theory Tftpd_Transfer
  imports Tftp_Subs
begin

text \<open>
  The transfer machines of the daemon \<^verbatim>\<open>tftpd/tftpd.c\<close>: \<^verbatim>\<open>sendfile\<close>, \<^verbatim>\<open>recvfile\<close>,
  the timer and \<^verbatim>\<open>nak\<close>.  The process blocks in \<^verbatim>\<open>recv\<close>, so a transfer is a state that
  reacts to events: a datagram joins the socket's queue (\<open>Arrive\<close>), \<^verbatim>\<open>recv\<close> returns the
  first one (\<open>Recv\<close>), it fails (\<open>RecvFails\<close>), the alarm goes off while it blocks
  (\<open>Alarm\<close>) or between its return and \<^verbatim>\<open>alarm(0)\<close> (\<open>RecvAlarm\<close>: the datagram is in the
  buffer, but \<^verbatim>\<open>siglongjmp\<close> skips its evaluation).  The truth value of an event says
  whether the one \<^verbatim>\<open>sendto\<close> its handler may make succeeds.  \<open>out\<close> is the list of
  datagrams sent to the client; they all go to \<^verbatim>\<open>from\<close>, the address of the request.
\<close>

datatype event = Arrive datagram | Recv bool | RecvFails | Alarm bool | RecvAlarm bool

datatype phase = Waiting | Dallying | Finished | Aborted | Exited int

record cfg =
  host :: endian
  convert :: bool
  strerror :: "errno \<Rightarrow> byte list"

record srv =
  fs :: "cfile \<times> subs"
  ackbuf :: "byte list"
  rbuf :: "byte list"
  dp :: bool
  block :: u16
  sz :: int
  timeout :: int
  inq :: "datagram list"
  out :: "datagram list"
  phase :: phase

definition TIMEOUT :: int where "TIMEOUT = 1"
definition rexmtval :: int where "rexmtval = TIMEOUT"
definition maxtimeout :: int where "maxtimeout = 5 * TIMEOUT"

text \<open>The packet buffer \<^verbatim>\<open>dp\<close> points to, and a store through \<^verbatim>\<open>dp\<close>.\<close>

definition dp_buf :: "srv \<Rightarrow> byte list" where
  "dp_buf s = bbuf (bfs (snd (fs s)) (dp s))"

definition set_dp_buf :: "byte list \<Rightarrow> srv \<Rightarrow> srv" where
  "set_dp_buf b s = s\<lparr>fs := (fst (fs s), set_bbuf (dp s) b (snd (fs s)))\<rparr>"

text \<open>\<^verbatim>\<open>sendto\<close> and \<^verbatim>\<open>recv\<close> on the peer socket.\<close>

definition transmit :: "bool \<Rightarrow> datagram \<Rightarrow> srv \<Rightarrow> srv" where
  "transmit ok p s = (if ok then s\<lparr>out := out s @ [p]\<rparr> else s)"

definition recv_into :: "byte list \<Rightarrow> datagram \<Rightarrow> byte list" where
  "recv_into b p = overlay b 0 (take PKTSIZE p)"

definition recv_len :: "datagram \<Rightarrow> int" where
  "recv_len p = int (length (take PKTSIZE p))"

subsection \<open>Error packets\<close>

text \<open>
  The error packet \<^verbatim>\<open>nak\<close> builds in \<^verbatim>\<open>buf\<close>: \<^verbatim>\<open>strncpy\<close> copies at most \<^verbatim>\<open>SEGSIZE\<close>
  bytes of the message and pads with NUL, then the terminating NUL is stored and sent
  along (\<^verbatim>\<open>length += 5\<close>).
\<close>

definition strncpy_pad :: "nat \<Rightarrow> byte list \<Rightarrow> byte list" where
  "strncpy_pad n m = take n m @ replicate (n - length m) 0"

definition nak :: "cfg \<Rightarrow> bool \<Rightarrow> int \<Rightarrow> srv \<Rightarrow> srv" where
  "nak c ok err s =
     (let (code, msg) = nak_code_msg errmsgs (strerror c) err;
          b1 = put_header (host c) ERROR code (rbuf s);
          b2 = overlay b1 4 (strncpy_pad SEGSIZE msg);
          len = length msg;
          b3 = b2[4 + len := 0]
      in transmit ok (take (len + 5) b3) (s\<lparr>rbuf := b3\<rparr>))"

subsection \<open>sendfile\<close>

text \<open>From the label \<^verbatim>\<open>send_data\<close> to the next \<^verbatim>\<open>recv\<close>.\<close>

definition send_data :: "cfg \<Rightarrow> bool \<Rightarrow> srv \<Rightarrow> srv" where
  "send_data c ok s =
     (if \<not> ok then s\<lparr>phase := Aborted\<rparr>
      else let s1 = transmit ok (take (nat (sz s + 4)) (dp_buf s)) s
           in s1\<lparr>fs := read_ahead (convert c) (fs s1), phase := Waiting\<rparr>)"

text \<open>The body of the loop from its top: the next block is read and sent.\<close>

definition next_data :: "cfg \<Rightarrow> bool \<Rightarrow> srv \<Rightarrow> srv" where
  "next_data c ok s =
     (let (n, i, fs') = readit (convert c) (fs s);
          s1 = s\<lparr>fs := fs', dp := i, sz := n\<rparr>
      in if n < 0 then (nak c ok (errno (snd fs') + 100) s1)\<lparr>phase := Aborted\<rparr>
         else send_data c ok
                ((set_dp_buf (put_header (host c) DATA (block s1) (dp_buf s1)) s1)\<lparr>timeout := 0\<rparr>))"

definition sendfile :: "cfg \<Rightarrow> bool \<Rightarrow> srv \<Rightarrow> srv" where
  "sendfile c ok s =
     (let (i, b) = r_init (snd (fs s))
      in next_data c ok (s\<lparr>fs := (fst (fs s), b), dp := i, block := 1\<rparr>))"

text \<open>What happens to a received datagram: an acknowledgement is expected.\<close>

definition handle_ack :: "cfg \<Rightarrow> bool \<Rightarrow> datagram \<Rightarrow> srv \<Rightarrow> srv" where
  "handle_ack c ok p s =
     (let a = ntoh_header (host c) (recv_into (ackbuf s) p);
          s1 = s\<lparr>ackbuf := a\<rparr>
      in if th_opcode (host c) a = ERROR then s1\<lparr>phase := Aborted\<rparr>
         else if th_opcode (host c) a = ACK
         then if th_block (host c) a = block s1
              then let s2 = s1\<lparr>block := block s1 + 1\<rparr>
                   in if sz s2 = int SEGSIZE then next_data c ok s2 else s2\<lparr>phase := Finished\<rparr>
              else let s2 = s1\<lparr>inq := snd (synchnet (inq s1))\<rparr>
                   in if uint (th_block (host c) a) = uint (block s2) - 1 then send_data c ok s2
                      else s2
         else s1)"

text \<open>The signal handler: retransmit, or give up for good.\<close>

definition timer :: "(srv \<Rightarrow> srv) \<Rightarrow> srv \<Rightarrow> srv" where
  "timer resend s =
     (let s1 = s\<lparr>timeout := timeout s + rexmtval\<rparr>
      in if maxtimeout \<le> timeout s1 then s1\<lparr>phase := Exited 1\<rparr> else resend s1)"

fun send_step :: "cfg \<Rightarrow> event \<Rightarrow> srv \<Rightarrow> srv" where
  "send_step c (Arrive p) s = s\<lparr>inq := inq s @ [p]\<rparr>"
| "send_step c (Recv ok) s =
     (case inq s of
        [] \<Rightarrow> s
      | p # q \<Rightarrow> if phase s = Waiting then handle_ack c ok p (s\<lparr>inq := q\<rparr>) else s)"
| "send_step c RecvFails s = (if phase s = Waiting then s\<lparr>phase := Aborted\<rparr> else s)"
| "send_step c (Alarm ok) s = (if phase s = Waiting then timer (send_data c ok) s else s)"
| "send_step c (RecvAlarm ok) s =
     (case inq s of
        [] \<Rightarrow> s
      | p # q \<Rightarrow>
          if phase s = Waiting
          then timer (send_data c ok) (s\<lparr>inq := q, ackbuf := recv_into (ackbuf s) p\<rparr>)
          else s)"

definition send_run :: "cfg \<Rightarrow> event list \<Rightarrow> srv \<Rightarrow> srv" where
  "send_run c es s = fold (send_step c) es s"

subsection \<open>recvfile\<close>

text \<open>From the label \<^verbatim>\<open>send_ack\<close> to the next \<^verbatim>\<open>recv\<close>.\<close>

definition send_ack :: "cfg \<Rightarrow> bool \<Rightarrow> srv \<Rightarrow> srv" where
  "send_ack c ok s =
     (if \<not> ok then s\<lparr>phase := Aborted\<rparr>
      else let s1 = transmit ok (take 4 (ackbuf s)) s
           in s1\<lparr>fs := flush_block (convert c) (fs s1), phase := Waiting\<rparr>)"

definition next_ack :: "cfg \<Rightarrow> bool \<Rightarrow> srv \<Rightarrow> srv" where
  "next_ack c ok s =
     send_ack c ok
       (s\<lparr>timeout := 0, ackbuf := put_header (host c) ACK (block s) (ackbuf s), block := block s + 1\<rparr>)"

definition recvfile :: "cfg \<Rightarrow> bool \<Rightarrow> srv \<Rightarrow> srv" where
  "recvfile c ok s =
     (let (i, b) = w_init (snd (fs s))
      in next_ack c ok (s\<lparr>fs := (fst (fs s), b), dp := i, block := 0\<rparr>))"

text \<open>Behind the loop: the last buffer is flushed and the final acknowledgement sent.\<close>

definition finish :: "cfg \<Rightarrow> bool \<Rightarrow> srv \<Rightarrow> srv" where
  "finish c ok s =
     (let s1 = s\<lparr>fs := flush_block (convert c) (fs s)\<rparr>;
          s2 = s1\<lparr>ackbuf := put_header (host c) ACK (block s1) (ackbuf s1)\<rparr>
      in (transmit ok (take 4 (ackbuf s2)) s2)\<lparr>phase := Dallying\<rparr>)"

text \<open>The block the machine waits for has come: it is handed to \<^verbatim>\<open>writeit\<close>.\<close>

definition accept_block :: "cfg \<Rightarrow> bool \<Rightarrow> int \<Rightarrow> srv \<Rightarrow> srv" where
  "accept_block c ok n s =
     (let (count, i, fs') = writeit (convert c) (n - 4) (fs s);
          s1 = s\<lparr>fs := fs', dp := i, sz := count\<rparr>
      in if count \<noteq> n - 4
         then (nak c ok (if count < 0 then errno (snd fs') + 100 else ENOSPACE) s1)\<lparr>phase := Aborted\<rparr>
         else if count = int SEGSIZE then next_ack c ok s1
         else finish c ok s1)"

definition handle_data :: "cfg \<Rightarrow> bool \<Rightarrow> datagram \<Rightarrow> srv \<Rightarrow> srv" where
  "handle_data c ok p s =
     (let b = ntoh_header (host c) (recv_into (dp_buf s) p);
          s1 = set_dp_buf b s
      in if th_opcode (host c) b = ERROR then s1\<lparr>phase := Aborted\<rparr>
         else if th_opcode (host c) b = DATA
         then if th_block (host c) b = block s1 then accept_block c ok (recv_len p) s1
              else let s2 = s1\<lparr>inq := snd (synchnet (inq s1))\<rparr>
                   in if uint (th_block (host c) b) = uint (block s2) - 1 then send_ack c ok s2
                      else s2
         else s1)"

text \<open>
  The last \<^verbatim>\<open>recv\<close> reads into \<^verbatim>\<open>buf\<close>, but the test that decides on sending the final
  acknowledgement again looks at the packet \<^verbatim>\<open>dp\<close> points to.
\<close>

definition dally :: "cfg \<Rightarrow> bool \<Rightarrow> datagram \<Rightarrow> srv \<Rightarrow> srv" where
  "dally c ok p s =
     (let s1 = s\<lparr>rbuf := recv_into (rbuf s) p\<rparr>
      in (if 4 \<le> recv_len p \<and> th_opcode (host c) (dp_buf s1) = DATA \<and>
             block s1 = th_block (host c) (dp_buf s1)
          then transmit ok (take 4 (ackbuf s1)) s1 else s1)\<lparr>phase := Finished\<rparr>)"

fun recv_step :: "cfg \<Rightarrow> event \<Rightarrow> srv \<Rightarrow> srv" where
  "recv_step c (Arrive p) s = s\<lparr>inq := inq s @ [p]\<rparr>"
| "recv_step c (Recv ok) s =
     (case inq s of
        [] \<Rightarrow> s
      | p # q \<Rightarrow>
          if phase s = Waiting then handle_data c ok p (s\<lparr>inq := q\<rparr>)
          else if phase s = Dallying then dally c ok p (s\<lparr>inq := q\<rparr>)
          else s)"
| "recv_step c RecvFails s =
     (if phase s = Waiting then s\<lparr>phase := Aborted\<rparr>
      else if phase s = Dallying then s\<lparr>phase := Finished\<rparr>
      else s)"
| "recv_step c (Alarm ok) s =
     (if phase s = Waiting then timer (send_ack c ok) s
      else if phase s = Dallying then s\<lparr>phase := Exited 0\<rparr>
      else s)"
| "recv_step c (RecvAlarm ok) s =
     (case inq s of
        [] \<Rightarrow> s
      | p # q \<Rightarrow>
          if phase s = Waiting
          then timer (send_ack c ok) (set_dp_buf (recv_into (dp_buf s) p) (s\<lparr>inq := q\<rparr>))
          else if phase s = Dallying then s\<lparr>inq := q, rbuf := recv_into (rbuf s) p, phase := Exited 0\<rparr>
          else s)"

definition recv_run :: "cfg \<Rightarrow> event list \<Rightarrow> srv \<Rightarrow> srv" where
  "recv_run c es s = fold (recv_step c) es s"

end
