(* ===== verification/Tftp_Client.thy ===== *)
theory Tftp_Client
  imports Tftpd_Transfer
begin

text \<open>
  The transfer machines of the client \<^verbatim>\<open>tftp/tftp.c\<close>: \<^verbatim>\<open>makerequest\<close>, \<^verbatim>\<open>sendfile\<close>,
  \<^verbatim>\<open>recvfile\<close>, \<^verbatim>\<open>timer\<close> and \<^verbatim>\<open>nak\<close>, as machines that react to events like the daemon's.
  They differ from the daemon's in the first packet, which is the request, in the socket,
  which is not connected: every datagram comes with its sender, and the next packet goes
  to the sender of the last one (\<open>from\<close>); in \<^verbatim>\<open>recvfrom\<close>, which is called again when it
  fails or gets an empty datagram; and in the timer, which returns to the command loop.

  A call of \<^verbatim>\<open>sendto\<close> may be followed by two more of the same packet (odd blocks, in a
  build without \<^verbatim>\<open>NDEBUG\<close>), so an event carries three results.
\<close>

type_synonym verdict = "bool \<times> bool \<times> bool"

datatype cevent =
  CArrive sockaddr datagram | CRecv verdict | CRecvFails | CAlarm verdict | CRecvAlarm verdict

datatype cphase = CWaiting | CFinished | CAborted | CTimedOut | COverrun

record settings =
  crexmtval :: int
  cmaxtimeout :: int
  resend_odd :: bool

record client =
  cfs :: "cfile \<times> subs"
  cackbuf :: "byte list"
  cdp :: bool
  cblock :: u16
  csize :: int
  ctimeout :: int
  firsttrip :: bool
  amount :: "64 word"
  from_addr :: sockaddr
  cinq :: "(sockaddr \<times> datagram) list"
  cout :: "(sockaddr \<times> datagram) list"
  cphase :: cphase

definition cdp_buf :: "client \<Rightarrow> byte list" where
  "cdp_buf s = bbuf (bfs (snd (cfs s)) (cdp s))"

definition set_cdp_buf :: "byte list \<Rightarrow> client \<Rightarrow> client" where
  "set_cdp_buf b s = s\<lparr>cfs := (fst (cfs s), set_bbuf (cdp s) b (snd (cfs s)))\<rparr>"

definition csendto :: "bool \<Rightarrow> datagram \<Rightarrow> client \<Rightarrow> client" where
  "csendto ok p s = (if ok then s\<lparr>cout := cout s @ [(from_addr s, p)]\<rparr> else s)"

definition csynch :: "client \<Rightarrow> client" where
  "csynch s = s\<lparr>cinq := drop (fst (synchnet (map snd (cinq s)))) (cinq s)\<rparr>"

subsection \<open>Requests and error packets\<close>

text \<open>
  \<^verbatim>\<open>makerequest\<close> writes the request into a packet buffer without asking whether it fits;
  \<open>None\<close> is a write behind the end of the buffer.
\<close>

definition makerequest ::
  "endian \<Rightarrow> u16 \<Rightarrow> byte list \<Rightarrow> byte list \<Rightarrow> byte list \<Rightarrow> (int \<times> byte list) option" where
  "makerequest e op name mode tp =
     (let t1 = set_th_opcode e (htons e op) tp;
          t2 = overlay t1 2 name;
          cp = 2 + length name;
          t3 = t2[cp := 0];
          t4 = overlay t3 (cp + 1) mode;
          cp' = cp + 1 + length mode;
          t5 = t4[cp' := 0]
      in if cp' < length tp then Some (int (cp' + 1), t5) else None)"

definition cnak :: "cfg \<Rightarrow> bool \<Rightarrow> int \<Rightarrow> client \<Rightarrow> client" where
  "cnak c ok err s =
     (let (code, msg) = nak_code_msg errmsgs (strerror c) err;
          b1 = put_header (host c) ERROR code (cackbuf s);
          b2 = overlay b1 4 (strncpy_pad SEGSIZE msg)
      in csendto ok (take (length msg + 4) b2) (s\<lparr>cackbuf := b2\<rparr>))"

definition ctimer :: "settings \<Rightarrow> (client \<Rightarrow> client) \<Rightarrow> client \<Rightarrow> client" where
  "ctimer t resend s =
     (let s1 = s\<lparr>ctimeout := ctimeout s + crexmtval t\<rparr>
      in if cmaxtimeout t \<le> ctimeout s1 then s1\<lparr>cphase := CTimedOut\<rparr> else resend s1)"

subsection \<open>sendfile\<close>

definition csend_data :: "cfg \<Rightarrow> settings \<Rightarrow> verdict \<Rightarrow> client \<Rightarrow> client" where
  "csend_data c t v s =
     (let (ok, ok2, ok3) = v; p = take (nat (csize s + 4)) (cdp_buf s)
      in if \<not> ok then s\<lparr>cphase := CAborted\<rparr>
         else let s1 = csendto ok p s;
                  s2 = (if resend_odd t \<and> unat (cblock s1) mod 2 = 1
                        then csendto ok3 p (csendto ok2 p s1) else s1)
              in s2\<lparr>cfs := read_ahead (convert c) (cfs s2), cphase := CWaiting\<rparr>)"

definition cnext_data :: "cfg \<Rightarrow> settings \<Rightarrow> verdict \<Rightarrow> client \<Rightarrow> client" where
  "cnext_data c t v s =
     (let (n, i, fs') = readit (convert c) (cfs s);
          s1 = s\<lparr>cfs := fs', cdp := i, csize := n\<rparr>
      in if n < 0 then (cnak c (fst v) (errno (snd fs') + 100) s1)\<lparr>cphase := CAborted\<rparr>
         else csend_data c t v
                ((set_cdp_buf (put_header (host c) DATA (cblock s1) (cdp_buf s1)) s1)\<lparr>ctimeout := 0\<rparr>))"

definition csendfile ::
  "cfg \<Rightarrow> settings \<Rightarrow> byte list \<Rightarrow> byte list \<Rightarrow> verdict \<Rightarrow> client \<Rightarrow> client" where
  "csendfile c t name mode v s =
     (let (i, b) = r_init (snd (cfs s));
          s1 = s\<lparr>cfs := (fst (cfs s), b), cdp := i, cblock := 0, amount := 0, firsttrip := True\<rparr>
      in case makerequest (host c) WRQ name mode (cdp_buf s1) of
           None \<Rightarrow> s1\<lparr>cphase := COverrun\<rparr>
         | Some (n, b') \<Rightarrow> csend_data c t v ((set_cdp_buf b' s1)\<lparr>csize := n - 4, ctimeout := 0\<rparr>))"

definition chandle_ack :: "cfg \<Rightarrow> settings \<Rightarrow> verdict \<Rightarrow> datagram \<Rightarrow> client \<Rightarrow> client" where
  "chandle_ack c t v p s =
     (let a = ntoh_header (host c) (recv_into (cackbuf s) p);
          s1 = s\<lparr>cackbuf := a\<rparr>
      in if th_opcode (host c) a = ERROR then s1\<lparr>cphase := CAborted\<rparr>
         else if th_opcode (host c) a = ACK
         then if th_block (host c) a = cblock s1
              then if firsttrip s1
                   then cnext_data c t v (s1\<lparr>firsttrip := False, cblock := cblock s1 + 1\<rparr>)
                   else let s2 = s1\<lparr>amount := amount s1 + of_int (csize s1)\<rparr>
                        in if csize s2 \<noteq> int SEGSIZE then s2\<lparr>cphase := CFinished\<rparr>
                           else cnext_data c t v (s2\<lparr>cblock := cblock s2 + 1\<rparr>)
              else let s2 = csynch s1
                   in if uint (th_block (host c) a) = uint (cblock s2) - 1 then csend_data c t v s2
                      else s2
         else s1)"

text \<open>
  With \<^verbatim>\<open>rexmtval\<close> 0 the call \<^verbatim>\<open>alarm(rexmtval)\<close> sets no alarm, and none goes off.
\<close>

fun csend_step :: "cfg \<Rightarrow> settings \<Rightarrow> cevent \<Rightarrow> client \<Rightarrow> client" where
  "csend_step c t (CArrive a p) s = s\<lparr>cinq := cinq s @ [(a, p)]\<rparr>"
| "csend_step c t (CRecv v) s =
     (case cinq s of
        [] \<Rightarrow> s
      | (a, p) # q \<Rightarrow>
          if cphase s = CWaiting
          then (let s1 = s\<lparr>cinq := q, from_addr := a\<rparr>
                in if p = [] then s1 else chandle_ack c t v p s1)
          else s)"
| "csend_step c t CRecvFails s = s"
| "csend_step c t (CAlarm v) s =
     (if cphase s = CWaiting \<and> crexmtval t \<noteq> 0 then ctimer t (csend_data c t v) s else s)"
| "csend_step c t (CRecvAlarm v) s =
     (case cinq s of
        [] \<Rightarrow> s
      | (a, p) # q \<Rightarrow>
          if cphase s = CWaiting \<and> crexmtval t \<noteq> 0
          then ctimer t (csend_data c t v)
                 (s\<lparr>cinq := q, from_addr := a, cackbuf := recv_into (cackbuf s) p\<rparr>)
          else s)"

definition csend_run :: "cfg \<Rightarrow> settings \<Rightarrow> cevent list \<Rightarrow> client \<Rightarrow> client" where
  "csend_run c t es s = fold (csend_step c t) es s"

subsection \<open>recvfile\<close>

text \<open>The label \<^verbatim>\<open>abort\<close> flushes the last buffer; so does the normal end.\<close>

definition cflush :: "cfg \<Rightarrow> client \<Rightarrow> client" where
  "cflush c s = s\<lparr>cfs := snd (write_behind (convert c) (cfs s))\<rparr>"

definition csend_ack :: "cfg \<Rightarrow> bool \<Rightarrow> client \<Rightarrow> client" where
  "csend_ack c ok s =
     (if \<not> ok then (cflush c s)\<lparr>cphase := CAborted\<rparr>
      else (cflush c (csendto ok (take (nat (csize s)) (cackbuf s)) s))\<lparr>cphase := CWaiting\<rparr>)"

definition cnext_ack :: "cfg \<Rightarrow> bool \<Rightarrow> client \<Rightarrow> client" where
  "cnext_ack c ok s =
     csend_ack c ok
       (s\<lparr>cackbuf := put_header (host c) ACK (cblock s) (cackbuf s), csize := 4,
          cblock := cblock s + 1, ctimeout := 0\<rparr>)"

definition crecvfile ::
  "cfg \<Rightarrow> byte list \<Rightarrow> byte list \<Rightarrow> bool \<Rightarrow> client \<Rightarrow> client" where
  "crecvfile c name mode ok s =
     (let (i, b) = w_init (snd (cfs s));
          s1 = s\<lparr>cfs := (fst (cfs s), b), cdp := i, cblock := 1, amount := 0, firsttrip := False\<rparr>
      in case makerequest (host c) RRQ name mode (cackbuf s1) of
           None \<Rightarrow> s1\<lparr>cphase := COverrun\<rparr>
         | Some (n, b') \<Rightarrow> csend_ack c ok (s1\<lparr>cackbuf := b', csize := n, ctimeout := 0\<rparr>))"

definition cfinish :: "cfg \<Rightarrow> bool \<Rightarrow> client \<Rightarrow> client" where
  "cfinish c ok s =
     (let s1 = s\<lparr>cackbuf := put_header (host c) ACK (cblock s) (cackbuf s)\<rparr>
      in (cflush c (csendto ok (take 4 (cackbuf s1)) s1))\<lparr>cphase := CFinished\<rparr>)"

text \<open>After an error packet the client leaves the loop and acknowledges as usual.\<close>

definition caccept_block :: "cfg \<Rightarrow> verdict \<Rightarrow> int \<Rightarrow> client \<Rightarrow> client" where
  "caccept_block c v n s =
     (let (count, i, fs') = writeit (convert c) (n - 4) (cfs s);
          s1 = s\<lparr>cfs := fs', cdp := i, csize := count\<rparr>
      in if count < 0 then cfinish c (fst (snd v)) (cnak c (fst v) (errno (snd fs') + 100) s1)
         else let s2 = s1\<lparr>amount := amount s1 + of_int count\<rparr>
              in if count = int SEGSIZE then cnext_ack c (fst v) s2 else cfinish c (fst v) s2)"

definition chandle_data :: "cfg \<Rightarrow> verdict \<Rightarrow> datagram \<Rightarrow> client \<Rightarrow> client" where
  "chandle_data c v p s =
     (let b = ntoh_header (host c) (recv_into (cdp_buf s) p);
          s1 = set_cdp_buf b s
      in if th_opcode (host c) b = ERROR then (cflush c s1)\<lparr>cphase := CAborted\<rparr>
         else if th_opcode (host c) b = DATA
         then if th_block (host c) b = cblock s1 then caccept_block c v (recv_len p) s1
              else let s2 = csynch s1
                   in if uint (th_block (host c) b) = uint (cblock s2) - 1
                      then csend_ack c (fst v) s2 else s2
         else s1)"

fun crecv_step :: "cfg \<Rightarrow> settings \<Rightarrow> cevent \<Rightarrow> client \<Rightarrow> client" where
  "crecv_step c t (CArrive a p) s = s\<lparr>cinq := cinq s @ [(a, p)]\<rparr>"
| "crecv_step c t (CRecv v) s =
     (case cinq s of
        [] \<Rightarrow> s
      | (a, p) # q \<Rightarrow>
          if cphase s = CWaiting
          then (let s1 = s\<lparr>cinq := q, from_addr := a\<rparr>
                in if p = [] then s1 else chandle_data c v p s1)
          else s)"
| "crecv_step c t CRecvFails s = s"
| "crecv_step c t (CAlarm v) s =
     (if cphase s = CWaiting \<and> crexmtval t \<noteq> 0 then ctimer t (csend_ack c (fst v)) s else s)"
| "crecv_step c t (CRecvAlarm v) s =
     (case cinq s of
        [] \<Rightarrow> s
      | (a, p) # q \<Rightarrow>
          if cphase s = CWaiting \<and> crexmtval t \<noteq> 0
          then ctimer t (csend_ack c (fst v))
                 (set_cdp_buf (recv_into (cdp_buf s) p) (s\<lparr>cinq := q, from_addr := a\<rparr>))
          else s)"

definition crecv_run :: "cfg \<Rightarrow> settings \<Rightarrow> cevent list \<Rightarrow> client \<Rightarrow> client" where
  "crecv_run c t es s = fold (crecv_step c t) es s"


subsection \<open>A call\<close>

text \<open>
  The state a transfer starts from: \<^verbatim>\<open>from\<close> is the address of the server, the static
  buffers hold what the last transfer left, the new socket has nothing queued.
\<close>

definition client_start :: "sockaddr \<Rightarrow> subs \<Rightarrow> byte list \<Rightarrow> cfile \<Rightarrow> client" where
  "client_start a sb ab f =
     \<lparr>cfs = (f, sb), cackbuf = ab, cdp = False, cblock = 0, csize = 0, ctimeout = 0, firsttrip = True,
      amount = 0, from_addr = a, cinq = [], cout = [], cphase = CWaiting\<rparr>"

definition mode_cfg :: "cfg \<Rightarrow> byte list \<Rightarrow> cfg" where
  "mode_cfg c mode = c\<lparr>convert := (mode = cbytes ''netascii'')\<rparr>"

text \<open>Arguments for examples: a server's address, the two build options, a mode.\<close>

definition demo_addr :: sockaddr where
  "demo_addr = \<lparr>family = 2, address = [192, 0, 2, 1], port = 69\<rparr>"

definition demo_settings :: settings where
  "demo_settings = \<lparr>crexmtval = 1, cmaxtimeout = 5, resend_odd = False\<rparr>"

definition demo_ccfg :: cfg where
  "demo_ccfg = \<lparr>host = Little, convert = False, strerror = \<lambda>_. cbytes ''error''\<rparr>"

subsection \<open>The request packet\<close>

lemma overlay_at: "overlay (xs @ r) (length xs) s = xs @ s @ drop (length s) r"
  by (simp add: overlay_def)

lemma update_at: "r \<noteq> [] \<Longrightarrow> (xs @ r)[length xs := v] = xs @ v # drop 1 r"
  by (cases r) (simp_all add: list_update_append)

lemma makerequest_pkt:
  assumes "length (request_pkt op name mode) \<le> length tp"
  shows "makerequest e op name mode tp =
    Some (int (length (request_pkt op name mode)),
      request_pkt op name mode @ drop (length (request_pkt op name mode)) tp)"
proof -
  let ?o = "[hi_byte op, lo_byte op]" and ?n = "length name" and ?m = "length mode"
  from assms have len: "?n + ?m + 4 \<le> length tp" by (simp add: wire_simps)
  have t1: "set_th_opcode e (htons e op) tp = ?o @ drop 2 tp"
    using len by (cases tp; cases "tl tp")
      (auto simp: set_th_opcode_def store_short_def htons_def split: endian.split)
  have t2: "overlay (?o @ drop 2 tp) 2 name = (?o @ name) @ drop (?n + 2) tp"
    using overlay_at [of ?o "drop 2 tp" name] by (simp add: add.commute numeral_2_eq_2)
  have t3: "((?o @ name) @ drop (?n + 2) tp)[2 + ?n := 0] = (?o @ name @ [0]) @ drop (?n + 3) tp"
    using update_at [of "drop (?n + 2) tp" "?o @ name" 0] len by (simp add: numeral_3_eq_3)
  have t4: "overlay ((?o @ name @ [0]) @ drop (?n + 3) tp) (2 + ?n + 1) mode =
      (?o @ name @ 0 # mode) @ drop (?m + ?n + 3) tp"
    using overlay_at [of "?o @ name @ [0]" "drop (?n + 3) tp" mode] by (simp add: add.assoc)
  have t5: "((?o @ name @ 0 # mode) @ drop (?m + ?n + 3) tp)[2 + ?n + 1 + ?m := 0] =
      (?o @ name @ 0 # mode @ [0]) @ drop (?m + ?n + 4) tp"
    using update_at [of "drop (?m + ?n + 3) tp" "?o @ name @ 0 # mode" 0] len by (simp add: eval_nat_numeral add.commute)
  have "drop (?m + ?n + 4) tp = drop (length (request_pkt op name mode)) tp"
    by (simp add: wire_simps add.commute)
  moreover have "?o @ name @ 0 # mode @ [0] = request_pkt op name mode"
    by (simp add: request_pkt_def)
  moreover have "2 + ?n + 1 + ?m < length tp" "2 + ?n + 1 + ?m + 1 = length (request_pkt op name mode)"
    using len by (simp_all add: wire_simps)
  ultimately show ?thesis
    unfolding makerequest_def Let_def t1 t2 t3 t4 t5 by (simp only: if_True)
qed

lemma makerequest_overrun:
  "length tp < length (request_pkt op name mode) \<Longrightarrow> makerequest e op name mode tp = None"
  by (simp add: makerequest_def Let_def wire_simps)

end
