(* ===== verification/Tftp_Text.thy ===== *)
theory Tftp_Text
  imports Tftp_Prelude "HOL-Library.Sublist"
begin

text \<open>
  What the programs take from the C library for text: the character classes of
  \<^verbatim>\<open>ctype.h\<close> in the C locale, decimal numbers, and path names with their components.
\<close>

type_synonym str = "byte list"

subsection \<open>Characters\<close>

definition c_isspace :: "byte \<Rightarrow> bool" where
  "c_isspace c \<longleftrightarrow> c = 32 \<or> 9 \<le> c \<and> c \<le> 13"

definition c_isdigit :: "byte \<Rightarrow> bool" where "c_isdigit c \<longleftrightarrow> 48 \<le> c \<and> c \<le> 57"

definition c_isupper :: "byte \<Rightarrow> bool" where "c_isupper c \<longleftrightarrow> 65 \<le> c \<and> c \<le> 90"
definition c_tolower :: "byte \<Rightarrow> byte" where "c_tolower c = (if c_isupper c then c + 32 else c)"

lemma c_tolower_nonzero: "c \<noteq> 0 \<Longrightarrow> c_tolower c \<noteq> 0"
  by (auto simp: c_tolower_def c_isupper_def eq_neg_iff_add_eq_0 [symmetric])

subsection \<open>Numbers\<close>

text \<open>The decimal digits of a number, as \<^verbatim>\<open>%d\<close> and \<^verbatim>\<open>std::to_string\<close> print them.\<close>

fun decimal :: "nat \<Rightarrow> str" where
  "decimal n = (if n < 10 then [48 + of_nat n] else decimal (n div 10) @ [48 + of_nat (n mod 10)])"

declare decimal.simps [simp del]

lemma digit_value:
  assumes "d < 10"
  shows "c_isdigit (48 + of_nat d)" "uint (48 + of_nat d :: byte) - 48 = int d"
proof -
  have d: "d = 0 \<or> d = 1 \<or> d = 2 \<or> d = 3 \<or> d = 4 \<or> d = 5 \<or> d = 6 \<or> d = 7 \<or> d = 8 \<or> d = 9"
    using assms by presburger
  then show "c_isdigit (48 + of_nat d)" by (auto simp: c_isdigit_def)
  from d show "uint (48 + of_nat d :: byte) - 48 = int d" by auto
qed

lemma decimal_digits: "\<forall>c\<in>set (decimal n). c_isdigit c"
proof (induction n rule: decimal.induct)
  case (1 n)
  then show ?case by (subst decimal.simps) (auto simp: digit_value(1))
qed

lemma decimal_value: "fold (\<lambda>c n. n * 10 + (uint c - 48)) (decimal n) 0 = int n"
proof (induction n rule: decimal.induct)
  case (1 n)
  show ?case
  proof (cases "n < 10")
    case True
    then show ?thesis by (subst decimal.simps) (simp add: digit_value(2))
  next
    case False
    have "int (n div 10) * 10 + int (n mod 10) = int n" by (metis div_mult_mod_eq of_nat_add of_nat_mult of_nat_numeral)
    with 1 [OF False] False show ?thesis
      by (subst decimal.simps) (simp add: digit_value(2) [of "n mod 10"])
  qed
qed

lemma decimal_nonempty: "decimal n \<noteq> []"
  by (subst decimal.simps) simp

text \<open>
  \<^verbatim>\<open>strtol(s, NULL, 10)\<close> on a 64-bit machine (0 without digits, saturating), stored in an
  \<^verbatim>\<open>int\<close> of 32 bits.
\<close>

definition c_strtol :: "str \<Rightarrow> int" where
  "c_strtol s =
     (let r = dropWhile c_isspace s;
          neg = (take 1 r = [45]);
          r1 = (if take 1 r = [45] \<or> take 1 r = [43] then drop 1 r else r);
          m = fold (\<lambda>c n. n * 10 + (uint c - 48)) (takeWhile c_isdigit r1) 0
      in if neg then max (- (2 ^ 63)) (- m) else min (2 ^ 63 - 1) m)"

definition to_int :: "int \<Rightarrow> int" where
  "to_int n = sint (of_int n :: 32 word)"

lemma strtol_decimal: "int n < 2 ^ 63 \<Longrightarrow> c_strtol (decimal n) = int n"
proof -
  assume n: "int n < 2 ^ 63"
  have d: "c_isdigit (hd (decimal n))" using decimal_digits [of n] decimal_nonempty [of n] by (metis hd_in_set)
  then have h: "\<not> c_isspace (hd (decimal n))" "hd (decimal n) \<noteq> 45" "hd (decimal n) \<noteq> 43"
    by (auto simp: c_isdigit_def c_isspace_def word_le_def)
  have "dropWhile c_isspace (decimal n) = decimal n"
    using h(1) decimal_nonempty [of n] by (cases "decimal n") auto
  moreover have "take 1 (decimal n) \<noteq> [45]" "take 1 (decimal n) \<noteq> [43]"
    using h decimal_nonempty [of n] by (cases "decimal n"; simp)+
  moreover have tw: "takeWhile c_isdigit (decimal n) = decimal n"
    using decimal_digits [of n] by (simp add: takeWhile_eq_all_conv)
  ultimately show ?thesis using n decimal_value [of n] by (simp add: c_strtol_def tw)
qed

lemma to_int_wrap:
  assumes "0 \<le> n" "n < 2 ^ 32"
  shows "to_int n = (if n < 2 ^ 31 then n else n - 2 ^ 32)"
proof -
  have "n div 2147483648 = (if n < 2147483648 then 0 else 1)"
    using assms int_div_pos_eq [of n 2147483648 1 "n - 2147483648"] by simp
  then have "bit n 31 = (2147483648 \<le> n)" by (auto simp: bit_iff_odd)
  then show ?thesis
    using assms by (simp add: to_int_def take_bit_int_eq_self sint_sbintrunc' signed_take_bit_eq_take_bit_minus)
qed

subsection \<open>Paths\<close>

definition SLASH :: byte where "SLASH = 47"
definition DOT :: byte where "DOT = 46"

type_synonym path = "byte list"

lemma path_char_simps [simp]: "SLASH \<noteq> 0" "DOT \<noteq> 0" "SLASH \<noteq> DOT" "DOT \<noteq> SLASH" "0 \<noteq> SLASH" "0 \<noteq> DOT"
  by (simp_all add: SLASH_def DOT_def)

text \<open>The names both daemons refuse.\<close>

definition climbs :: "path \<Rightarrow> bool" where
  "climbs name \<longleftrightarrow> prefix [DOT, DOT, SLASH] name \<or> sublist [SLASH, DOT, DOT, SLASH] name"

text \<open>
  The components of a path, and the directory reached from a base (a list of directory
  names from the root down) by following components one by one; the base's own links are
  not followed.
\<close>

fun comps :: "path \<Rightarrow> path list" where
  "comps [] = [[]]"
| "comps (c # cs) =
     (if c = SLASH then [] # comps cs
      else (case comps cs of [] \<Rightarrow> [[c]] | x # xs \<Rightarrow> (c # x) # xs))"

definition walk :: "path list \<Rightarrow> path list \<Rightarrow> path list" where
  "walk base cs =
     fold (\<lambda>c st. if c = [] \<or> c = [DOT] then st else if c = [DOT, DOT] then butlast st else st @ [c]) cs base"

lemma comps_nonempty [simp]: "comps s \<noteq> []"
  by (cases s) (auto split: list.split)

lemma comps_first: "comps s = x # y # ys \<Longrightarrow> prefix (x @ [SLASH]) s"
  by (induction s arbitrary: x y ys) (auto split: if_splits list.splits)

lemma comps_later: "x \<in> set (butlast (tl (comps s))) \<Longrightarrow> sublist (SLASH # x @ [SLASH]) s"
proof (induction s)
  case (Cons c s)
  show ?case
  proof (cases "c = SLASH")
    case True
    with Cons.prems have x: "x \<in> set (butlast (comps s))" by simp
    obtain y ys where y: "comps s = y # ys" by (cases "comps s") auto
    with x have "x = y \<and> ys \<noteq> [] \<or> x \<in> set (butlast ys)" by (auto split: if_splits)
    moreover have "sublist (SLASH # x @ [SLASH]) (c # s)" if "x = y" "ys \<noteq> []"
      using that True y comps_first [of s x] by (cases ys) (auto simp: sublist_Cons_right)
    moreover have "sublist (SLASH # x @ [SLASH]) (c # s)" if "x \<in> set (butlast ys)"
      using that Cons.IH y by (auto simp: sublist_Cons_right)
    ultimately show ?thesis by blast
  next
    case False
    with Cons.prems have "x \<in> set (butlast (tl (comps s)))" by (simp split: list.splits)
    with Cons.IH show ?thesis by (auto simp: sublist_Cons_right)
  qed
qed simp

lemma not_climbs_comps:
  assumes "\<not> climbs s"
  shows "[DOT, DOT] \<notin> set (butlast (comps s))"
proof
  assume m: "[DOT, DOT] \<in> set (butlast (comps s))"
  obtain y ys where y: "comps s = y # ys" by (cases "comps s") auto
  with m have "y = [DOT, DOT] \<and> ys \<noteq> [] \<or> [DOT, DOT] \<in> set (butlast ys)" by (auto split: if_splits)
  then show False
    using assms comps_first [of s] comps_later [of "[DOT, DOT]" s] y
    by (cases ys) (auto simp: climbs_def)
qed

lemma walk_stays: "[DOT, DOT] \<notin> set cs \<Longrightarrow> prefix base (walk base cs)"
proof (induction cs rule: rev_induct)
  case (snoc c cs)
  then show ?case by (auto simp: walk_def intro: prefix_prefix)
qed (simp add: walk_def)

lemma walk_append: "walk base (xs @ ys) = walk (walk base xs) ys"
  by (simp add: walk_def)

lemma comps_append: "comps (xs @ ys) = butlast (comps xs) @ (last (comps xs) @ hd (comps ys)) # tl (comps ys)"
proof (induction xs)
  case (Cons x xs)
  obtain u us where u: "comps xs = u # us" by (cases "comps xs") auto
  with Cons show ?case by (cases us) auto
qed simp

text \<open>The way to a file: its path without a last component "..", which would name a directory.\<close>

definition way :: "path \<Rightarrow> path list" where
  "way name = (if last (comps name) = [DOT, DOT] then butlast (comps name) else comps name)"

lemma way_split: "comps s = xs @ ys \<Longrightarrow> ys \<noteq> [] \<or> last xs \<noteq> [DOT, DOT] \<Longrightarrow> \<exists>zs. way s = xs @ zs"
  by (cases "ys = []") (auto simp: way_def butlast_append)

lemma not_climbs_way:
  assumes "\<not> climbs name"
  shows "[DOT, DOT] \<notin> set (way name)"
proof -
  have "set (comps name) = insert (last (comps name)) (set (butlast (comps name)))"
    by (metis append_butlast_last_id comps_nonempty list.simps(15) rotate1.simps(2) set_rotate1)
  with not_climbs_comps [OF assms] show ?thesis by (auto simp: way_def)
qed

text \<open>
  A name that starts with a path d leads, if it does not climb, to that path, or to one next to it whose name goes on where
  that of d ends.
\<close>

lemma way_prefix:
  assumes "\<not> climbs (d @ rest)"
  defines "c \<equiv> last (comps d)" and "x \<equiv> hd (comps rest)"
  shows "prefix (walk [] (butlast (comps d) @ [c @ x])) (walk [] (way (d @ rest)))"
proof -
  have cs: "comps (d @ rest) = (butlast (comps d) @ [c @ x]) @ tl (comps rest)" by (simp add: comps_append c_def x_def)
  have w: "[DOT, DOT] \<notin> set (way (d @ rest))" by (rule not_climbs_way [OF assms(1)])
  show ?thesis
  proof (cases "tl (comps rest) = [] \<and> c @ x = [DOT, DOT]")
    case True
    with cs have "way (d @ rest) = butlast (comps d)" by (simp add: way_def)
    with True show ?thesis by (simp add: walk_append) (simp add: walk_def prefixeq_butlast)
  next
    case False
    then obtain ys where ys: "way (d @ rest) = (butlast (comps d) @ [c @ x]) @ ys"
      using way_split [OF cs] by auto
    with w have "[DOT, DOT] \<notin> set ys" by simp
    from walk_stays [OF this] show ?thesis unfolding ys by (subst (2) walk_append)
  qed
qed

text \<open>It leads into d itself if the rest goes on with a slash, or d ends with one.\<close>

lemma way_inside:
  assumes "\<not> climbs (d @ rest)" "last (comps d) = [] \<or> hd (comps rest) = []"
  shows "prefix (walk [] (comps d)) (walk [] (way (d @ rest)))"
proof -
  have w: "[DOT, DOT] \<notin> set (way (d @ rest))" by (rule not_climbs_way [OF assms(1)])
  have d: "comps d = butlast (comps d) @ [last (comps d)]" by simp
  have stays: "prefix (walk [] xs) (walk [] (way (d @ rest)))" if "way (d @ rest) = xs @ ys" for xs ys
    using that w walk_stays [of ys "walk [] xs"] by (simp add: walk_append)
  show ?thesis
  proof (cases "hd (comps rest) = []")
    case True
    then have cs: "comps (d @ rest) = comps d @ tl (comps rest)" by (simp add: comps_append)
    show ?thesis
    proof (cases "tl (comps rest) = [] \<and> last (comps d) = [DOT, DOT]")
      case True
      with cs have "way (d @ rest) = butlast (comps d)" by (simp add: way_def)
      moreover have "walk [] (comps d) = butlast (walk [] (butlast (comps d)))"
        using True by (subst d, subst walk_append) (simp add: walk_def)
      ultimately show ?thesis by (simp add: prefixeq_butlast)
    next
      case False
      with way_split [OF cs] stays show ?thesis by auto
    qed
  next
    case False
    with assms(2) have "comps (d @ rest) = butlast (comps d) @ comps rest"
      by (cases "comps rest") (simp_all add: comps_append)
    from way_split [OF this] stays have "prefix (walk [] (butlast (comps d))) (walk [] (way (d @ rest)))" by auto
    moreover have "walk [] (comps d) = walk [] (butlast (comps d))"
      using False assms(2) by (subst d, subst walk_append) (simp add: walk_def)
    ultimately show ?thesis by simp
  qed
qed

end
