(* ===== verification/Tftp_Command.thy ===== *)
theory Tftp_Command
  imports Tftp_Client Tftp_Text
begin

text \<open>
  The command interface of the client, \<^verbatim>\<open>tftp/main.c\<close>: the command loop, the words of a
  line, the command and mode tables, and the commands.  The static variables are the
  record \<open>shell\<close>; what the user types is its field \<open>input\<close>.  A word is given with its
  offset in the array \<^verbatim>\<open>line\<close>, because \<^verbatim>\<open>put\<close> writes behind its last argument.  A
  command yields the transfers it makes, in order; printing is left out.

  \<open>Smash\<close> is a write outside \<^verbatim>\<open>margv\<close> or \<^verbatim>\<open>line\<close>.  The resolver, the opening of local
  files and the fate of a transfer are functions of the record \<open>world\<close>: a transfer that
  \<open>times_out\<close> jumps back to the command loop (\<^verbatim>\<open>timer\<close> in \<^verbatim>\<open>tftp.c\<close>), and the files that
  the command still had to transfer are skipped.  \<^verbatim>\<open>initsock\<close> and the interrupt key are left out.
\<close>

definition LINE_SIZE :: nat where "LINE_SIZE = 200"
definition MARGV_SIZE :: nat where "MARGV_SIZE = 20"
definition NI_MAXSERV :: nat where "NI_MAXSERV = 32"
definition NI_MAXHOST :: nat where "NI_MAXHOST = 1025"
definition COLON :: byte where "COLON = 58"
definition FSLASH :: byte where "FSLASH = 47"

type_synonym arg = "nat \<times> str"

record shell =
  connected :: nat
  service :: str
  tmode :: str
  hostname :: str
  s_inn :: sockaddr
  trexmt :: int
  tmaxtimeout :: int
  trace :: bool
  verbose :: bool
  input :: "byte list"

datatype transfer = Put str str str sockaddr | Get str str str sockaddr

datatype result = Go shell "transfer list" | Quit | Smash

record world =
  getaddrinfo :: "str \<Rightarrow> str \<Rightarrow> (sockaddr list \<times> str) option"
  can_open :: "str \<Rightarrow> bool"
  can_creat :: "str \<Rightarrow> bool"
  times_out :: "transfer \<Rightarrow> bool"

definition shell_start :: "byte list \<Rightarrow> shell" where
  "shell_start inp =
     \<lparr>connected = 0, service = cbytes ''tftp'', tmode = cbytes ''netascii'', hostname = [],
      s_inn = \<lparr>family = 0, address = [], port = 0\<rparr>, trexmt = 1, tmaxtimeout = 5, trace = False,
      verbose = False, input = inp\<rparr>"

subsection \<open>Lines and words\<close>

text \<open>\<^verbatim>\<open>fgets\<close> into an array of n bytes: at most n - 1 bytes, up to a newline; \<open>None\<close> at the end.\<close>

definition c_fgets :: "nat \<Rightarrow> byte list \<Rightarrow> (byte list \<times> byte list) option" where
  "c_fgets n inp =
     (if inp = [] then None
      else let full = takeWhile (\<lambda>c. c \<noteq> 10) inp @ (if 10 \<in> set inp then [10] else []);
               l = take (n - 1) full
           in Some (l, drop (length l) inp))"

function words_from :: "nat \<Rightarrow> str \<Rightarrow> arg list" where
  "words_from off s =
     (let sp = takeWhile c_isspace s; r = dropWhile c_isspace s
      in if r = [] then []
         else let w = takeWhile (\<lambda>c. \<not> c_isspace c) r; rest = dropWhile (\<lambda>c. \<not> c_isspace c) r
              in (off + length sp, w) #
                 (if rest = [] then [] else words_from (off + length sp + length w + 1) (tl rest)))"
  by auto
termination
proof (relation "measure (\<lambda>(off, s). length s)", goal_cases)
  case (2 off s sp r w rest)
  have "length rest \<le> length r" "length r \<le> length s"
    using 2 by (simp_all add: length_dropWhile_le)
  moreover have "length (tl rest) < length rest" using 2 by simp
  ultimately show ?case by simp
qed simp

declare words_from.simps [simp del]

definition makeargv :: "byte list \<Rightarrow> arg list option" where
  "makeargv line =
     (let ws = words_from 0 (cstr line) in if length ws < MARGV_SIZE then Some ws else None)"

text \<open>The prompt for missing arguments: the command's name is put in front of what is typed.\<close>

definition prompt :: "string \<Rightarrow> shell \<Rightarrow> arg list option \<times> shell" where
  "prompt pre s =
     (case c_fgets (LINE_SIZE - length pre) (input s) of
        None \<Rightarrow> (makeargv (cbytes pre), s)
      | Some (l, rest) \<Rightarrow> (makeargv (cbytes pre @ l), s\<lparr>input := rest\<rparr>))"

definition with_args ::
  "string \<Rightarrow> arg list \<Rightarrow> (arg list \<Rightarrow> shell \<Rightarrow> result) \<Rightarrow> shell \<Rightarrow> result" where
  "with_args pre args f s =
     (if length args < 2
      then (case prompt pre s of (None, _) \<Rightarrow> Smash | (Some args', s') \<Rightarrow> f args' s')
      else f args s)"

subsection \<open>The command table\<close>

datatype cmd =
  Connect | Mode | PutCmd | GetCmd | QuitCmd | Verbose | Trace | Status | Binary | Ascii | Rexmt | Timeout | Help

definition cmdtab :: "(str \<times> cmd) list" where
  "cmdtab =
    [(cbytes ''connect'', Connect), (cbytes ''mode'', Mode), (cbytes ''put'', PutCmd), (cbytes ''get'', GetCmd),
     (cbytes ''quit'', QuitCmd), (cbytes ''verbose'', Verbose), (cbytes ''trace'', Trace),
     (cbytes ''status'', Status), (cbytes ''binary'', Binary), (cbytes ''ascii'', Ascii),
     (cbytes ''rexmt'', Rexmt), (cbytes ''timeout'', Timeout), (cbytes ''?'', Help)]"

text \<open>The commands are those of the table.\<close>

instantiation cmd :: enum
begin

definition enum_cmd :: "cmd list" where "enum_cmd = map snd cmdtab"
definition enum_all_cmd :: "(cmd \<Rightarrow> bool) \<Rightarrow> bool" where "enum_all_cmd P \<longleftrightarrow> list_all P (map snd cmdtab)"
definition enum_ex_cmd :: "(cmd \<Rightarrow> bool) \<Rightarrow> bool" where "enum_ex_cmd P \<longleftrightarrow> list_ex P (map snd cmdtab)"

instance
proof
  have all: "c \<in> set (map snd cmdtab)" for c by (cases c) (simp_all add: cmdtab_def)
  then show "UNIV = set (enum_class.enum :: cmd list)" by (auto simp: enum_cmd_def simp del: set_map)
  show "distinct (enum_class.enum :: cmd list)" by (simp add: enum_cmd_def cmdtab_def)
  show "enum_class.enum_all P \<longleftrightarrow> Ball UNIV P" "enum_class.enum_ex P \<longleftrightarrow> Bex UNIV P" for P :: "cmd \<Rightarrow> bool"
    using all by (auto simp: enum_all_cmd_def enum_ex_cmd_def list_all_iff list_ex_iff simp del: set_map)
qed

end

datatype found = Found cmd | Ambiguous | Invalid

text \<open>The inner loop: \<open>Some True\<close> for the same string, \<open>Some False\<close> for a proper prefix.\<close>

fun cmp_name :: "str \<Rightarrow> str \<Rightarrow> bool option" where
  "cmp_name [] [] = Some True"
| "cmp_name [] (p # ps) = Some False"
| "cmp_name (q # qs) [] = None"
| "cmp_name (q # qs) (p # ps) = (if q = p then cmp_name qs ps else None)"

fun getcmd_loop :: "str \<Rightarrow> (str \<times> cmd) list \<Rightarrow> nat \<Rightarrow> nat \<Rightarrow> cmd option \<Rightarrow> found" where
  "getcmd_loop name [] longest nmatches best =
     (if 1 < nmatches then Ambiguous else case best of None \<Rightarrow> Invalid | Some c \<Rightarrow> Found c)"
| "getcmd_loop name ((p, c) # tab) longest nmatches best =
     (case cmp_name name p of
        Some True \<Rightarrow> Found c
      | Some False \<Rightarrow>
          if length name > longest then getcmd_loop name tab (length name) 1 (Some c)
          else if length name = longest then getcmd_loop name tab longest (nmatches + 1) best
          else getcmd_loop name tab longest nmatches best
      | None \<Rightarrow> getcmd_loop name tab longest nmatches best)"

definition getcmd :: "str \<Rightarrow> found" where
  "getcmd name = getcmd_loop name cmdtab 0 0 None"

subsection \<open>File names\<close>

text \<open>
  \<^verbatim>\<open>strrchr\<close>: what is in front of and behind the last occurrence of a character.
\<close>

definition split_last :: "byte \<Rightarrow> str \<Rightarrow> (str \<times> str) option" where
  "split_last c s =
     (if c \<in> set s
      then let b = rev (takeWhile (\<lambda>x. x \<noteq> c) (rev s)) in Some (take (length s - length b - 1) s, b)
      else None)"

lemma split_last_length:
  "split_last c s = Some (a, b) \<Longrightarrow> length a < length s"
  by (auto simp: split_last_def Let_def split: if_splits intro!: diff_less length_pos_if_in_set)

text \<open>
  \<^verbatim>\<open>tail\<close> overwrites trailing slashes with NUL: the results are the name that is left and
  the string returned.
\<close>

function tail :: "str \<Rightarrow> str \<times> str" where
  "tail s =
     (case split_last FSLASH s of
        None \<Rightarrow> (s, s)
      | Some (a, b) \<Rightarrow> if b \<noteq> [] then (s, b) else tail a)"
  by auto
termination by (relation "measure length") (auto dest: split_last_length)

declare tail.simps [simp del]


subsection \<open>Commands\<close>

definition modes :: "(str \<times> str) list" where
  "modes =
    [(cbytes ''ascii'', cbytes ''netascii''), (cbytes ''netascii'', cbytes ''netascii''),
     (cbytes ''binary'', cbytes ''octet''), (cbytes ''image'', cbytes ''octet''),
     (cbytes ''octet'', cbytes ''octet'')]"

definition setmode :: "str \<Rightarrow> shell \<Rightarrow> shell" where
  "setmode m s = s\<lparr>tmode := m\<rparr>"

definition modecmd :: "arg list \<Rightarrow> shell \<Rightarrow> result" where
  "modecmd args s =
     (if length args = 2
      then (case map_of modes (snd (args ! 1)) of None \<Rightarrow> Go s [] | Some m \<Rightarrow> Go (setmode m s) [])
      else Go s [])"

text \<open>
  Looking up a host: the first address of the two families is stored; \<open>None\<close> if there is none.
\<close>

definition lookup_host :: "world \<Rightarrow> str \<Rightarrow> shell \<Rightarrow> shell option" where
  "lookup_host w hname s =
     (case getaddrinfo w hname (service s) of
        None \<Rightarrow> None
      | Some (ais, canon) \<Rightarrow>
          (case find (\<lambda>ai. family ai = AF_INET6 \<or> family ai = AF_INET) ais of
             None \<Rightarrow> None
           | Some ai \<Rightarrow>
               Some (s\<lparr>s_inn := ai, connected := family ai, hostname := take (NI_MAXHOST - 1) canon\<rparr>)))"

definition setpeer_args :: "world \<Rightarrow> arg list \<Rightarrow> shell \<Rightarrow> result" where
  "setpeer_args w args s =
     (if length args \<noteq> 2 \<and> length args \<noteq> 3 then Go s []
      else if length args = 3 \<and> snd (args ! 2) = [] then Go (s\<lparr>connected := 0\<rparr>) []
      else let s1 = (if length args = 3 then s\<lparr>service := take (NI_MAXSERV - 1) (snd (args ! 2))\<rparr> else s)
           in case lookup_host w (snd (args ! 1)) s1 of
                None \<Rightarrow> Go (s1\<lparr>connected := 0\<rparr>) []
              | Some s2 \<Rightarrow> Go s2 [])"

definition setpeer :: "world \<Rightarrow> arg list \<Rightarrow> shell \<Rightarrow> result" where
  "setpeer w args s = with_args ''Connect '' args (setpeer_args w) s"

subsection \<open>put\<close>

text \<open>
  The loop over the files of a put into a directory: \<open>off\<close> is the offset of the target in
  \<^verbatim>\<open>line\<close>; the slash, the last component of the file's name and a NUL are written behind it.
\<close>

fun put_many :: "world \<Rightarrow> nat \<Rightarrow> str \<Rightarrow> arg list \<Rightarrow> shell \<Rightarrow> transfer list option" where
  "put_many w off targ [] s = Some []"
| "put_many w off targ (a # as) s =
     (let (left, name) = tail (snd a); remote = targ @ FSLASH # name;
          t = Put left remote (tmode s) (s_inn s)
      in if LINE_SIZE < off + length remote + 1 then None
         else if \<not> can_open w left then put_many w off targ as s
         else if times_out w t then Some [t]
         else map_option (Cons t) (put_many w off targ as s))"

definition put_to :: "world \<Rightarrow> arg list \<Rightarrow> nat \<Rightarrow> str \<Rightarrow> shell \<Rightarrow> result" where
  "put_to w args off targ s =
     (if connected s = 0 then Go s []
      else if length args < 4
      then let (left, ccp) = (if length args = 2 then tail targ else (targ, snd (args ! 1)))
           in if can_open w ccp then Go s [Put ccp left (tmode s) (s_inn s)] else Go s []
      else if LINE_SIZE < off + length targ + 1 then Smash
      else (case put_many w off targ (butlast (tl args)) s of None \<Rightarrow> Smash | Some ts \<Rightarrow> Go s ts))"

definition put_args :: "world \<Rightarrow> arg list \<Rightarrow> shell \<Rightarrow> result" where
  "put_args w args s =
     (if length args < 2 then Go s []
      else let (off, targ) = last args
           in case split_last COLON targ of
                None \<Rightarrow> put_to w args off targ s
              | Some (cp, t) \<Rightarrow>
                  if list_ex (\<lambda>a. COLON \<in> set (snd a)) (butlast (tl args)) then Go s []
                  else (case lookup_host w cp s of
                          None \<Rightarrow> Go s []
                        | Some s1 \<Rightarrow> put_to w args (off + length cp + 1) t s1))"

definition put :: "world \<Rightarrow> arg list \<Rightarrow> shell \<Rightarrow> result" where
  "put w args s = with_args ''send '' args (put_args w) s"

subsection \<open>get\<close>

text \<open>
  The loop over the arguments; \<open>single\<close> is the condition under which the first of them is
  fetched into a file named by the second (or by its own last component) and the loop ends.
\<close>

fun get_loop :: "world \<Rightarrow> arg list \<Rightarrow> nat \<Rightarrow> arg list \<Rightarrow> shell \<Rightarrow> shell \<times> transfer list" where
  "get_loop w args n [] s = (s, [])"
| "get_loop w args n (a # as) s =
     (let single = (length args = 2 \<or> length args = 3 \<and> n = 1 \<and> COLON \<notin> set (snd (args ! 2)));
          fetch = (\<lambda>src s1.
            if single
            then (let (left, cp) = (if length args = 3 then (src, snd (args ! 2)) else tail src)
                  in if can_creat w cp then (s1, [Get left cp (tmode s1) (s_inn s1)]) else (s1, []))
            else (let (left, cp) = tail src; t = Get left cp (tmode s1) (s_inn s1)
                  in if \<not> can_creat w cp then get_loop w args (n + 1) as s1
                     else if times_out w t then (s1, [t])
                     else map_prod id (Cons t) (get_loop w args (n + 1) as s1)))
      in case split_last COLON (snd a) of
           None \<Rightarrow> fetch (snd a) s
         | Some (hname, src) \<Rightarrow>
             (case lookup_host w hname s of
                None \<Rightarrow> get_loop w args (n + 1) as s
              | Some s1 \<Rightarrow> fetch src s1))"

definition get_args :: "world \<Rightarrow> arg list \<Rightarrow> shell \<Rightarrow> result" where
  "get_args w args s =
     (if length args < 2 then Go s []
      else if connected s = 0 \<and> list_ex (\<lambda>a. COLON \<notin> set (snd a)) (tl args) then Go s []
      else (let (s', ts) = get_loop w args 1 (tl args) s in Go s' ts))"

definition get :: "world \<Rightarrow> arg list \<Rightarrow> shell \<Rightarrow> result" where
  "get w args s = with_args ''get '' args (get_args w) s"

subsection \<open>Numbers\<close>

definition setrexmt_args :: "arg list \<Rightarrow> shell \<Rightarrow> result" where
  "setrexmt_args args s =
     (if length args \<noteq> 2 then Go s []
      else let t = to_int (c_strtol (snd (args ! 1))) in if t < 0 then Go s [] else Go (s\<lparr>trexmt := t\<rparr>) [])"

definition setrexmt :: "arg list \<Rightarrow> shell \<Rightarrow> result" where
  "setrexmt args s = with_args ''Rexmt-timeout '' args setrexmt_args s"

definition settimeout_args :: "arg list \<Rightarrow> shell \<Rightarrow> result" where
  "settimeout_args args s =
     (if length args \<noteq> 2 then Go s []
      else let t = to_int (c_strtol (snd (args ! 1))) in if t < 0 then Go s [] else Go (s\<lparr>tmaxtimeout := t\<rparr>) [])"

definition settimeout :: "arg list \<Rightarrow> shell \<Rightarrow> result" where
  "settimeout args s = with_args ''Maximum-timeout '' args settimeout_args s"

subsection \<open>The command loop\<close>

definition run_cmd :: "world \<Rightarrow> cmd \<Rightarrow> arg list \<Rightarrow> shell \<Rightarrow> result" where
  "run_cmd w c args s =
     (case c of
        Connect \<Rightarrow> setpeer w args s
      | Mode \<Rightarrow> modecmd args s
      | PutCmd \<Rightarrow> put w args s
      | GetCmd \<Rightarrow> get w args s
      | QuitCmd \<Rightarrow> Quit
      | Verbose \<Rightarrow> Go (s\<lparr>verbose := \<not> verbose s\<rparr>) []
      | Trace \<Rightarrow> Go (s\<lparr>trace := \<not> trace s\<rparr>) []
      | Status \<Rightarrow> Go s []
      | Binary \<Rightarrow> Go (setmode (cbytes ''octet'') s) []
      | Ascii \<Rightarrow> Go (setmode (cbytes ''netascii'') s) []
      | Rexmt \<Rightarrow> setrexmt args s
      | Timeout \<Rightarrow> settimeout args s
      | Help \<Rightarrow> Go s [])"

text \<open>One turn of the loop in \<^verbatim>\<open>command\<close>; at the end of the input it quits.\<close>

definition command :: "world \<Rightarrow> shell \<Rightarrow> result" where
  "command w s =
     (case c_fgets LINE_SIZE (input s) of
        None \<Rightarrow> Quit
      | Some (l, rest) \<Rightarrow>
          (let s1 = s\<lparr>input := rest\<rparr>
           in if cstr l = [] then Go s1 []
              else (case makeargv l of
                      None \<Rightarrow> Smash
                    | Some [] \<Rightarrow> Go s1 []
                    | Some (a # as) \<Rightarrow>
                        (case getcmd (snd a) of
                           Ambiguous \<Rightarrow> Go s1 []
                         | Invalid \<Rightarrow> Go s1 []
                         | Found c \<Rightarrow> run_cmd w c (a # as) s1))))"

text \<open>At most n turns: the transfers made and how the session stands.\<close>

fun session :: "world \<Rightarrow> nat \<Rightarrow> shell \<Rightarrow> transfer list \<times> result" where
  "session w 0 s = ([], Go s [])"
| "session w (Suc n) s =
     (case command w s of
        Go s' ts \<Rightarrow> (let (us, r) = session w n s' in (ts @ us, r))
      | r \<Rightarrow> ([], r))"


text \<open>\<^verbatim>\<open>main\<close>: a peer may be given on the command line.\<close>

definition tftp_main :: "world \<Rightarrow> str list \<Rightarrow> byte list \<Rightarrow> result" where
  "tftp_main w argv inp =
     (if 1 < length argv then setpeer w (map (Pair 0) argv) (shell_start inp) else Go (shell_start inp) [])"

section \<open>Commands are found by unique prefixes\<close>

definition judge :: "(str \<times> cmd) list \<Rightarrow> found" where
  "judge xs = (case xs of [] \<Rightarrow> Invalid | [x] \<Rightarrow> Found (snd x) | _ \<Rightarrow> Ambiguous)"

lemma cmp_name_iff:
  "cmp_name q p = Some True \<longleftrightarrow> q = p" "cmp_name q p = Some False \<longleftrightarrow> strict_prefix q p"
  by (induction q p rule: cmp_name.induct) auto

lemma getcmd_loop_spec:
  assumes "name \<noteq> []" "longest = (if acc = [] then 0 else length name)" "nmatches = length acc"
    and "best = (case acc of [] \<Rightarrow> None | x # _ \<Rightarrow> Some (snd x))"
  shows "getcmd_loop name tab longest nmatches best =
    (case map_of tab name of
       Some c \<Rightarrow> Found c
     | None \<Rightarrow> judge (acc @ filter (\<lambda>(p, _). strict_prefix name p) tab))"
  using assms(2-)
proof (induction tab arbitrary: acc longest nmatches best)
  case Nil
  then show ?case by (cases acc) (auto simp: judge_def split: list.split)
next
  case (Cons x tab)
  obtain p c where x: "x = (p, c)" by (cases x)
  consider (same) "name = p" | (pre) "strict_prefix name p" "name \<noteq> p" | (no) "\<not> strict_prefix name p" "name \<noteq> p"
    by blast
  then show ?case
  proof cases
    case same
    then have "cmp_name name p = Some True" by (simp add: cmp_name_iff)
    with same x show ?thesis by simp
  next
    case pre
    then have m: "cmp_name name p = Some False" by (simp add: cmp_name_iff)
    have "getcmd_loop name (x # tab) longest nmatches best =
        getcmd_loop name tab (length name) (Suc nmatches) (case acc of [] \<Rightarrow> Some c | y # _ \<Rightarrow> Some (snd y))"
      using m Cons.prems assms(1) by (cases acc) (simp_all add: x)
    also have "\<dots> = (case map_of tab name of Some c \<Rightarrow> Found c
        | None \<Rightarrow> judge ((acc @ [(p, c)]) @ filter (\<lambda>(p, _). strict_prefix name p) tab))"
      by (rule Cons.IH) (use Cons.prems in \<open>auto split: list.split\<close>)
    finally show ?thesis using pre by (simp add: x del: getcmd_loop.simps split: option.split)
  next
    case no
    then have "cmp_name name p = None" by (metis (full_types) cmp_name_iff not_Some_eq)
    with no Cons.IH [OF Cons.prems] show ?thesis by (simp add: x split: option.split)
  qed
qed

section \<open>Words and lines\<close>

lemma c_fgets_bounds:
  assumes "c_fgets n inp = Some (l, rest)" "1 < n"
  shows "length l < n" "length rest < length inp"
proof -
  let ?full = "takeWhile (\<lambda>c. c \<noteq> 10) inp @ (if 10 \<in> set inp then [10] else [])"
  have ne: "inp \<noteq> []" using assms(1) by (auto simp: c_fgets_def)
  then have "c_fgets n inp = Some (take (n - 1) ?full, drop (length (take (n - 1) ?full)) inp)"
    by (simp only: c_fgets_def Let_def if_False)
  with assms(1) have l: "l = take (n - 1) ?full" "rest = drop (length l) inp"
    by auto
  have "?full \<noteq> []" using ne by (cases inp) auto
  with assms(2) l(1) have "0 < length l" by simp
  with l(2) ne show "length rest < length inp" by simp
  show "length l < n" using l(1) assms(2) by simp
qed

lemma words_from_step:
  fixes s
  defines "sp \<equiv> takeWhile c_isspace s" and "r \<equiv> dropWhile c_isspace s"
  defines "w \<equiv> takeWhile (\<lambda>c. \<not> c_isspace c) r" and "rest \<equiv> dropWhile (\<lambda>c. \<not> c_isspace c) r"
  shows "words_from off s = (if r = [] then []
    else (off + length sp, w) # (if rest = [] then [] else words_from (off + length sp + length w + 1) (tl rest)))"
    "length s = length sp + length w + length rest" "r \<noteq> [] \<Longrightarrow> w \<noteq> [] \<and> (\<forall>c\<in>set w. \<not> c_isspace c)"
    "set w \<subseteq> set s" "set rest \<subseteq> set s"
proof -
  show "set w \<subseteq> set s" "set rest \<subseteq> set s"
    unfolding w_def rest_def r_def by (auto dest!: set_takeWhileD set_dropWhileD)
  show "words_from off s = (if r = [] then []
    else (off + length sp, w) # (if rest = [] then [] else words_from (off + length sp + length w + 1) (tl rest)))"
    by (subst words_from.simps) (simp add: sp_def r_def w_def rest_def Let_def)
  have "length r = length w + length rest" unfolding w_def rest_def by (metis length_append takeWhile_dropWhile_id)
  moreover have "length s = length sp + length r" unfolding sp_def r_def by (metis length_append takeWhile_dropWhile_id)
  ultimately show "length s = length sp + length w + length rest" by simp
  assume r: "r \<noteq> []"
  have "\<not> c_isspace (hd r)" using r unfolding r_def by (rule hd_dropWhile)
  with r show "w \<noteq> [] \<and> (\<forall>c\<in>set w. \<not> c_isspace c)"
    unfolding w_def by (cases r) (auto dest: set_takeWhileD)
qed

lemma words_from_cases:
  obtains (none) "words_from off s = []"
  | (word) k w rest where "words_from off s = (off + k, w) #
        (if rest = [] then [] else words_from (off + k + length w + 1) (tl rest))"
      "length s = k + length w + length rest" "w \<noteq> []" "\<forall>c\<in>set w. \<not> c_isspace c" "set w \<subseteq> set s" "set rest \<subseteq> set s"
proof (cases "dropWhile c_isspace s = []")
  case True
  show thesis by (rule none, subst words_from_step(1), simp only: True simp_thms if_True)
next
  case False
  show thesis
  proof (rule word)
    show "words_from off s = (off + length (takeWhile c_isspace s), takeWhile (\<lambda>c. \<not> c_isspace c) (dropWhile c_isspace s)) #
        (if dropWhile (\<lambda>c. \<not> c_isspace c) (dropWhile c_isspace s) = [] then []
         else words_from (off + length (takeWhile c_isspace s) + length (takeWhile (\<lambda>c. \<not> c_isspace c) (dropWhile c_isspace s)) + 1)
           (tl (dropWhile (\<lambda>c. \<not> c_isspace c) (dropWhile c_isspace s))))"
      by (subst words_from_step(1), simp only: False if_False)
  qed (use words_from_step(2,4,5) words_from_step(3) [OF False] in blast)+
qed

lemma mem_if_tail:
  "(i, w) \<in> set ((a, b) # (if p then [] else xs)) \<Longrightarrow> i = a \<and> w = b \<or> \<not> p \<and> (i, w) \<in> set xs"
  by (auto split: if_splits)

lemma words_bounds:
  "(i, w) \<in> set (words_from off s) \<Longrightarrow>
   off \<le> i \<and> i + length w \<le> off + length s \<and> w \<noteq> [] \<and> set w \<subseteq> set s \<and> (\<forall>c\<in>set w. \<not> c_isspace c)"
proof (induction "length s" arbitrary: off s rule: less_induct)
  case less
  show ?case
  proof (cases rule: words_from_cases [of off s])
    case none
    with less.prems show ?thesis by simp
  next
    case (word k v rest)
    from mem_if_tail [OF less.prems [unfolded word(1)]]
    show ?thesis
    proof
      assume "i = off + k \<and> w = v"
      with word(2-5) show ?thesis by simp
    next
      assume r: "rest \<noteq> [] \<and> (i, w) \<in> set (words_from (off + k + length v + 1) (tl rest))"
      then have "length (tl rest) < length s" using word(2) by (cases rest) auto
      from less.hyps [OF this, of "off + k + length v + 1"] r word(2,6) show ?thesis by (cases rest) auto
    qed
  qed
qed

lemma makeargv_bounds:
  assumes "makeargv l = Some args" "a \<in> set args"
  shows "fst a + length (snd a) \<le> length (cstr l)" "snd a \<noteq> []" "length args < MARGV_SIZE" "set (snd a) \<subseteq> set (cstr l)"
  using assms words_bounds [of "fst a" "snd a" 0 "cstr l"]
  by (auto simp: makeargv_def Let_def split: if_splits)

lemma length_cstr: "length (cstr l) \<le> length l"
  by (simp add: cstr_def length_takeWhile_le)


section \<open>The invariant of a session\<close>

text \<open>
  The mode is one of the two of the protocol, the timeouts are not negative, and a peer is of
  an internet family.  A transfer has such a mode and peer and a remote name shorter than a
  line and without NUL.
\<close>

definition known_mode :: "str \<Rightarrow> bool" where
  "known_mode m \<longleftrightarrow> m = cbytes ''netascii'' \<or> m = cbytes ''octet''"

definition inet :: "sockaddr \<Rightarrow> bool" where
  "inet a \<longleftrightarrow> family a = AF_INET \<or> family a = AF_INET6"

definition sane :: "shell \<Rightarrow> bool" where
  "sane s \<longleftrightarrow> known_mode (tmode s) \<and> 0 \<le> trexmt s \<and> 0 \<le> tmaxtimeout s \<and> (connected s \<noteq> 0 \<longrightarrow> inet (s_inn s))"

definition name_ok :: "str \<Rightarrow> bool" where
  "name_ok x \<longleftrightarrow> length x < LINE_SIZE \<and> 0 \<notin> set x"

fun transfer_ok :: "transfer \<Rightarrow> bool" where
  "transfer_ok (Put local remote m a) \<longleftrightarrow> name_ok remote \<and> known_mode m \<and> inet a"
| "transfer_ok (Get remote local m a) \<longleftrightarrow> name_ok remote \<and> known_mode m \<and> inet a"

definition good_result :: "shell \<Rightarrow> result \<Rightarrow> bool" where
  "good_result s r \<longleftrightarrow>
     (case r of
        Go s' ts \<Rightarrow> sane s' \<and> list_all transfer_ok ts \<and> length (input s') \<le> length (input s)
      | _ \<Rightarrow> True)"

definition line_args :: "arg list \<Rightarrow> bool" where
  "line_args args \<longleftrightarrow> (\<forall>a\<in>set args. fst a + length (snd a) < LINE_SIZE \<and> 0 \<notin> set (snd a))"

lemma good_result_simps [simp]:
  "good_result s (Go s' ts) \<longleftrightarrow> sane s' \<and> list_all transfer_ok ts \<and> length (input s') \<le> length (input s)"
  "good_result s Quit" "good_result s Smash"
  by (simp_all add: good_result_def)

lemma makeargv_line_args: "makeargv l = Some args \<Longrightarrow> length l < LINE_SIZE \<Longrightarrow> line_args args"
  using makeargv_bounds(1,4) [of l args] length_cstr [of l] cstr_no_nul [of l] by (fastforce simp: line_args_def)

lemma with_args_good:
  assumes "sane s" "line_args args" "length pre < 100"
    and f: "\<And>args' s'. sane s' \<Longrightarrow> line_args args' \<Longrightarrow> good_result s' (f args' s')"
  shows "good_result s (with_args pre args f s)"
proof (cases "length args < 2")
  case False
  with assms show ?thesis by (simp add: with_args_def)
next
  case True
  show ?thesis
  proof (cases "c_fgets (LINE_SIZE - length pre) (input s)")
    case None
    have "line_args a" if "makeargv (cbytes pre) = Some a" for a
      using makeargv_line_args [OF that] assms(3) by (simp add: LINE_SIZE_def)
    with True None assms(1) f show ?thesis
      by (auto simp: with_args_def prompt_def split: option.split)
  next
    case (Some lr)
    obtain l rest where lr: "lr = (l, rest)" by (cases lr)
    have b: "length l < LINE_SIZE - length pre" "length rest < length (input s)"
      using c_fgets_bounds [of "LINE_SIZE - length pre" "input s" l rest] Some lr assms(3)
      by (auto simp: LINE_SIZE_def)
    have "line_args a" if "makeargv (cbytes pre @ l) = Some a" for a
      using makeargv_line_args [OF that] b(1) by simp
    moreover have "sane (s\<lparr>input := rest\<rparr>)" using assms(1) by (simp add: sane_def)
    ultimately have "good_result (s\<lparr>input := rest\<rparr>) (f a (s\<lparr>input := rest\<rparr>))"
      if "makeargv (cbytes pre @ l) = Some a" for a
      using f that by blast
    with True Some lr b(2) show ?thesis
      by (fastforce simp: with_args_def prompt_def good_result_def split: option.split result.splits)
  qed
qed

lemma lookup_host_good:
  assumes "lookup_host w h s = Some s'" "sane s"
  shows "sane s'" "connected s' \<noteq> 0" "input s' = input s"
proof -
  from assms(1) obtain ais c a where "find (\<lambda>ai. family ai = AF_INET6 \<or> family ai = AF_INET) ais = Some a"
    and s': "s' = s\<lparr>s_inn := a, connected := family a, hostname := take (NI_MAXHOST - 1) c\<rparr>"
    by (auto simp: lookup_host_def split: option.splits)
  then have "inet a" "family a \<noteq> 0"
    by (auto simp: find_Some_iff inet_def AF_INET_def AF_INET6_def)
  with assms(2) s' show "sane s'" "connected s' \<noteq> 0" "input s' = input s"
    by (simp_all add: sane_def)
qed

lemma setpeer_good: "sane s \<Longrightarrow> line_args args \<Longrightarrow> good_result s (setpeer w args s)"
  unfolding setpeer_def
proof (rule with_args_good)
  fix args' s' assume "sane s'" "line_args args'"
  moreover from this have "sane (s'\<lparr>service := x\<rparr>)" "sane (s'\<lparr>connected := 0\<rparr>)"
    "sane (s'\<lparr>service := x, connected := 0\<rparr>)" for x
    by (simp_all add: sane_def)
  ultimately show "good_result s' (setpeer_args w args' s')"
    using lookup_host_good [of w _ "s'\<lparr>service := _\<rparr>"] lookup_host_good [of w _ s']
    by (auto simp: setpeer_args_def Let_def split: option.split)
qed simp_all

lemma modecmd_good: "sane s \<Longrightarrow> good_result s (modecmd args s)"
  by (auto simp: modecmd_def modes_def setmode_def sane_def known_mode_def split: option.split if_splits)

lemma setrexmt_good: "sane s \<Longrightarrow> line_args args \<Longrightarrow> good_result s (setrexmt args s)"
  unfolding setrexmt_def by (rule with_args_good) (auto simp: setrexmt_args_def sane_def Let_def)

lemma settimeout_good: "sane s \<Longrightarrow> line_args args \<Longrightarrow> good_result s (settimeout args s)"
  unfolding settimeout_def by (rule with_args_good) (auto simp: settimeout_args_def sane_def Let_def)

subsection \<open>put and get\<close>

lemma tail_shorter: "length (fst (tail s)) \<le> length s"
proof (induction s rule: tail.induct)
  case (1 s)
  show ?case
  proof (cases "split_last FSLASH s")
    case None
    then show ?thesis by (subst tail.simps) simp
  next
    case (Some ab)
    obtain a b where ab: "ab = (a, b)" by (cases ab)
    have "length (fst (tail a)) \<le> length a" if "b = []"
      using "1.IH" [OF Some ab [symmetric]] that by simp
    with Some ab split_last_length [of FSLASH s a b] show ?thesis by (subst tail.simps) auto
  qed
qed

lemma split_last_parts: "split_last c s = Some (a, b) \<Longrightarrow> length a + 1 + length b = length s"
proof -
  assume a: "split_last c s = Some (a, b)"
  then have "c \<in> set s" and ab: "b = rev (takeWhile (\<lambda>x. x \<noteq> c) (rev s))" "a = take (length s - length b - 1) s"
    by (auto simp: split_last_def Let_def split: if_splits)
  then have "dropWhile (\<lambda>x. x \<noteq> c) (rev s) \<noteq> []" by (auto simp: dropWhile_eq_Nil_conv)
  moreover have "length b + length (dropWhile (\<lambda>x. x \<noteq> c) (rev s)) = length s"
    unfolding ab by (metis length_append length_rev takeWhile_dropWhile_id)
  ultimately have "length b < length s" by (metis length_greater_0_conv less_add_same_cancel1)
  with ab(2) show ?thesis by simp
qed

lemma split_last_sets: "split_last c s = Some (a, b) \<Longrightarrow> set a \<subseteq> set s \<and> set b \<subseteq> set s"
  by (auto simp: split_last_def Let_def split: if_splits dest: in_set_takeD) (auto dest: set_takeWhileD)

lemma tail_sets: "set (fst (tail s)) \<subseteq> set s \<and> set (snd (tail s)) \<subseteq> set s"
proof (induction s rule: tail.induct)
  case (1 s)
  show ?case
  proof (cases "split_last FSLASH s")
    case None
    then show ?thesis by (subst (1 2) tail.simps) simp
  next
    case (Some ab)
    obtain a b where ab: "ab = (a, b)" by (cases ab)
    then have "set a \<subseteq> set s" "set b \<subseteq> set s" using split_last_sets Some by blast+
    moreover have "b = [] \<Longrightarrow> tail s = tail a" "b \<noteq> [] \<Longrightarrow> tail s = (s, b)"
      using Some ab by (subst tail.simps, simp)+
    ultimately show ?thesis using "1.IH" [OF Some ab [symmetric]] by (cases "b = []") auto
  qed
qed

lemma name_ok_tail: "name_ok s \<Longrightarrow> name_ok (fst (tail s))"
  using tail_shorter [of s] tail_sets [of s] by (auto simp: name_ok_def)

lemma name_ok_split: "split_last c s = Some (a, b) \<Longrightarrow> name_ok s \<Longrightarrow> name_ok b"
  using split_last_parts [of c s a b] split_last_sets [of c s a b] by (auto simp: name_ok_def)

lemma line_args_name: "line_args args \<Longrightarrow> a \<in> set args \<Longrightarrow> name_ok (snd a)"
  by (fastforce simp: line_args_def name_ok_def)

lemma put_many_good:
  assumes "sane s" "connected s \<noteq> 0" "put_many w off targ as s = Some ts" "0 \<notin> set targ" "\<forall>a\<in>set as. 0 \<notin> set (snd a)"
  shows "list_all transfer_ok ts"
  using assms(3,5)
proof (induction as arbitrary: ts)
  case (Cons a as)
  have "0 \<notin> set (snd (tail (snd a)))" using Cons.prems(2) tail_sets [of "snd a"] by auto
  then have "name_ok (targ @ FSLASH # snd (tail (snd a)))" if "off + length (targ @ FSLASH # snd (tail (snd a))) + 1 \<le> LINE_SIZE"
    using that assms(4) by (simp add: name_ok_def FSLASH_def)
  then show ?case
    using Cons assms(1,2) by (auto simp: sane_def Let_def split: prod.splits if_splits option.splits)
qed simp

lemma sane_peer: "sane s \<Longrightarrow> connected s \<noteq> 0 \<Longrightarrow> known_mode (tmode s) \<and> inet (s_inn s)"
  by (simp add: sane_def)

lemma put_to_good:
  assumes "sane s" "name_ok targ" "line_args args"
  shows "good_result s (put_to w args off targ s)"
proof -
  have "\<forall>a\<in>set (butlast (tl args)). 0 \<notin> set (snd a)"
    using line_args_name [OF assms(3)] by (cases args) (auto simp: name_ok_def dest!: in_set_butlastD)
  then show ?thesis
    using assms(1,2) name_ok_tail [OF assms(2)] put_many_good [of s w off targ "butlast (tl args)"]
    by (auto simp: put_to_def sane_def name_ok_def Let_def split: option.split prod.split)
qed

lemma put_good: "sane s \<Longrightarrow> line_args args \<Longrightarrow> good_result s (put w args s)"
  unfolding put_def
proof (rule with_args_good)
  fix args' s' assume s: "sane s'" and l: "line_args args'"
  show "good_result s' (put_args w args' s')"
  proof (cases "length args' < 2")
    case False
    obtain off targ where t: "last args' = (off, targ)" by (cases "last args'")
    have "last args' \<in> set args'" using False by (intro last_in_set) auto
    with l t have len: "name_ok targ" using line_args_name by fastforce
    have "good_result s' (put_to w args' (off + length cp + 1) u s1)"
      if "split_last COLON targ = Some (cp, u)" "lookup_host w cp s' = Some s1" for cp u s1
      using put_to_good [OF lookup_host_good(1) [OF that(2) s] name_ok_split [OF that(1) len] l, of w "off + length cp + 1"]
        lookup_host_good(3) [OF that(2) s] by (auto simp: good_result_def split: result.splits)
    then show ?thesis
      using False t s put_to_good [OF s len l]
      by (auto simp: put_args_def split: option.split)
  qed (simp add: put_args_def s)
qed simp_all


lemma get_loop_good:
  assumes "sane s" "\<forall>a\<in>set as. name_ok (snd a)"
    and "connected s \<noteq> 0 \<or> (\<forall>a\<in>set as. COLON \<in> set (snd a))"
  shows "sane (fst (get_loop w args n as s)) \<and> list_all transfer_ok (snd (get_loop w args n as s)) \<and>
    input (fst (get_loop w args n as s)) = input s"
  using assms
proof (induction as arbitrary: n s)
  case (Cons a as)
  note tl = name_ok_tail
  have len: "name_ok (snd a)" using Cons.prems(2) by simp
  show ?case
  proof (cases "split_last COLON (snd a)")
    case None
    then have c: "connected s \<noteq> 0" using Cons.prems(3) by (auto simp: split_last_def Let_def split: if_splits)
    note IH = Cons.IH [of s "n + 1", OF Cons.prems(1) _ disjI1 [OF c]]
    show ?thesis
      using None IH Cons.prems(1,2) len tl [OF len] sane_peer [OF Cons.prems(1) c]
      by (auto simp: Let_def split: prod.split if_splits)
  next
    case (Some hs)
    obtain h src where hs: "hs = (h, src)" by (cases hs)
    have sl: "name_ok src" using name_ok_split [of COLON "snd a" h src] Some hs len by simp
    show ?thesis
    proof (cases "lookup_host w h s")
      case None
      then show ?thesis using Some hs Cons.IH [of s "n + 1"] Cons.prems by (auto simp: Let_def)
    next
      case (Some s1)
      note g = lookup_host_good [OF Some Cons.prems(1)]
      note IH = Cons.IH [of s1 "n + 1", OF g(1) _ disjI1 [OF g(2)]]
      show ?thesis
        using \<open>split_last COLON (snd a) = Some hs\<close> hs Some IH Cons.prems(2) sl tl [OF sl] sane_peer [OF g(1,2)] g
        by (auto simp: Let_def split: prod.split if_splits)
    qed
  qed
qed simp

lemma get_good: "sane s \<Longrightarrow> line_args args \<Longrightarrow> good_result s (get w args s)"
  unfolding get_def
proof (rule with_args_good)
  fix args' s' assume s: "sane s'" and l: "line_args args'"
  have "\<forall>a\<in>set (tl args'). name_ok (snd a)"
    using line_args_name [OF l] by (cases args') auto
  note gl = get_loop_good [OF s this, of w args' 1]
  show "good_result s' (get_args w args' s')"
    using s gl by (auto simp: get_args_def list_ex_iff split: prod.split)
qed simp_all

lemma run_cmd_good:
  assumes "sane s" "line_args args"
  shows "good_result s (run_cmd w c args s)"
proof -
  have "sane (s\<lparr>verbose := x\<rparr>)" "sane (s\<lparr>trace := x\<rparr>)" "sane (setmode (cbytes ''octet'') s)"
    "sane (setmode (cbytes ''netascii'') s)" for x
    using assms(1) by (simp_all add: sane_def setmode_def known_mode_def)
  then show ?thesis
    using assms put_good get_good setpeer_good modecmd_good setrexmt_good settimeout_good
    by (cases c) (simp_all add: run_cmd_def, simp_all add: setmode_def)
qed

lemma command_good:
  assumes "sane s"
  shows "case command w s of
      Go s' ts \<Rightarrow> sane s' \<and> list_all transfer_ok ts \<and> length (input s') < length (input s)
    | _ \<Rightarrow> True"
proof (cases "c_fgets LINE_SIZE (input s)")
  case None
  then show ?thesis by (simp add: command_def)
next
  case (Some lr)
  obtain l rest where lr: "lr = (l, rest)" by (cases lr)
  have b: "length l < LINE_SIZE" "length rest < length (input s)"
    using c_fgets_bounds [of LINE_SIZE "input s" l rest] Some lr by (auto simp: LINE_SIZE_def)
  let ?s = "s\<lparr>input := rest\<rparr>"
  have s: "sane ?s" using assms by (simp add: sane_def)
  have "good_result ?s (run_cmd w c args ?s)" if "makeargv l = Some args" for c args
    by (rule run_cmd_good [OF s makeargv_line_args [OF that b(1)]])
  then show ?thesis
    using Some lr b(2) s
    by (fastforce simp: command_def Let_def good_result_def split: option.split list.split found.split result.splits)
qed

lemma session_transfer_ok:
  assumes "tf \<in> set (fst (session w n (shell_start inp)))"
  shows "transfer_ok tf"
proof -
  have ok: "list_all transfer_ok (fst (session w n s))" if "sane s" for s
    using that
  proof (induction n arbitrary: s)
    case (Suc n)
    show ?case
    proof (cases "command w s")
      case (Go s' ts)
      then show ?thesis
        using command_good [OF Suc.prems, of w] Suc.IH by (simp add: case_prod_beta)
    qed simp_all
  qed simp
  have "sane (shell_start inp)" by (simp add: sane_def shell_start_def known_mode_def)
  from ok [OF this] assms show ?thesis by (auto simp: list_all_iff)
qed

lemma transfer_fits:
  "transfer_ok (Put local remote m a) \<Longrightarrow> length (request_pkt WRQ remote m) \<le> PKTSIZE"
  "transfer_ok (Get remote local m a) \<Longrightarrow> length (request_pkt RRQ remote m) \<le> PKTSIZE"
  by (auto simp: wire_simps known_mode_def name_ok_def LINE_SIZE_def size_defs cbytes_def)

section \<open>Properties\<close>

text \<open>
  A command is found by its full name or by a prefix that fits no other command; a prefix
  that fits several is ambiguous.
\<close>

theorem getcmd_finds:
  assumes "name \<noteq> []"
  shows "getcmd name =
    (case map_of cmdtab name of
       Some c \<Rightarrow> Found c
     | None \<Rightarrow>
         (case filter (\<lambda>(p, _). strict_prefix name p) cmdtab of
            [] \<Rightarrow> Invalid | [x] \<Rightarrow> Found (snd x) | _ \<Rightarrow> Ambiguous))"
  using getcmd_loop_spec [of name 0 "[]" 0 None cmdtab] assms by (simp add: getcmd_def judge_def split: option.split)

theorem getcmd_finds_witness:
  "getcmd (cbytes ''re'') = Found Rexmt \<and> getcmd (cbytes ''t'') = Ambiguous"
  using getcmd_finds [of "cbytes ''re''"] getcmd_finds [of "cbytes ''t''"]
  by (simp add: cmdtab_def cbytes_def strict_prefix_def)

text \<open>Every command has a name that finds it.\<close>

theorem commands_have_names: "\<exists>name. (name, c) \<in> set cmdtab \<and> getcmd name = Found c"
proof -
  have "c \<in> set (map snd cmdtab)" using enum_UNIV [where 'a = cmd] by (auto simp: enum_cmd_def)
  then obtain name where n: "(name, c) \<in> set cmdtab" by auto
  have "distinct (map fst cmdtab)" "\<forall>x\<in>set cmdtab. fst x \<noteq> []" by (simp_all add: cmdtab_def cbytes_def)
  with n getcmd_finds [of name] show ?thesis by force
qed

text \<open>
  C37: whatever is typed: every transfer a session starts has a peer of an internet family,
  the mode netascii or octet, and a name such that the request fits into the packet buffer
  \<^verbatim>\<open>makerequest\<close> writes it to.
\<close>

theorem session_requests_fit:
  assumes "tf \<in> set (fst (session w n (shell_start inp)))"
  shows "case tf of
      Put local remote m a \<Rightarrow> length (request_pkt WRQ remote m) \<le> PKTSIZE \<and> inet a
    | Get remote local m a \<Rightarrow> length (request_pkt RRQ remote m) \<le> PKTSIZE \<and> inet a"
  using session_transfer_ok [OF assms] transfer_fits by (cases tf) auto

definition demo_world :: world where
  "demo_world =
     \<lparr>getaddrinfo = (\<lambda>h srv. if h = cbytes ''h'' then Some ([demo_addr], h) else None),
      can_open = (\<lambda>_. True), can_creat = (\<lambda>_. True), times_out = (\<lambda>_. False)\<rparr>"

definition demo_input :: "byte list" where
  "demo_input = cbytes ''con h'' @ 10 # cbytes ''get a/b'' @ [10]"

lemma demo_session:
  "fst (session demo_world 2 (shell_start demo_input)) =
    [Get (cbytes ''a/b'') (cbytes ''b'') (cbytes ''netascii'') demo_addr]"
  by code_simp

theorem session_requests_fit_witness:
  "length (request_pkt RRQ (cbytes ''a/b'') (cbytes ''netascii'')) \<le> PKTSIZE \<and> inet demo_addr"
  using session_requests_fit [of "Get (cbytes ''a/b'') (cbytes ''b'') (cbytes ''netascii'') demo_addr" demo_world 2 demo_input]
  by (simp add: demo_session)

text \<open>
  A session ends: with n bytes of input the loop takes at most n + 1 turns before the
  program exits (or has written outside one of its arrays).
\<close>

theorem session_ends:
  "snd (session w (Suc (length inp)) (shell_start inp)) = Quit \<or>
   snd (session w (Suc (length inp)) (shell_start inp)) = Smash"
proof -
  have ends: "snd (session w n s) = Quit \<or> snd (session w n s) = Smash" if "sane s" "length (input s) < n" for n s
    using that
  proof (induction n arbitrary: s)
    case (Suc n)
    show ?case
    proof (cases "command w s")
      case (Go s' ts)
      then show ?thesis
        using command_good [OF Suc.prems(1), of w] Suc.IH [of s'] Suc.prems(2) by (simp add: case_prod_beta)
    qed simp_all
  qed simp
  have "sane (shell_start inp)" "input (shell_start inp) = inp"
    by (simp_all add: sane_def shell_start_def known_mode_def)
  then show ?thesis by (intro ends) simp_all
qed

lemma put_many_spec:
  assumes "\<forall>t. \<not> times_out w t"
  shows "put_many w off targ as s =
    (if \<forall>f\<in>snd ` set as. off + length targ + length (snd (tail f)) + 2 \<le> LINE_SIZE
     then Some (map (\<lambda>f. Put (fst (tail f)) (targ @ FSLASH # snd (tail f)) (tmode s) (s_inn s))
                 (filter (\<lambda>f. can_open w (fst (tail f))) (map snd as)))
     else None)"
  by (induction as) (use assms in \<open>auto simp: Let_def split: prod.split\<close>)

text \<open>
  C38: \<^verbatim>\<open>put\<close> with several files sends each of them that can be opened, in order, to its
  last path component in the target directory, if slash, name and NUL behind the target fit
  into the 200 bytes of \<^verbatim>\<open>line\<close> for every file; else it writes behind the end of \<^verbatim>\<open>line\<close>.
\<close>

theorem put_many_files:
  assumes "connected s \<noteq> 0" "4 \<le> length args" "last args = (off, targ)" "COLON \<notin> set targ"
    and "\<forall>t. \<not> times_out w t"
  shows "put w args s =
    (let files = map snd (butlast (tl args))
     in if \<forall>f\<in>set files. off + length targ + length (snd (tail f)) + 2 \<le> LINE_SIZE
        then Go s (map (\<lambda>f. Put (fst (tail f)) (targ @ FSLASH # snd (tail f)) (tmode s) (s_inn s))
                    (filter (\<lambda>f. can_open w (fst (tail f))) files))
        else Smash)"
proof -
  have "length (butlast (tl args)) \<noteq> 0" using assms(2) by simp
  then have "butlast (tl args) \<noteq> []" by (metis list.size(3))
  then obtain f where "f \<in> snd ` set (butlast (tl args))" by (cases "butlast (tl args)") auto
  then have "\<not> LINE_SIZE < off + length targ + 1"
    if "\<forall>f\<in>snd ` set (butlast (tl args)). off + length targ + length (snd (tail f)) + 2 \<le> LINE_SIZE"
    using that by fastforce
  moreover have "put w args s = put_to w args off targ s"
    using assms by (simp add: put_def with_args_def put_args_def split_last_def)
  ultimately show ?thesis
    using assms(1,2) put_many_spec [OF assms(5), of off targ "butlast (tl args)" s]
    by (auto simp: put_to_def Let_def)
qed

theorem put_many_files_witness:
  "let s = (shell_start [])\<lparr>connected := AF_INET, s_inn := demo_addr\<rparr>;
       a = (4, cbytes ''a''); b = (6, cbytes ''b/c'')
   in put demo_world [(0, cbytes ''put''), a, b, (10, cbytes ''d'')] s =
        Go s [Put (cbytes ''a'') (cbytes ''d/a'') (cbytes ''netascii'') demo_addr,
              Put (cbytes ''b/c'') (cbytes ''d/c'') (cbytes ''netascii'') demo_addr] \<and>
      put demo_world [(0, cbytes ''put''), a, b, (197, cbytes ''d'')] s = Smash"
proof -
  let ?s = "(shell_start [])\<lparr>connected := AF_INET, s_inn := demo_addr\<rparr>"
  have t: "tail [97] = ([97], [97])" "tail [98, 47, 99] = ([98, 47, 99], [99])"
    by code_simp+
  have c: "COLON \<notin> set (cbytes ''d'')" by code_simp
  note p = put_many_files [of ?s "[(0, cbytes ''put''), (4, cbytes ''a''), (6, cbytes ''b/c''), (off, cbytes ''d'')]" off "cbytes ''d''" demo_world for off]
  show ?thesis
    using p [of 10] p [of 197] c
    by (simp add: t AF_INET_def demo_world_def LINE_SIZE_def shell_start_def FSLASH_def cbytes_def)
qed

text \<open>
  \<^verbatim>\<open>rexmt\<close> understands the number \<^verbatim>\<open>status\<close> prints, and refuses numbers that do
  not fit into an \<^verbatim>\<open>int\<close> as long as they have at most 32 bits.
\<close>

theorem rexmt_reads_decimal:
  assumes "n < 2 ^ 32"
  shows "setrexmt [a, (off, decimal n)] s = (if n < 2 ^ 31 then Go (s\<lparr>trexmt := int n\<rparr>) [] else Go s [])"
proof -
  have "int n < 2 ^ 32" using assms by simp
  then have "c_strtol (decimal n) = int n" "to_int (int n) = (if int n < 2 ^ 31 then int n else int n - 2 ^ 32)"
    by - (intro strtol_decimal, simp, intro to_int_wrap, simp_all)
  then show ?thesis
    using assms by (simp add: setrexmt_def with_args_def setrexmt_args_def)
qed

theorem rexmt_reads_decimal_witness:
  "setrexmt [(0, cbytes ''rexmt''), (6, cbytes ''10'')] (shell_start []) = Go ((shell_start [])\<lparr>trexmt := 10\<rparr>) []"
  using rexmt_reads_decimal [of 10] by (simp add: decimal.simps cbytes_def)

end
