(* ===== verification/Tftp_Trace.thy ===== *)
theory Tftp_Trace
  imports Tftp_Client Tftp_Text
begin

text \<open>
  What the client prints of packets: \<^verbatim>\<open>tpacket\<close>, called for every packet when tracing is on, and the
  line that reports an error packet.  \<^verbatim>\<open>printf\<close> and \<^verbatim>\<open>strlen\<close> read a string up to its NUL; \<open>None\<close> means
  that they read behind the end of the buffer.
\<close>

section \<open>Printing\<close>

definition c_str :: "byte list \<Rightarrow> nat \<Rightarrow> str option" where
  "c_str b off =
     (let r = drop off b in if 0 \<in> set r then Some (takeWhile (\<lambda>c. c \<noteq> 0) r) else None)"

text \<open>The conversions \<^verbatim>\<open>%d\<close> and \<^verbatim>\<open>%x\<close>.\<close>

definition print_int :: "int \<Rightarrow> str" where
  "print_int i = (if i < 0 then 45 # decimal (nat (- i)) else decimal (nat i))"

definition hex_digit :: "nat \<Rightarrow> byte" where
  "hex_digit n = (if n < 10 then 48 + of_nat n else 87 + of_nat n)"

fun hex :: "nat \<Rightarrow> str" where
  "hex n = (if n < 16 then [hex_digit n] else hex (n div 16) @ [hex_digit (n mod 16)])"

declare hex.simps [simp del]

definition opcodes :: "str list" where
  "opcodes = [cbytes ''#0'', cbytes ''RRQ'', cbytes ''WRQ'', cbytes ''DATA'', cbytes ''ACK'', cbytes ''ERROR'']"

definition tpacket :: "endian \<Rightarrow> str \<Rightarrow> byte list \<Rightarrow> int \<Rightarrow> str option" where
  "tpacket e s tp n =
     (let op = ntohs e (th_opcode e tp);
          pre = (if op < RRQ \<or> op > ERROR then s @ cbytes '' opcode='' @ hex (unat op) @ cbytes '' ''
                 else s @ cbytes '' '' @ opcodes ! unat op @ cbytes '' '');
          number = (unat (ntohs e (th_block e tp)))
      in if op = RRQ \<or> op = WRQ
         then (case c_str tp 2 of
                 None \<Rightarrow> None
               | Some file \<Rightarrow>
                   (case c_str tp (2 + length file + 1) of
                      None \<Rightarrow> None
                    | Some mode \<Rightarrow> Some (pre @ cbytes ''<file='' @ file @ cbytes '', mode='' @ mode @ cbytes ''>'' @ [10])))
         else if op = DATA
         then Some (pre @ cbytes ''<block='' @ decimal number @ cbytes '', '' @ print_int (n - 4) @ cbytes '' bytes>'' @ [10])
         else if op = ACK then Some (pre @ cbytes ''<block='' @ decimal number @ cbytes ''>'' @ [10])
         else if op = ERROR
         then (case c_str tp 4 of
                 None \<Rightarrow> None
               | Some msg \<Rightarrow> Some (pre @ cbytes ''<code='' @ decimal number @ cbytes '', msg='' @ msg @ cbytes ''>'' @ [10]))
         else Some pre)"

text \<open>The report of an error packet whose header is in host order; \<^verbatim>\<open>th_code\<close> is a signed \<^verbatim>\<open>short\<close>.\<close>

definition error_line :: "endian \<Rightarrow> byte list \<Rightarrow> str option" where
  "error_line e ap =
     (case c_str ap 4 of
        None \<Rightarrow> None
      | Some msg \<Rightarrow> Some (cbytes ''Error code '' @ print_int (sint (th_block e ap)) @ cbytes '': '' @ msg @ [10]))"

section \<open>Strings in packets\<close>

lemma c_str_None: "c_str b off = None \<longleftrightarrow> 0 \<notin> set (drop off b)"
  by (simp add: c_str_def Let_def)

lemma c_str_at:
  assumes "drop off b = xs @ 0 # r" "0 \<notin> set xs"
  shows "c_str b off = Some xs"
proof -
  have "takeWhile (\<lambda>c. c \<noteq> 0) (xs @ 0 # r) = xs" using assms(2) by (simp add: takeWhile_tail takeWhile_append2) (metis takeWhile_eq_all_conv)
  with assms(1) show ?thesis by (simp add: c_str_def)
qed

lemma received_behind:
  assumes "length p \<le> PKTSIZE" "4 \<le> length p"
  shows "drop 4 (recv_into b p) = drop 4 p @ drop (length p) b"
  using assms by (simp add: recv_into_def overlay_def)

lemma received_fields:
  assumes "4 \<le> length p" "length p \<le> PKTSIZE"
  shows "ntohs e (th_opcode e (recv_into b p)) = net_short p 0" "ntohs e (th_block e (recv_into b p)) = net_short p 2"
    "4 \<le> length (recv_into b p)"
proof -
  have t: "take PKTSIZE p = p" using assms(2) by simp
  show "ntohs e (th_opcode e (recv_into b p)) = net_short p 0" "ntohs e (th_block e (recv_into b p)) = net_short p 2"
    using assms(1) by (simp_all add: recv_into_def t th_opcode_def th_block_def ntohs_load net_short_overlay)
  show "4 \<le> length (recv_into b p)" using assms(1) by (simp add: recv_into_def t overlay_def)
qed

section \<open>Properties\<close>

text \<open>
  C32: to print the message of an error packet the client reads behind its buffer exactly when the message
  has no NUL and the bytes an earlier packet left behind it have none either, which a
  packet of the full size achieves at once; the trace of the packet does the same.
\<close>

theorem client_prints_behind_buffer:
  assumes "length b = PKTSIZE" "4 \<le> length p" "length p \<le> PKTSIZE" "net_short p 0 = ERROR"
  shows "(error_line e (ntoh_header e (recv_into b p)) = None \<longleftrightarrow> 0 \<notin> set (drop 4 p) \<and> 0 \<notin> set (drop (length p) b)) \<and>
    (tpacket e s (recv_into b p) n = None \<longleftrightarrow> 0 \<notin> set (drop 4 p) \<and> 0 \<notin> set (drop (length p) b))"
  using assms received_fields(1) [OF assms(2,3), of e b] received_behind [OF assms(3,2), of b]
    c_str_None [of "recv_into b p" 4] c_str_None [of "ntoh_header e (recv_into b p)" 4]
  by (auto simp: error_line_def tpacket_def Let_def opcode_defs drop_ntoh_header split: option.split)

theorem client_prints_behind_buffer_witness:
  "error_line Little (ntoh_header Little (recv_into (replicate PKTSIZE 0) (hdr ERROR 1 @ replicate 512 65))) = None"
  using client_prints_behind_buffer [of "replicate PKTSIZE 0" "hdr ERROR 1 @ replicate 512 65" Little]
  by (simp add: size_defs wire_simps hdr_def net_short_def)

section \<open>What a trace shows\<close>

lemma received_pkt: "length p \<le> PKTSIZE \<Longrightarrow> recv_into b p = p @ drop (length p) b"
  by (simp add: recv_into_def overlay_def)

lemma trace_request:
  assumes "op = RRQ \<or> op = WRQ" "0 \<notin> set name" "0 \<notin> set mode" "length (request_pkt op name mode) \<le> PKTSIZE"
  shows "tpacket e s (recv_into b (request_pkt op name mode)) n =
    Some (s @ cbytes '' '' @ opcodes ! unat op @ cbytes '' <file='' @ name @ cbytes '', mode='' @ mode @ cbytes ''>'' @ [10])"
proof -
  let ?b = "recv_into b (request_pkt op name mode)"
  have b: "?b = request_pkt op name mode @ drop (length (request_pkt op name mode)) b" by (rule received_pkt [OF assms(4)])
  have l: "4 \<le> length (request_pkt op name mode)" by (simp add: wire_simps)
  have o: "ntohs e (th_opcode e ?b) = op" using received_fields(1) [OF l assms(4)] by (simp add: wire_simps)
  have d2: "drop 2 ?b = name @ 0 # mode @ 0 # drop (length (request_pkt op name mode)) b"
    unfolding b by (simp add: request_pkt_def)
  have f: "c_str ?b 2 = Some name" by (rule c_str_at [OF d2 assms(2)])
  have "drop (2 + length name + 1) ?b = drop (Suc (length name)) (drop 2 ?b)" by (simp add: add.commute)
  then have m: "c_str ?b (2 + length name + 1) = Some mode"
    unfolding d2 by (intro c_str_at [OF _ assms(3)]) simp
  show ?thesis using assms(1) f m o by (auto simp: tpacket_def Let_def opcode_defs cbytes_def)
qed

lemma trace_error:
  assumes "0 \<notin> set msg" "length (error_pkt k msg) \<le> PKTSIZE"
  shows "tpacket e s (recv_into b (error_pkt k msg)) n =
      Some (s @ cbytes '' ERROR <code='' @ decimal (unat k) @ cbytes '', msg='' @ msg @ cbytes ''>'' @ [10])"
    and "error_line e (ntoh_header e (recv_into b (error_pkt k msg))) =
      Some (cbytes ''Error code '' @ print_int (sint k) @ cbytes '': '' @ msg @ [10])"
proof -
  let ?b = "recv_into b (error_pkt k msg)"
  have l: "4 \<le> length (error_pkt k msg)" by (simp add: error_pkt_def)
  have n: "net_short (error_pkt k msg) 0 = ERROR" "net_short (error_pkt k msg) 2 = k"
    by (simp_all add: error_pkt_def wire_simps)
  have "drop 4 ?b = msg @ 0 # drop (length (error_pkt k msg)) b"
    unfolding received_pkt [OF assms(2)] by (simp add: error_pkt_def)
  then have m: "c_str ?b 4 = Some msg" by (rule c_str_at [OF _ assms(1)])
  then show "tpacket e s ?b n = Some (s @ cbytes '' ERROR <code='' @ decimal (unat k) @ cbytes '', msg='' @ msg @ cbytes ''>'' @ [10])"
    using received_fields(1,2) [OF l assms(2), of e b] n
    by (simp add: tpacket_def Let_def opcode_defs opcodes_def cbytes_def)
  have "c_str (ntoh_header e ?b) 4 = Some msg"
    using m by (simp add: c_str_def drop_ntoh_header)
  moreover have "th_block e (ntoh_header e ?b) = k"
    using l n received_pkt [OF assms(2), of b] by (simp add: ntoh_header_block error_pkt_def net_short_def hdr_def)
  ultimately show "error_line e (ntoh_header e ?b) = Some (cbytes ''Error code '' @ print_int (sint k) @ cbytes '': '' @ msg @ [10])"
    by (simp add: error_line_def)
qed

text \<open>
  The trace of a request or a data packet, and the report of an error packet whose message ends
  with a NUL, show what the packet says whatever an earlier packet left in the buffer behind it; the code of an
  error is printed as a signed number there.
\<close>

theorem trace_shows_packets:
  assumes "op = RRQ \<or> op = WRQ" "0 \<notin> set name" "0 \<notin> set mode" "0 \<notin> set msg"
    and "length (request_pkt op name mode) \<le> PKTSIZE" "length (error_pkt k msg) \<le> PKTSIZE" "length d \<le> SEGSIZE"
  shows "tpacket e s (recv_into b (request_pkt op name mode)) n =
      Some (s @ cbytes '' '' @ opcodes ! unat op @ cbytes '' <file='' @ name @ cbytes '', mode='' @ mode @ cbytes ''>'' @ [10]) \<and>
    tpacket e s (recv_into b (data_pkt k d)) (recv_len (data_pkt k d)) =
      Some (s @ cbytes '' DATA <block='' @ decimal (unat k) @ cbytes '', '' @ decimal (length d) @ cbytes '' bytes>'' @ [10]) \<and>
    error_line e (ntoh_header e (recv_into b (error_pkt k msg))) =
      Some (cbytes ''Error code '' @ print_int (sint k) @ cbytes '': '' @ msg @ [10])"
proof -
  have l: "4 \<le> length (data_pkt k d)" "length (data_pkt k d) \<le> PKTSIZE" using assms(7) by (simp_all add: wire_simps size_defs)
  have "recv_len (data_pkt k d) - 4 = int (length d)" using l(2) by (simp add: recv_len_def wire_simps)
  then show ?thesis
    using received_fields(1,2) [OF l, of e b] trace_request [OF assms(1,2,3,5)] trace_error(2) [OF assms(4,6)]
    by (simp add: tpacket_def Let_def opcode_defs opcodes_def cbytes_def wire_simps print_int_def)
qed

theorem trace_shows_packets_witness:
  "tpacket Little (cbytes ''received'') (recv_into (replicate PKTSIZE 7) (data_pkt 3 [1, 2])) (recv_len (data_pkt 3 [1, 2])) =
    Some (cbytes ''received DATA <block=3, 2 bytes>'' @ [10])"
  using trace_shows_packets [of RRQ "cbytes ''f''" "cbytes ''octet''" "cbytes ''no''" 3 "[1, 2]" Little "cbytes ''received''"
      "replicate PKTSIZE 7"]
  by (simp add: size_defs wire_simps error_pkt_def cbytes_def decimal.simps)

end
