(* ===== verification/Tftp_Console.thy ===== *)
theory Tftp_Console
  imports Tftp_Command Tftp_Trace
begin

text \<open>
  What the client's command loop prints: prompts, usage lines, the answers of \<^verbatim>\<open>status\<close> and \<^verbatim>\<open>?\<close>, and the
  lines about host names, files and modes.  The text of a command is a function of the arguments and the
  shell it runs on (\<open>Tftp_Command\<close> says what the command does to it).  Standard output and
  standard error are one stream here, in the order of the calls; of what a transfer prints
  only the timeout is here, \<open>Tftp_Trace\<close> has its packets.  The messages of the resolver and of the system are fields of the record \<open>messages\<close>.
\<close>

record messages =
  gai_strerror :: "str \<Rightarrow> str"
  strerror :: "str \<Rightarrow> str"

definition on_off :: "bool \<Rightarrow> str" where
  "on_off b = (if b then cbytes ''on'' else cbytes ''off'')"

section \<open>Commands without transfers\<close>

definition help_of :: "cmd \<Rightarrow> str" where
  "help_of c = cbytes
     (case c of
        Verbose \<Rightarrow> ''toggle verbose mode''
      | Trace \<Rightarrow> ''toggle packet tracing''
      | Connect \<Rightarrow> ''connect to remote tftp''
      | QuitCmd \<Rightarrow> ''exit tftp''
      | Help \<Rightarrow> ''print help information''
      | PutCmd \<Rightarrow> ''send file''
      | GetCmd \<Rightarrow> ''receive file''
      | Mode \<Rightarrow> ''set file transfer mode''
      | Status \<Rightarrow> ''show current status''
      | Rexmt \<Rightarrow> ''set per-packet retransmission timeout''
      | Timeout \<Rightarrow> ''set total retransmission timeout''
      | Ascii \<Rightarrow> ''set mode to netascii''
      | Binary \<Rightarrow> ''set mode to octet'')"

definition HELPINDENT :: nat where "HELPINDENT = 8"

text \<open>The conversion \<^verbatim>\<open>%-*s\<close>.\<close>

definition padded :: "nat \<Rightarrow> str \<Rightarrow> str" where
  "padded n s = s @ replicate (n - length s) 32"

definition help_says :: "arg list \<Rightarrow> str" where
  "help_says args =
     (if length args = 1
      then cbytes ''Commands may be abbreviated.  Commands are:'' @ [10, 10] @
           concat (map (\<lambda>(name, c). padded HELPINDENT name @ [9] @ help_of c @ [10]) cmdtab)
      else concat (map (\<lambda>a. case getcmd (snd a) of
                                Ambiguous \<Rightarrow> cbytes ''?Ambiguous help command '' @ snd a @ [10]
                              | Invalid \<Rightarrow> cbytes ''?Invalid help command '' @ snd a @ [10]
                              | Found c \<Rightarrow> help_of c @ [10]) (tl args)))"

definition status :: "shell \<Rightarrow> str" where
  "status s =
     (if connected s \<noteq> 0 then cbytes ''Connected to '' @ hostname s @ cbytes ''.'' @ [10]
      else cbytes ''Not connected.'' @ [10]) @
     cbytes ''Mode: '' @ tmode s @ cbytes '' Verbose: '' @ on_off (verbose s) @ cbytes '' Tracing: '' @ on_off (trace s) @ [10] @
     cbytes ''Rexmt-interval: '' @ print_int (trexmt s) @ cbytes '' seconds, Max-timeout: '' @
     print_int (tmaxtimeout s) @ cbytes '' seconds'' @ [10]"

definition settrace :: "shell \<Rightarrow> shell \<times> str" where
  "settrace s =
     (let s1 = s\<lparr>trace := \<not> trace s\<rparr> in (s1, cbytes ''Packet tracing '' @ on_off (trace s1) @ cbytes ''.'' @ [10]))"

definition setverbose :: "shell \<Rightarrow> shell \<times> str" where
  "setverbose s =
     (let s1 = s\<lparr>verbose := \<not> verbose s\<rparr> in (s1, cbytes ''Verbose mode '' @ on_off (verbose s1) @ cbytes ''.'' @ [10]))"

definition setmode_says :: "str \<Rightarrow> shell \<Rightarrow> str" where
  "setmode_says m s = (if verbose s then cbytes ''mode set to '' @ m @ [10] else [])"

definition setbinary :: "shell \<Rightarrow> shell \<times> str" where
  "setbinary s = (setmode (cbytes ''octet'') s, setmode_says (cbytes ''octet'') s)"

definition setascii :: "shell \<Rightarrow> shell \<times> str" where
  "setascii s = (setmode (cbytes ''netascii'') s, setmode_says (cbytes ''netascii'') s)"

definition argv0 :: "arg list \<Rightarrow> str" where
  "argv0 args = snd (args ! 0)"

definition mode_usage :: "arg list \<Rightarrow> str" where
  "mode_usage args =
     cbytes ''usage: '' @ argv0 args @ cbytes '' ['' @
     concat (map2 (@) (cbytes '' '' # replicate (length modes - 1) (cbytes '' | '')) (map fst modes)) @ cbytes '' ]'' @ [10]"

definition modecmd_says :: "arg list \<Rightarrow> shell \<Rightarrow> str" where
  "modecmd_says args s =
     (if length args < 2 then cbytes ''Using '' @ tmode s @ cbytes '' mode to transfer files.'' @ [10]
      else if length args = 2
      then (case map_of modes (snd (args ! 1)) of
              Some m \<Rightarrow> setmode_says m s
            | None \<Rightarrow> snd (args ! 1) @ cbytes '': unknown mode'' @ [10] @ mode_usage args)
      else mode_usage args)"

definition with_args_says :: "string \<Rightarrow> string \<Rightarrow> arg list \<Rightarrow> (arg list \<Rightarrow> shell \<Rightarrow> str) \<Rightarrow> shell \<Rightarrow> str" where
  "with_args_says pre ask args f s =
     (if length args < 2
      then cbytes ask @ (case prompt pre s of (None, _) \<Rightarrow> [] | (Some args', s') \<Rightarrow> f args' s')
      else f args s)"

definition setrexmt_says :: "arg list \<Rightarrow> shell \<Rightarrow> str" where
  "setrexmt_says args s = with_args_says ''Rexmt-timeout '' ''(value) '' args
     (\<lambda>args s. if length args \<noteq> 2 then cbytes ''usage: '' @ argv0 args @ cbytes '' value'' @ [10]
               else if to_int (c_strtol (snd (args ! 1))) < 0 then snd (args ! 1) @ cbytes '': bad value'' @ [10] else []) s"

definition settimeout_says :: "arg list \<Rightarrow> shell \<Rightarrow> str" where
  "settimeout_says args s = with_args_says ''Maximum-timeout '' ''(value) '' args
     (\<lambda>args s. if length args \<noteq> 2 then cbytes ''usage: '' @ argv0 args @ cbytes '' value'' @ [10]
               else if to_int (c_strtol (snd (args ! 1))) < 0 then snd (args ! 1) @ cbytes '': bad value'' @ [10] else []) s"

definition setpeer_says :: "world \<Rightarrow> arg list \<Rightarrow> shell \<Rightarrow> str" where
  "setpeer_says w args s = with_args_says ''Connect '' ''(to) '' args
     (\<lambda>args s.
        if length args \<noteq> 2 \<and> length args \<noteq> 3 then cbytes ''usage: '' @ argv0 args @ cbytes '' host-name [port]'' @ [10]
        else if length args = 3 \<and> snd (args ! 2) = [] then snd (args ! 2) @ cbytes '': bad port name'' @ [10]
        else (case lookup_host w (snd (args ! 1))
                (if length args = 3 then s\<lparr>service := take (NI_MAXSERV - 1) (snd (args ! 2))\<rparr> else s) of
                None \<Rightarrow> snd (args ! 1) @ cbytes '': unknown host'' @ [10]
              | Some _ \<Rightarrow> [])) s"

section \<open>Commands with transfers\<close>

definition lookup_says :: "world \<Rightarrow> messages \<Rightarrow> str \<Rightarrow> shell \<Rightarrow> str" where
  "lookup_says w m h s =
     cbytes ''tftp: '' @ h @ cbytes '': '' @
     (if getaddrinfo w h (service s) = None then gai_strerror m h else cbytes ''Address not found'') @ [10]"

definition open_says :: "messages \<Rightarrow> str \<Rightarrow> str" where
  "open_says m f = cbytes ''tftp: '' @ f @ cbytes '': '' @ strerror m f @ [10]"

definition putusage :: "str \<Rightarrow> str" where
  "putusage s = cbytes ''usage: '' @ s @ cbytes '' file ... host:target, or'' @ [10] @
     cbytes ''       '' @ s @ cbytes '' file ... target (when already connected)'' @ [10]"

definition getusage :: "str \<Rightarrow> str" where
  "getusage s = cbytes ''usage: '' @ s @ cbytes '' host:file host:file ... file, or'' @ [10] @
     cbytes ''       '' @ s @ cbytes '' file file ... file   if connected, or'' @ [10] @
     cbytes ''       '' @ s @ cbytes '' host:rfile lfile'' @ [10]"

text \<open>What is said before a transfer, with the names it gets.\<close>

definition putting :: "shell \<Rightarrow> str \<Rightarrow> str \<Rightarrow> str" where
  "putting s cp targ =
     (if verbose s
      then cbytes ''putting '' @ cp @ cbytes '' to '' @ hostname s @ COLON # targ @ cbytes '' ['' @ tmode s @ cbytes '']'' @ [10]
      else [])"

definition getting :: "shell \<Rightarrow> str \<Rightarrow> str \<Rightarrow> str" where
  "getting s src cp =
     (if verbose s
      then cbytes ''getting from '' @ hostname s @ COLON # src @ cbytes '' to '' @ cp @ cbytes '' ['' @ tmode s @ cbytes '']'' @ [10]
      else [])"

fun put_many_says :: "world \<Rightarrow> messages \<Rightarrow> nat \<Rightarrow> str \<Rightarrow> arg list \<Rightarrow> shell \<Rightarrow> str" where
  "put_many_says w m off targ [] s = []"
| "put_many_says w m off targ (a # as) s =
     (let (left, name) = tail (snd a); remote = targ @ FSLASH # name
      in if LINE_SIZE < off + length remote + 1 then []
         else if \<not> can_open w left then open_says m left @ put_many_says w m off targ as s
         else putting s left remote @
              (if times_out w (Put left remote (tmode s) (s_inn s)) then [] else put_many_says w m off targ as s))"

definition put_to_says :: "world \<Rightarrow> messages \<Rightarrow> arg list \<Rightarrow> nat \<Rightarrow> str \<Rightarrow> shell \<Rightarrow> str" where
  "put_to_says w m args off targ s =
     (if connected s = 0 then cbytes ''No target machine specified.'' @ [10]
      else if length args < 4
      then let (left, ccp) = (if length args = 2 then tail targ else (targ, snd (args ! 1)))
           in if can_open w ccp then putting s ccp left else open_says m ccp
      else if LINE_SIZE < off + length targ + 1 then []
      else put_many_says w m off targ (butlast (tl args)) s)"

definition put_says :: "world \<Rightarrow> messages \<Rightarrow> arg list \<Rightarrow> shell \<Rightarrow> str" where
  "put_says w m args s = with_args_says ''send '' ''(file) '' args
     (\<lambda>args s.
        if length args < 2 then putusage (argv0 args)
        else let (off, targ) = last args
             in case split_last COLON targ of
                  None \<Rightarrow> put_to_says w m args off targ s
                | Some (cp, t) \<Rightarrow>
                    if list_ex (\<lambda>a. COLON \<in> set (snd a)) (butlast (tl args)) then putusage (argv0 args)
                    else (case lookup_host w cp s of
                            None \<Rightarrow> lookup_says w m cp s
                          | Some s1 \<Rightarrow> put_to_says w m args (off + length cp + 1) t s1)) s"

fun get_loop_says :: "world \<Rightarrow> messages \<Rightarrow> arg list \<Rightarrow> nat \<Rightarrow> arg list \<Rightarrow> shell \<Rightarrow> str" where
  "get_loop_says w m args n [] s = []"
| "get_loop_says w m args n (a # as) s =
     (let single = (length args = 2 \<or> length args = 3 \<and> n = 1 \<and> COLON \<notin> set (snd (args ! 2)));
          fetch = (\<lambda>src s1.
            if single
            then (let (left, cp) = (if length args = 3 then (src, snd (args ! 2)) else tail src)
                  in if can_creat w cp then getting s1 left cp else open_says m cp)
            else (let (left, cp) = tail src
                  in if \<not> can_creat w cp then open_says m cp @ get_loop_says w m args (n + 1) as s1
                     else getting s1 left cp @
                          (if times_out w (Get left cp (tmode s1) (s_inn s1)) then []
                           else get_loop_says w m args (n + 1) as s1)))
      in case split_last COLON (snd a) of
           None \<Rightarrow> fetch (snd a) s
         | Some (hname, src) \<Rightarrow>
             (case lookup_host w hname s of
                None \<Rightarrow> lookup_says w m hname s @ get_loop_says w m args (n + 1) as s
              | Some s1 \<Rightarrow> fetch src s1))"

definition get_says :: "world \<Rightarrow> messages \<Rightarrow> arg list \<Rightarrow> shell \<Rightarrow> str" where
  "get_says w m args s = with_args_says ''get '' ''(files) '' args
     (\<lambda>args s.
        if length args < 2 then getusage (argv0 args)
        else if connected s = 0 \<and> list_ex (\<lambda>a. COLON \<notin> set (snd a)) (tl args) then getusage (argv0 args)
        else get_loop_says w m args 1 (tl args) s) s"

section \<open>A session\<close>

definition run_says :: "world \<Rightarrow> messages \<Rightarrow> cmd \<Rightarrow> arg list \<Rightarrow> shell \<Rightarrow> str" where
  "run_says w m c args s =
     (case c of
        Connect \<Rightarrow> setpeer_says w args s
      | Mode \<Rightarrow> modecmd_says args s
      | PutCmd \<Rightarrow> put_says w m args s
      | GetCmd \<Rightarrow> get_says w m args s
      | QuitCmd \<Rightarrow> []
      | Verbose \<Rightarrow> snd (setverbose s)
      | Trace \<Rightarrow> snd (settrace s)
      | Status \<Rightarrow> status s
      | Binary \<Rightarrow> snd (setbinary s)
      | Ascii \<Rightarrow> snd (setascii s)
      | Rexmt \<Rightarrow> setrexmt_says args s
      | Timeout \<Rightarrow> settimeout_says args s
      | Help \<Rightarrow> help_says args)"

definition command_says :: "world \<Rightarrow> messages \<Rightarrow> shell \<Rightarrow> str" where
  "command_says w m s =
     cbytes ''tftp> '' @
     (case c_fgets LINE_SIZE (input s) of
        None \<Rightarrow> []
      | Some (l, rest) \<Rightarrow>
          (if cstr l = [] then []
           else (case makeargv l of
                   None \<Rightarrow> []
                 | Some [] \<Rightarrow> []
                 | Some (a # as) \<Rightarrow>
                     (case getcmd (snd a) of
                        Ambiguous \<Rightarrow> cbytes ''?Ambiguous command'' @ [10]
                      | Invalid \<Rightarrow> cbytes ''?Invalid command'' @ [10]
                      | Found c \<Rightarrow> run_says w m c (a # as) (s\<lparr>input := rest\<rparr>)))))"

text \<open>A transfer that times out says so, and the loop starts again with an empty line.\<close>

fun session_says :: "world \<Rightarrow> messages \<Rightarrow> nat \<Rightarrow> shell \<Rightarrow> str" where
  "session_says w m 0 s = []"
| "session_says w m (Suc n) s =
     command_says w m s @
     (case command w s of
        Go s' ts \<Rightarrow> (if ts \<noteq> [] \<and> times_out w (last ts) then cbytes ''Transfer timed out.'' @ [10, 10] else []) @ session_says w m n s'
      | _ \<Rightarrow> [])"

section \<open>Reading the answers\<close>

lemma help_of_inject: "help_of c = help_of d \<longleftrightarrow> c = d"
proof -
  have "distinct (map help_of (enum_class.enum :: cmd list))"
    by (simp add: enum_cmd_def cmdtab_def help_of_def cbytes_def)
  then show ?thesis by (auto simp: distinct_map enum_UNIV dest: injD)
qed

lemma help_of_word: "help_of c \<noteq> 63 # r" "63 # r \<noteq> help_of c"
  by (cases c; simp add: help_of_def cbytes_def)+

lemma up_to_first:
  assumes "c \<notin> set xs" "c \<notin> set us" "xs @ c # ys = us @ c # vs"
  shows "xs = us \<and> ys = vs"
proof -
  have "takeWhile (\<lambda>x. x \<noteq> c) (zs @ c # ws) = zs" if "c \<notin> set zs" for zs ws
    using that by (induction zs) auto
  with assms have "xs = us" by metis
  with assms(3) show ?thesis by simp
qed

lemma print_int_inject:
  assumes "0 \<le> i" "0 \<le> j" "print_int i @ 32 # r = print_int j @ 32 # r'"
  shows "i = j \<and> r = r'"
proof -
  have d: "32 \<notin> set (decimal n)" for n using decimal_digits [of n] by (auto simp: c_isdigit_def word_le_def)
  have e: "decimal (nat i) = decimal (nat j) \<and> r = r'"
    by (rule up_to_first [OF d d]) (use assms in \<open>simp add: print_int_def\<close>)
  then have "int (nat i) = int (nat j)" using decimal_value by metis
  with e assms(1,2) show ?thesis by simp
qed

text \<open>The three lines of \<^verbatim>\<open>status\<close>.\<close>

definition peer_line :: "shell \<Rightarrow> str" where
  "peer_line s = (if connected s \<noteq> 0 then cbytes ''Connected to '' @ hostname s @ cbytes ''.'' else cbytes ''Not connected.'')"

definition mode_line :: "shell \<Rightarrow> str" where
  "mode_line s = cbytes ''Mode: '' @ tmode s @ cbytes '' Verbose: '' @ on_off (verbose s) @ cbytes '' Tracing: '' @ on_off (trace s)"

lemma status_lines:
  "status s = peer_line s @ 10 # mode_line s @ 10 # cbytes ''Rexmt-interval: '' @ print_int (trexmt s) @ 32 #
     cbytes ''seconds, Max-timeout: '' @ print_int (tmaxtimeout s) @ 32 # cbytes ''seconds'' @ [10]"
  by (simp add: status_def peer_line_def mode_line_def cbytes_def)

lemma peer_line_inject:
  "peer_line s = peer_line s' \<Longrightarrow>
    (connected s = 0 \<longleftrightarrow> connected s' = 0) \<and> (connected s \<noteq> 0 \<longrightarrow> hostname s = hostname s')"
  by (auto simp: peer_line_def cbytes_def split: if_splits)

lemma mode_line_inject:
  "known_mode (tmode s) \<Longrightarrow> known_mode (tmode s') \<Longrightarrow> mode_line s = mode_line s' \<Longrightarrow>
    tmode s = tmode s' \<and> verbose s = verbose s' \<and> trace s = trace s'"
  by (simp add: mode_line_def on_off_def known_mode_def cbytes_def split: if_splits)

lemma line_chars:
  "10 \<notin> set (hostname s) \<Longrightarrow> 10 \<notin> set (peer_line s)" "known_mode (tmode s) \<Longrightarrow> 10 \<notin> set (mode_line s)"
  by (auto simp: peer_line_def mode_line_def on_off_def known_mode_def cbytes_def split: if_splits)

text \<open>What a put says of its transfers.\<close>

fun announce :: "shell \<Rightarrow> transfer \<Rightarrow> str" where
  "announce s (Put local remote m a) = putting s local remote"
| "announce s (Get remote local m a) = getting s remote local"

lemma put_many_announces:
  "\<forall>f. can_open w f \<Longrightarrow> put_many w off targ as s = Some ts \<Longrightarrow> put_many_says w m off targ as s = concat (map (announce s) ts)"
  by (induction as arbitrary: ts) (auto simp: Let_def split: prod.splits if_splits)

lemma put_to_announces:
  assumes "\<forall>f. can_open w f" "put_to w args off targ s = Go s' ts" "ts \<noteq> []"
  shows "put_to_says w m args off targ s = concat (map (announce s') ts)"
  using assms put_many_announces [OF assms(1)]
  by (auto simp: put_to_def put_to_says_def Let_def split: if_splits option.splits prod.splits)

section \<open>Properties\<close>

text \<open>
  The help command understands abbreviations as the command loop does: the line it prints for
  a word is the help text of a command exactly when the word would run that command.
\<close>

theorem help_agrees_with_commands:
  "help_says [cmd, word] = help_of c @ [10] \<longleftrightarrow> getcmd (snd word) = Found c"
  by (auto simp: help_says_def help_of_inject help_of_word cbytes_def split: found.split)

text \<open>
  C39: the answer of \<^verbatim>\<open>status\<close> tells the settings: two states of a session (with a peer whose name is one line)
  that print the same have the same peer, mode, flags and timeouts.
\<close>

theorem status_tells_settings:
  assumes "sane s" "sane s'" "10 \<notin> set (hostname s)" "10 \<notin> set (hostname s')" "status s = status s'"
  shows "(connected s = 0 \<longleftrightarrow> connected s' = 0) \<and> (connected s \<noteq> 0 \<longrightarrow> hostname s = hostname s') \<and>
    tmode s = tmode s' \<and> verbose s = verbose s' \<and> trace s = trace s' \<and> trexmt s = trexmt s' \<and> tmaxtimeout s = tmaxtimeout s'"
proof -
  have k: "known_mode (tmode s)" "known_mode (tmode s')" "0 \<le> trexmt s" "0 \<le> trexmt s'" "0 \<le> tmaxtimeout s" "0 \<le> tmaxtimeout s'"
    using assms(1,2) by (simp_all add: sane_def)
  note eq = assms(5) [unfolded status_lines]
  note p = up_to_first [OF line_chars(1) [OF assms(3)] line_chars(1) [OF assms(4)] eq]
  note m = up_to_first [OF line_chars(2) [OF k(1)] line_chars(2) [OF k(2)] conjunct2 [OF p]]
  have r: "print_int (trexmt s) @ 32 # cbytes ''seconds, Max-timeout: '' @ print_int (tmaxtimeout s) @ 32 # cbytes ''seconds'' @ [10] =
      print_int (trexmt s') @ 32 # cbytes ''seconds, Max-timeout: '' @ print_int (tmaxtimeout s') @ 32 # cbytes ''seconds'' @ [10]"
    using m by simp
  note x = print_int_inject [OF k(3,4) r]
  have "tmaxtimeout s = tmaxtimeout s'" using x print_int_inject [OF k(5,6)] by simp
  with p m x peer_line_inject [of s s'] mode_line_inject [OF k(1,2)] show ?thesis by blast
qed

theorem status_tells_settings_witness:
  "let s = (shell_start [1])\<lparr>trexmt := 7\<rparr>; s' = (shell_start [2])\<lparr>trexmt := 7\<rparr>
   in tmode s = tmode s' \<and> trexmt s = trexmt s' \<and> status s = status s'"
  using status_tells_settings [of "(shell_start [1])\<lparr>trexmt := 7\<rparr>" "(shell_start [2])\<lparr>trexmt := 7\<rparr>"]
  by (simp add: shell_start_def sane_def known_mode_def status_def)

text \<open>
  A put that starts transfers says one line for each of them when \<^verbatim>\<open>verbose\<close> is on, with the
  local and the remote name and the mode of the transfer and the host they were resolved to, and nothing when it is
  off, if all its files can be opened.
\<close>

theorem put_announces:
  assumes "\<forall>f. can_open w f" "2 \<le> length args" "put w args s = Go s' ts" "ts \<noteq> []"
  shows "put_says w m args s = concat (map (announce s') ts)"
  using assms put_to_announces [OF assms(1) _ assms(4), of args]
  by (auto simp: put_def put_says_def with_args_def with_args_says_def put_args_def split: if_splits option.splits prod.splits)

theorem put_announces_witness:
  "let s = (shell_start [])\<lparr>verbose := True\<rparr>
   in put_says demo_world m [(0, cbytes ''put''), (4, cbytes ''a/b''), (8, cbytes ''h:c'')] s =
     cbytes ''putting a/b to h:c [netascii]'' @ [10]"
proof -
  have "put demo_world [(0, cbytes ''put''), (4, cbytes ''a/b''), (8, cbytes ''h:c'')] ((shell_start [])\<lparr>verbose := True\<rparr>) =
      Go ((shell_start [])\<lparr>verbose := True, s_inn := demo_addr, connected := family demo_addr, hostname := cbytes ''h''\<rparr>)
        [Put (cbytes ''a/b'') (cbytes ''c'') (cbytes ''netascii'') demo_addr]"
    by code_simp
  then show ?thesis
    using put_announces [of demo_world "[(0, cbytes ''put''), (4, cbytes ''a/b''), (8, cbytes ''h:c'')]" "(shell_start [])\<lparr>verbose := True\<rparr>"]
    by (simp add: demo_world_def putting_def shell_start_def COLON_def cbytes_def)
qed

end
