(* ===== verification/Tftpd_Send.thy ===== *)
theory Tftpd_Send
  imports Tftpd_Transfer
begin

text \<open>
  What the daemon's \<^verbatim>\<open>sendfile\<close> does on a readable file, whatever datagrams arrive and
  whenever the alarm goes off: the abstract transfer is the list \<open>file_blocks\<close> of the
  numbered data packets of the file, and the machine sends them in order, each as often
  as it likes, and the next one only once the one before is acknowledged.
\<close>

subsection \<open>The abstract transfer\<close>

definition nblocks :: "byte list \<Rightarrow> nat" where
  "nblocks d = length d div SEGSIZE + 1"

definition block_pkt :: "byte list \<Rightarrow> nat \<Rightarrow> datagram" where
  "block_pkt d k = data_pkt (of_nat (Suc k)) (chunk SEGSIZE k d)"

definition file_blocks :: "byte list \<Rightarrow> datagram list" where
  "file_blocks d = map (block_pkt d) [0..<nblocks d]"

text \<open>A fresh process that has opened the requested file; \<open>rb\<close> is the request packet.\<close>

definition start_srv :: "cfile \<Rightarrow> byte list \<Rightarrow> srv" where
  "start_srv f rb =
     \<lparr>fs = (f, subs_start), ackbuf = replicate PKTSIZE 0, rbuf = rb, dp = False, block = 0, sz = 0,
      timeout = 0, inq = [], out = [], phase = Waiting\<rparr>"

lemma block_pkt_next: "block_pkt d k \<noteq> block_pkt d (Suc k)"
proof
  assume "block_pkt d k = block_pkt d (Suc k)"
  then have "net_short (block_pkt d k) 2 = net_short (block_pkt d (Suc k)) 2" by simp
  then show False by (simp add: block_pkt_def wire_simps)
qed

lemma length_file_blocks [simp]: "length (file_blocks d) = nblocks d"
  by (simp add: file_blocks_def)

lemma take_file_blocks: "k < nblocks d \<Longrightarrow> take (Suc k) (file_blocks d) = take k (file_blocks d) @ [block_pkt d k]"
  by (simp add: file_blocks_def take_Suc_conv_app_nth)

lemma nblocks_last: "SEGSIZE * k \<le> length d \<Longrightarrow> k < nblocks d"
  by (simp add: nblocks_def size_defs)

lemma chunk_last:
  assumes "SEGSIZE * k \<le> length d" "length (chunk SEGSIZE k d) \<noteq> SEGSIZE"
  shows "Suc k = nblocks d"
proof -
  have "length d < SEGSIZE * Suc k"
    using assms(2) length_chunk_le [of SEGSIZE k d] by (intro chunk_short) simp
  with assms(1) show ?thesis by (simp add: nblocks_def size_defs)
qed

lemma remdups_adj_snoc:
  "remdups_adj (xs @ [y]) = (if xs \<noteq> [] \<and> last xs = y then remdups_adj xs else remdups_adj xs @ [y])"
proof (cases xs rule: rev_cases)
  case (snoc zs z)
  then show ?thesis using remdups_adj_append_two [of zs z y] by simp
qed simp

lemma last_remdups_adj_eq: "xs \<noteq> [] \<Longrightarrow> last (remdups_adj xs) = last xs"
  by (induction xs rule: remdups_adj.induct) auto

subsection \<open>The invariant\<close>

text \<open>
  Block k (counted from 0) is in flight: it is in the buffer, complete with its header,
  and the file position is behind it.
\<close>

definition send_inv :: "cfg \<Rightarrow> byte list \<Rightarrow> nat \<Rightarrow> srv \<Rightarrow> bool" where
  "send_inv c d k s \<longleftrightarrow>
     source_inv (convert c) (fs s) \<and> source_rest (convert c) (fs s) = drop (SEGSIZE * Suc k) d \<and>
     dp s = current (snd (fs s)) \<and> sz s = int (length (chunk SEGSIZE k d)) \<and>
     block s = of_nat (Suc k) \<and> take (nat (sz s + 4)) (dp_buf s) = block_pkt d k \<and>
     length (ackbuf s) = PKTSIZE \<and> SEGSIZE * k \<le> length d"

text \<open>What has been sent when block k is the last one sent.\<close>

definition sent_upto :: "byte list \<Rightarrow> nat \<Rightarrow> datagram list \<Rightarrow> bool" where
  "sent_upto d k ps \<longleftrightarrow> ps \<noteq> [] \<and> last ps = block_pkt d k \<and> remdups_adj ps = take (Suc k) (file_blocks d)"

lemma sent_again: "sent_upto d k ps \<Longrightarrow> sent_upto d k (ps @ [block_pkt d k])"
  by (simp add: sent_upto_def remdups_adj_snoc)

lemma sent_next:
  "sent_upto d k ps \<Longrightarrow> Suc k < nblocks d \<Longrightarrow> sent_upto d (Suc k) (ps @ [block_pkt d (Suc k)])"
  using block_pkt_next [of d k] by (simp add: sent_upto_def remdups_adj_snoc take_file_blocks)

lemma send_inv_frame:
  assumes "send_inv c d k s" "fs s' = fs s" "dp s' = dp s" "sz s' = sz s" "block s' = block s"
    "length (ackbuf s') = length (ackbuf s)"
  shows "send_inv c d k s'"
  using assms by (auto simp: send_inv_def dp_buf_def)

lemma send_data_inv:
  assumes "send_inv c d k s"
  shows "send_inv c d k (send_data c ok s)"
    "out (send_data c ok s) = out s @ (if ok then [block_pkt d k] else [])"
    "phase (send_data c ok s) = (if ok then Waiting else Aborted)"
    "inq (send_data c ok s) = inq s" "timeout (send_data c ok s) = timeout s"
  using assms source_ahead [of "convert c" "fs s"] read_ahead_current [of "convert c" "fs s"]
  by (auto simp: send_inv_def send_data_def transmit_def dp_buf_def)

text \<open>The top of the loop: the next block comes off the stream and into a packet.\<close>

definition loaded :: "cfg \<Rightarrow> int \<times> bool \<times> cfile \<times> subs \<Rightarrow> srv \<Rightarrow> srv" where
  "loaded c r s =
     (let (n, i, fs') = r; s1 = s\<lparr>fs := fs', dp := i, sz := n\<rparr>
      in (set_dp_buf (put_header (host c) DATA (block s1) (dp_buf s1)) s1)\<lparr>timeout := 0\<rparr>)"

lemma loaded_inv:
  assumes src: "source_inv (convert c) (fs s)" "source_rest (convert c) (fs s) = drop (SEGSIZE * k) d"
    and b: "block s = of_nat (Suc k)" and k: "SEGSIZE * k \<le> length d" and a: "length (ackbuf s) = PKTSIZE"
  shows "send_inv c d k (loaded c (readit (convert c) (fs s)) s)"
    "0 \<le> fst (readit (convert c) (fs s))"
proof -
  obtain n i f b' where r: "readit (convert c) (fs s) = (n, i, f, b')" by (metis prod_cases4)
  have tb: "take_block (convert c) (fs s) = (n, f, b')" using r by (simp add: take_block_def)
  note blk = dbuf_in.take_kth [OF src, unfolded tb, simplified]
  have i: "i = current b'" using readit_index [OF r] by simp
  define pb where "pb = put_header (host c) DATA (block s) (bbuf (bfs b' i))"
  define t where "t = s\<lparr>fs := (f, set_bbuf i pb b'), dp := i, sz := n, timeout := 0\<rparr>"
  have t: "loaded c (readit (convert c) (fs s)) s = t"
    using r by (simp add: loaded_def Let_def t_def pb_def set_dp_buf_def dp_buf_def)
  have len: "length (bbuf (bfs b' i)) = PKTSIZE" using source_bufs [OF blk(3)] .
  have n: "n = int (length (chunk SEGSIZE k d))"
    using blk(1) by simp
  have pl: "take (nat n) (drop 4 (bbuf (bfs b' i))) = chunk SEGSIZE k d"
    and cnt: "counter (bfs b' i) = n"
    using blk(2) r i by (auto simp: payload_def Let_def chunk_def readit_def split: prod.splits)
  have "take (nat (n + 4)) pb = hdr DATA (block s) @ take (nat n) (drop 4 (bbuf (bfs b' i)))"
    using take_put_header_ge [of "bbuf (bfs b' i)" "nat n" "host c" DATA "block s"] len n
    by (simp add: pb_def size_defs nat_add_distrib add.commute)
  then have pkt: "take (nat (n + 4)) pb = block_pkt d k"
    using pl b by (simp add: block_pkt_def data_pkt_def)
  show "send_inv c d k (loaded c (readit (convert c) (fs s)) s)"
    using source_set_bbuf [OF blk(3) i, of pb] blk(4) i n b k a pkt len unfolding t
    by (simp add: send_inv_def t_def dp_buf_def pb_def drop_put_header bf_simps add.commute)
  show "0 \<le> fst (readit (convert c) (fs s))" using r n by simp
qed

lemma next_data_inv:
  assumes src: "source_inv (convert c) (fs s)" "source_rest (convert c) (fs s) = drop (SEGSIZE * k) d"
    and b: "block s = of_nat (Suc k)" and k: "SEGSIZE * k \<le> length d" and a: "length (ackbuf s) = PKTSIZE"
  shows "send_inv c d k (next_data c ok s)"
    "out (next_data c ok s) = out s @ (if ok then [block_pkt d k] else [])"
    "phase (next_data c ok s) = (if ok then Waiting else Aborted)"
    "inq (next_data c ok s) = inq s" "timeout (next_data c ok s) = 0"
proof -
  let ?t = "loaded c (readit (convert c) (fs s)) s"
  have nd: "next_data c ok s = send_data c ok ?t"
    using loaded_inv(2) [OF assms]
    by (auto simp: next_data_def loaded_def Let_def split: prod.split)
  have "out ?t = out s" "inq ?t = inq s" "timeout ?t = 0"
    by (simp_all add: loaded_def set_dp_buf_def Let_def split: prod.split)
  with send_data_inv [OF loaded_inv(1) [OF assms], of ok] show "send_inv c d k (next_data c ok s)"
    "out (next_data c ok s) = out s @ (if ok then [block_pkt d k] else [])"
    "phase (next_data c ok s) = (if ok then Waiting else Aborted)"
    "inq (next_data c ok s) = inq s" "timeout (next_data c ok s) = 0"
    unfolding nd by simp_all
qed

subsection \<open>Every step keeps the transfer in order\<close>

definition in_order :: "byte list \<Rightarrow> datagram list \<Rightarrow> bool" where
  "in_order d ps \<longleftrightarrow> (\<exists>k\<le>nblocks d. remdups_adj ps = take k (file_blocks d))"

definition send_ok :: "cfg \<Rightarrow> byte list \<Rightarrow> srv \<Rightarrow> bool" where
  "send_ok c d s \<longleftrightarrow>
     (case phase s of
        Waiting \<Rightarrow> (\<exists>k. send_inv c d k s \<and> sent_upto d k (out s))
      | Finished \<Rightarrow> remdups_adj (out s) = file_blocks d
      | Dallying \<Rightarrow> False
      | _ \<Rightarrow> in_order d (out s))"

lemma send_ok_intros:
  "phase s = Waiting \<Longrightarrow> send_inv c d k s \<Longrightarrow> sent_upto d k (out s) \<Longrightarrow> send_ok c d s"
  "phase s = Finished \<Longrightarrow> remdups_adj (out s) = file_blocks d \<Longrightarrow> send_ok c d s"
  "phase s = Aborted \<Longrightarrow> in_order d (out s) \<Longrightarrow> send_ok c d s"
  "phase s = Exited n \<Longrightarrow> in_order d (out s) \<Longrightarrow> send_ok c d s"
  by (auto simp: send_ok_def)

lemma in_order_Nil: "in_order d []"
  by (auto simp: in_order_def)

lemma sent_in_order: "sent_upto d k ps \<Longrightarrow> k < nblocks d \<Longrightarrow> in_order d ps"
  unfolding sent_upto_def in_order_def by (intro exI [of _ "Suc k"]) auto

lemma send_inv_bound: "send_inv c d k s \<Longrightarrow> k < nblocks d"
  by (simp add: send_inv_def nblocks_last)

lemma send_data_ok:
  assumes "send_inv c d k s" "sent_upto d k (out s)"
  shows "send_ok c d (send_data c ok s)"
  using send_data_inv [OF assms(1), of ok] sent_again [OF assms(2)] assms
    sent_in_order [OF assms(2) send_inv_bound [OF assms(1)]]
  by (cases ok) (auto simp: send_ok_def)

lemma next_data_ok:
  assumes "send_inv c d k s" "sent_upto d k (out s)" "sz s = int SEGSIZE"
  shows "send_ok c d (next_data c ok (s\<lparr>block := block s + 1\<rparr>))"
proof -
  let ?s = "s\<lparr>block := block s + 1\<rparr>"
  have len: "SEGSIZE * Suc k \<le> length d"
    using assms(1,3) by (auto simp: send_inv_def chunk_def size_defs)
  have pre: "source_inv (convert c) (fs ?s)" "source_rest (convert c) (fs ?s) = drop (SEGSIZE * Suc k) d"
    "block ?s = of_nat (Suc (Suc k))" "length (ackbuf ?s) = PKTSIZE"
    using assms(1) by (simp_all add: send_inv_def)
  note nd = next_data_inv [OF pre(1-3) len pre(4), of ok]
  show ?thesis
    using nd sent_next [OF assms(2) nblocks_last [OF len]]
      sent_in_order [OF assms(2) send_inv_bound [OF assms(1)]]
    by (cases ok) (auto intro: send_ok_intros)
qed

lemma handle_ack_ok:
  assumes "send_inv c d k s" "sent_upto d k (out s)" "phase s = Waiting"
  shows "send_ok c d (handle_ack c ok p s)"
proof -
  define a where "a = ntoh_header (host c) (recv_into (ackbuf s) p)"
  let ?s = "s\<lparr>ackbuf := a\<rparr>"
  have len: "length a = length (ackbuf s)"
    using assms(1) by (simp add: a_def recv_into_def send_inv_def min_def)
  have inv: "send_inv c d k ?s" "send_inv c d k (?s\<lparr>inq := q\<rparr>)" for q
    using assms(1) len by (auto intro!: send_inv_frame [OF assms(1)])
  have wait: "send_ok c d ?s" "send_ok c d (?s\<lparr>inq := q\<rparr>)" for q
    using assms inv by (auto intro!: send_ok_intros(1) [of _ c d k])
  note resend = send_data_ok [OF inv(2)] and nxt = next_data_ok [OF inv(1)]
  have fin: "sz s \<noteq> int SEGSIZE \<Longrightarrow> remdups_adj (out s) = file_blocks d"
    using assms(1,2) chunk_last [of k d] by (auto simp: send_inv_def sent_upto_def)
  show ?thesis
    using assms(1,2,3) wait resend nxt fin sent_in_order [OF assms(2) send_inv_bound [OF assms(1)]]
    unfolding handle_ack_def Let_def a_def [symmetric]
    by (auto intro: send_ok_intros)
qed

lemma timer_ok:
  assumes "send_inv c d k s" "sent_upto d k (out s)"
  shows "send_ok c d (timer (send_data c ok) s)"
  using assms send_inv_frame [OF assms(1), of "s\<lparr>timeout := timeout s + rexmtval\<rparr>"]
    send_data_ok [of c d k "s\<lparr>timeout := timeout s + rexmtval\<rparr>" ok]
    sent_in_order [OF assms(2) send_inv_bound [OF assms(1)]]
  by (auto simp: timer_def Let_def send_ok_def)

lemma send_step_ok:
  assumes "send_ok c d s"
  shows "send_ok c d (send_step c e s)"
proof (cases "phase s = Waiting")
  case True
  then obtain k where inv: "send_inv c d k s" "sent_upto d k (out s)"
    using assms by (auto simp: send_ok_def)
  have fr: "send_inv c d k (s\<lparr>inq := q\<rparr>)" for q
    by (rule send_inv_frame [OF inv(1)]) simp_all
  have fr2: "send_inv c d k (s\<lparr>inq := q, ackbuf := recv_into (ackbuf s) p\<rparr>)" for q p
    using inv(1) by (intro send_inv_frame [OF inv(1)]) (auto simp: send_inv_def recv_into_def)
  show ?thesis
    using True inv fr handle_ack_ok [OF fr] timer_ok [OF inv] timer_ok [OF fr2]
      sent_in_order [OF inv(2) send_inv_bound [OF inv(1)]]
    by (cases e) (auto simp: send_ok_def split: list.split)
next
  case False
  with assms show ?thesis
    by (cases e; cases "phase s") (auto simp: send_ok_def in_order_def split: list.split)
qed

lemma send_run_ok: "send_ok c d s \<Longrightarrow> send_ok c d (send_run c es s)"
  unfolding send_run_def by (induction es arbitrary: s) (simp_all add: send_step_ok)

lemma sendfile_ok:
  "send_ok c (encoded (convert c) d) (sendfile c ok (start_srv (open_read d) rb))"
proof -
  obtain i b where ri: "r_init subs_start = (i, b)" by fastforce
  let ?s = "(start_srv (open_read d) rb)\<lparr>fs := (open_read d, b), dp := i, block := 1\<rparr>"
  note src = r_init_source(1,2) [where convert = "convert c", OF open_read_sound(1) bufs_ok_start ri]
  have pre: "source_inv (convert c) (fs ?s)"
    "source_rest (convert c) (fs ?s) = drop (SEGSIZE * 0) (encoded (convert c) d)"
    "block ?s = of_nat (Suc 0)" "SEGSIZE * 0 \<le> length (encoded (convert c) d)" "length (ackbuf ?s) = PKTSIZE"
    using src by (simp_all add: start_srv_def)
  note nd = next_data_inv [OF pre, of ok]
  have "take (Suc 0) (file_blocks (encoded (convert c) d)) = [block_pkt (encoded (convert c) d) 0]"
    by (subst take_file_blocks) (simp_all add: nblocks_def)
  then show ?thesis
    using nd ri
    by (cases ok)
      (auto simp: sendfile_def start_srv_def sent_upto_def in_order_Nil intro: send_ok_intros)
qed

subsection \<open>Progress\<close>

lemma ack_received:
  assumes "length b = PKTSIZE"
  shows "th_opcode e (ntoh_header e (recv_into b (ack_pkt n))) = ACK"
    "th_block e (ntoh_header e (recv_into b (ack_pkt n))) = n"
proof -
  have "length (ack_pkt n) \<le> length b" using assms by (simp add: wire_simps size_defs)
  then have "length (overlay b 0 (ack_pkt n)) = length b" by simp
  moreover have "take PKTSIZE (ack_pkt n) = ack_pkt n" by (simp add: wire_simps size_defs)
  ultimately show "th_opcode e (ntoh_header e (recv_into b (ack_pkt n))) = ACK"
    "th_block e (ntoh_header e (recv_into b (ack_pkt n))) = n"
    using assms by (simp_all add: recv_into_def wire_simps net_short_overlay size_defs)
qed

text \<open>The acknowledgement of the block in flight makes the machine send the next one.\<close>

lemma ack_progress:
  assumes "send_inv c d k s" "phase s = Waiting" "inq s = []"
  defines "t \<equiv> send_run c [Arrive (ack_pkt (of_nat (Suc k))), Recv True] s"
  shows "if Suc k = nblocks d then phase t = Finished \<and> out t = out s
     else send_inv c d (Suc k) t \<and> phase t = Waiting \<and> inq t = [] \<and>
          out t = out s @ [block_pkt d (Suc k)]"
proof -
  have b: "block s = of_nat (Suc k)" and a: "length (ackbuf s) = PKTSIZE"
    using assms(1) by (simp_all add: send_inv_def)
  let ?p = "ack_pkt (of_nat (Suc k))"
  let ?u = "s\<lparr>inq := [], ackbuf := ntoh_header (host c) (recv_into (ackbuf s) ?p), block := of_nat (Suc k) + 1\<rparr>"
  note ar = ack_received [OF a, of "host c" "of_nat (Suc k)"]
  have t: "t = (if sz s = int SEGSIZE then next_data c True ?u else ?u\<lparr>phase := Finished\<rparr>)"
    using assms(2,3) b ar
    by (simp add: t_def send_run_def handle_ack_def Let_def del: of_nat_Suc)
  show ?thesis
  proof (cases "sz s = int SEGSIZE")
    case True
    then have len: "SEGSIZE * Suc k \<le> length d"
      using assms(1) by (auto simp: send_inv_def chunk_def size_defs)
    have pre: "source_inv (convert c) (fs ?u)" "source_rest (convert c) (fs ?u) = drop (SEGSIZE * Suc k) d"
      "block ?u = of_nat (Suc (Suc k))" "length (ackbuf ?u) = PKTSIZE"
      using assms(1) by (simp_all add: send_inv_def recv_into_def)
    from next_data_inv [OF pre(1-3) len pre(4), of True] t True nblocks_last [OF len]
    show ?thesis by simp
  next
    case False
    then have "Suc k = nblocks d"
      using assms(1) by (intro chunk_last) (auto simp: send_inv_def)
    with False t show ?thesis by simp
  qed
qed

definition acks :: "nat \<Rightarrow> event list" where
  "acks n = concat (map (\<lambda>k. [Arrive (ack_pkt (of_nat (Suc k))), Recv True]) [0..<n])"

lemma acks_Suc: "acks (Suc n) = acks n @ [Arrive (ack_pkt (of_nat (Suc n))), Recv True]"
  by (simp add: acks_def)

lemma send_run_append: "send_run c (es @ es') s = send_run c es' (send_run c es s)"
  by (simp add: send_run_def)

lemma lossless_send:
  assumes "send_inv c d 0 s" "phase s = Waiting" "inq s = []" "out s = [block_pkt d 0]" "n < nblocks d"
  shows "send_inv c d n (send_run c (acks n) s) \<and> phase (send_run c (acks n) s) = Waiting \<and>
    inq (send_run c (acks n) s) = [] \<and> out (send_run c (acks n) s) = take (Suc n) (file_blocks d)"
  using assms(5)
proof (induction n)
  case 0
  have "take (Suc 0) (file_blocks d) = [block_pkt d 0]"
    by (subst take_file_blocks) (simp_all add: nblocks_def)
  with assms show ?case by (simp add: acks_def send_run_def)
next
  case (Suc n)
  then have IH: "send_inv c d n (send_run c (acks n) s)" "phase (send_run c (acks n) s) = Waiting"
    "inq (send_run c (acks n) s) = []" "out (send_run c (acks n) s) = take (Suc n) (file_blocks d)"
    by simp_all
  from ack_progress [OF IH(1-3)] Suc.prems IH(4) show ?case
    by (simp add: acks_Suc send_run_append take_file_blocks del: of_nat_Suc)
qed

lemma sendfile_start:
  fixes c d rb
  defines "s \<equiv> sendfile c True (start_srv (open_read d) rb)" and "e \<equiv> encoded (convert c) d"
  shows "send_inv c e 0 s" "phase s = Waiting" "inq s = []" "out s = [block_pkt e 0]" "timeout s = 0"
proof -
  obtain i b where ri: "r_init subs_start = (i, b)" by fastforce
  let ?s = "(start_srv (open_read d) rb)\<lparr>fs := (open_read d, b), dp := i, block := 1\<rparr>"
  note src = r_init_source(1,2) [where convert = "convert c", OF open_read_sound(1) bufs_ok_start ri]
  have pre: "source_inv (convert c) (fs ?s)" "source_rest (convert c) (fs ?s) = drop (SEGSIZE * 0) e"
    "block ?s = of_nat (Suc 0)" "SEGSIZE * 0 \<le> length e" "length (ackbuf ?s) = PKTSIZE"
    using src by (simp_all add: start_srv_def e_def)
  have "s = next_data c True ?s"
    using ri by (simp add: s_def sendfile_def start_srv_def)
  with next_data_inv [OF pre, of True] show "send_inv c e 0 s" "phase s = Waiting" "inq s = []"
    "out s = [block_pkt e 0]" "timeout s = 0"
    by (simp_all add: start_srv_def)
qed

subsection \<open>Giving up\<close>

lemma nonneg_timeout:
  "0 \<le> timeout s \<Longrightarrow> 0 \<le> timeout (send_step c e s)"
  by (cases e)
    (auto simp: timer_def handle_ack_def next_data_def send_data_def nak_def set_dp_buf_def
      transmit_def rexmtval_def TIMEOUT_def Let_def split: list.split prod.split)

lemma nonneg_timeout_run: "0 \<le> timeout s \<Longrightarrow> 0 \<le> timeout (send_run c es s)"
  unfolding send_run_def by (induction es arbitrary: s) (simp_all add: nonneg_timeout)

lemma send_alarm_counts:
  assumes "phase (send_step c (Alarm ok) s) = Waiting"
  shows "phase s = Waiting \<and> timeout (send_step c (Alarm ok) s) = timeout s + rexmtval \<and> timeout s + rexmtval < maxtimeout"
  using assms by (auto simp: timer_def send_data_def transmit_def Let_def split: if_splits)

interpretation send_timer: retransmission "\<lambda>s. phase s = Waiting" timeout "\<lambda>ok. send_step c (Alarm ok)" rexmtval maxtimeout for c
  by unfold_locales (rule send_alarm_counts)

lemma send_run_alarms: "send_run c (map Alarm oks) s = fold (\<lambda>ok. send_step c (Alarm ok)) oks s"
  by (simp add: send_run_def fold_map comp_def del: send_step.simps)

subsection \<open>The blocks are the file\<close>

lemma file_blocks_payload: "concat (map (drop TFTP_HEADER) (file_blocks d)) = d"
proof -
  have "map (drop TFTP_HEADER) (file_blocks d) = map (\<lambda>k. chunk SEGSIZE k d) [0..<nblocks d]"
    by (simp add: file_blocks_def block_pkt_def TFTP_HEADER_def wire_simps)
  moreover have "length d \<le> SEGSIZE * nblocks d"
    by (simp add: nblocks_def size_defs)
  ultimately show ?thesis by (simp add: concat_chunks)
qed

lemma file_blocks_lengths:
  assumes "k < nblocks d"
  shows "length (file_blocks d ! k) =
     (if Suc k < nblocks d then PKTSIZE else TFTP_HEADER + length d mod SEGSIZE)"
proof -
  have "file_blocks d ! k = block_pkt d k"
    using assms by (simp add: file_blocks_def del: upt_Suc)
  moreover have "Suc k < nblocks d \<Longrightarrow> 512 + k * 512 \<le> length d"
    by (simp add: nblocks_def size_defs less_eq_div_iff_mult_less_eq [symmetric])
  moreover have "\<not> Suc k < nblocks d \<Longrightarrow> k = length d div 512"
    using assms by (simp add: nblocks_def size_defs)
  ultimately show ?thesis
    by (auto simp: block_pkt_def wire_simps chunk_def size_defs minus_mult_div_eq_mod)
qed

lemma lossless_run:
  "let e = encoded (convert c) d;
       s = send_run c (acks (nblocks e)) (sendfile c True (start_srv (open_read d) rb))
   in phase s = Finished \<and> out s = file_blocks e"
proof -
  define e where "e = encoded (convert c) d"
  let ?s = "sendfile c True (start_srv (open_read d) rb)"
  have n: "nblocks e = Suc (nblocks e - 1)" by (simp add: nblocks_def)
  have len: "length e div SEGSIZE < nblocks e" by (simp add: nblocks_def)
  note st = sendfile_start [of c d rb, folded e_def]
  note l = lossless_send [OF st(1-4) len]
  let ?t = "send_run c (acks (length e div SEGSIZE)) ?s"
  have "send_run c (acks (nblocks e)) ?s =
      send_run c [Arrive (ack_pkt (of_nat (Suc (length e div SEGSIZE)))), Recv True] ?t"
    by (simp add: nblocks_def acks_Suc send_run_append)
  moreover have "Suc (length e div SEGSIZE) = nblocks e" by (simp add: nblocks_def)
  ultimately show ?thesis
    using ack_progress [of c e "length e div SEGSIZE" ?t] l
    by (simp add: Let_def e_def [symmetric])
qed

lemma send_ok_in_order: "send_ok c d s \<Longrightarrow> in_order d (out s)"
  by (cases "phase s")
    (auto simp: send_ok_def in_order_def intro: sent_in_order [unfolded in_order_def] dest: send_inv_bound)

section \<open>Properties\<close>

text \<open>
  C5: whatever datagrams the daemon receives, whatever calls of sendto fail and whenever the
  alarm goes off, sendfile on a readable file sends the file's numbered blocks in order:
  with immediate repetitions removed, what it has sent is a prefix of the list of the
  file's data packets (netascii-encoded in that mode).
\<close>

theorem daemon_sends_in_order:
  "in_order (encoded (convert c) d)
     (out (send_run c es (sendfile c ok (start_srv (open_read d) rb))))"
  by (rule send_ok_in_order [OF send_run_ok [OF sendfile_ok]])

text \<open>
  When sendfile ends at the bottom of its loop, every block of the file was sent, in
  order, and the payloads of the blocks, put together and decoded by the rules of the
  transfer mode, are the file.
\<close>

theorem daemon_send_complete:
  assumes "phase (send_run c es (sendfile c ok (start_srv (open_read d) rb))) = Finished"
  shows "decoded (convert c) (concat (map (drop TFTP_HEADER)
      (remdups_adj (out (send_run c es (sendfile c ok (start_srv (open_read d) rb))))))) = d"
proof -
  have "send_ok c (encoded (convert c) d) (send_run c es (sendfile c ok (start_srv (open_read d) rb)))"
    by (rule send_run_ok [OF sendfile_ok])
  with assms have "remdups_adj (out (send_run c es (sendfile c ok (start_srv (open_read d) rb)))) =
    file_blocks (encoded (convert c) d)"
    by (simp add: send_ok_def)
  then show ?thesis by (simp add: file_blocks_payload decoded_encoded)
qed

theorem daemon_send_complete_witness:
  "decoded True (concat (map (drop TFTP_HEADER)
     (remdups_adj (out (send_run \<lparr>host = Little, convert = True, strerror = \<lambda>_. []\<rparr>
        [Arrive (ack_pkt 1), Recv True]
        (sendfile \<lparr>host = Little, convert = True, strerror = \<lambda>_. []\<rparr> True
          (start_srv (open_read [65, LF]) []))))))) = [65, LF]"
proof -
  let ?c = "\<lparr>host = Little, convert = True, strerror = \<lambda>_. []\<rparr>"
  have ac: "acks (nblocks (encoded True [65, LF])) = [Arrive (ack_pkt 1), Recv True]"
    by (simp add: acks_def nblocks_def encoded_def SEGSIZE_def)
  have "phase (send_run ?c [Arrive (ack_pkt 1), Recv True]
      (sendfile ?c True (start_srv (open_read [65, LF]) []))) = Finished"
    using lossless_run [of ?c "[65, LF]" "[]"] by (simp add: Let_def ac del: send_step.simps)
  from daemon_send_complete [OF this] show ?thesis by simp
qed

text \<open>
  On a network that loses nothing, sendfile sends every block of the file exactly once
  and ends when the last one is acknowledged.
\<close>

theorem daemon_send_lossless:
  "let e = encoded (convert c) d;
       s = send_run c (acks (nblocks e)) (sendfile c True (start_srv (open_read d) rb))
   in phase s = Finished \<and> out s = file_blocks e"
  by (rule lossless_run)

text \<open>
  C6: the daemon never waits for ever: from any state a transfer can reach, on any file,
  five alarms in a row without a datagram end it, whether the retransmissions go out or not.
\<close>

theorem daemon_send_gives_up:
  "phase (send_run c (map Alarm [ok1, ok2, ok3, ok4, ok5])
     (send_run c es (sendfile c ok (start_srv f rb)))) \<noteq> Waiting"
proof -
  have "0 \<le> timeout (sendfile c ok (start_srv f rb))"
    by (auto simp: sendfile_def start_srv_def next_data_def send_data_def nak_def set_dp_buf_def
        transmit_def Let_def split: prod.split)
  then have "0 \<le> timeout (send_run c es (sendfile c ok (start_srv f rb)))" by (rule nonneg_timeout_run)
  then show ?thesis
    unfolding send_run_alarms by (intro send_timer.gives_up) (simp_all add: rexmtval_def maxtimeout_def TIMEOUT_def)
qed

end
