(* ===== verification/Tftp_Put.thy ===== *)
theory Tftp_Put
  imports Tftp_Client Tftpd_Send "HOL-Library.Sublist"
begin

text \<open>
  What the client's \<^verbatim>\<open>sendfile\<close> does.  Once the request is acknowledged it is the daemon's
  transfer: \<open>core\<close> maps a state of the client to a state of the daemon's machine, with
  the addresses and the packets sent so far (n copies of the request) forgotten, and the
  daemon's invariant holds of the image.
\<close>

fun core_phase :: "cphase \<Rightarrow> phase" where
  "core_phase CWaiting = Waiting"
| "core_phase CFinished = Finished"
| "core_phase CAborted = Aborted"
| "core_phase CTimedOut = Exited 1"
| "core_phase COverrun = Aborted"

definition core :: "nat \<Rightarrow> client \<Rightarrow> srv" where
  "core n s =
     \<lparr>fs = cfs s, ackbuf = cackbuf s, rbuf = [], dp = cdp s, block = cblock s, sz = csize s,
      timeout = ctimeout s, inq = map snd (cinq s), out = drop n (map snd (cout s)),
      phase = core_phase (cphase s)\<rparr>"

lemma core_sel [simp]:
  "fs (core n s) = cfs s" "ackbuf (core n s) = cackbuf s" "dp (core n s) = cdp s"
  "block (core n s) = cblock s" "sz (core n s) = csize s" "timeout (core n s) = ctimeout s"
  "inq (core n s) = map snd (cinq s)" "out (core n s) = drop n (map snd (cout s))"
  "phase (core n s) = core_phase (cphase s)" "dp_buf (core n s) = cdp_buf s"
  by (simp_all add: core_def dp_buf_def cdp_buf_def)

text \<open>The request in flight, and the data transfer behind it.\<close>

definition requested :: "nat \<Rightarrow> datagram \<Rightarrow> client \<Rightarrow> bool" where
  "requested n req s \<longleftrightarrow> n \<le> length (cout s) \<and> take n (map snd (cout s)) = replicate n req"

definition asking :: "cfg \<Rightarrow> byte list \<Rightarrow> datagram \<Rightarrow> client \<Rightarrow> bool" where
  "asking c d req s \<longleftrightarrow>
     source_inv (convert c) (cfs s) \<and> source_rest (convert c) (cfs s) = d \<and>
     cdp s = current (snd (cfs s)) \<and> cblock s = 0 \<and> take (nat (csize s + 4)) (cdp_buf s) = req \<and>
     length (cackbuf s) = PKTSIZE"

definition put_ok :: "cfg \<Rightarrow> byte list \<Rightarrow> datagram \<Rightarrow> client \<Rightarrow> bool" where
  "put_ok c d req s \<longleftrightarrow>
     (if firsttrip s
      then requested (length (cout s)) req s \<and> cphase s \<noteq> CFinished \<and>
           (cphase s = CWaiting \<longrightarrow> cout s \<noteq> [] \<and> asking c d req s)
      else (\<exists>n>0. requested n req s \<and> send_ok c d (core n s)))"

lemma requested_more:
  "requested n req s \<Longrightarrow> cout s' = cout s @ xs \<Longrightarrow> requested n req s'"
  by (simp add: requested_def)

lemma sent_upto_replicate:
  assumes "sent_upto d k (ps @ [block_pkt d k])" "0 < j"
  shows "sent_upto d k (ps @ replicate j (block_pkt d k))"
  using assms(2)
proof (induction j)
  case (Suc j)
  show ?case
  proof (cases j)
    case (Suc i)
    then have "sent_upto d k ((ps @ replicate j (block_pkt d k)) @ [block_pkt d k])"
      using Suc.IH by (intro sent_again) simp
    then show ?thesis by (simp add: replicate_append_same)
  qed (use assms(1) in simp)
qed simp

lemma csend_data_effect:
  fixes s c t v
  defines "s' \<equiv> csend_data c t v s" and "p \<equiv> take (nat (csize s + 4)) (cdp_buf s)"
  obtains j where "cout s' = cout s @ replicate j (from_addr s, p)" "0 < j \<longleftrightarrow> fst v"
    "cphase s' = (if fst v then CWaiting else CAborted)"
    "cfs s' = (if fst v then read_ahead (convert c) (cfs s) else cfs s)"
    "cackbuf s' = cackbuf s" "cdp s' = cdp s" "cblock s' = cblock s" "csize s' = csize s"
    "firsttrip s' = firsttrip s" "ctimeout s' = ctimeout s" "cinq s' = cinq s"
proof -
  obtain ok ok2 ok3 where v: "v = (ok, ok2, ok3)" by (metis prod_cases3)
  let ?j = "if \<not> ok then 0 else if resend_odd t \<and> unat (cblock s) mod 2 = 1
     then Suc (of_bool ok2 + of_bool ok3) else 1"
  show thesis
    by (rule that [of ?j])
      (auto simp: s'_def p_def v csend_data_def csendto_def Let_def)
qed

text \<open>Block k is in flight behind n copies of the request.\<close>

definition at_block :: "cfg \<Rightarrow> byte list \<Rightarrow> datagram \<Rightarrow> nat \<Rightarrow> nat \<Rightarrow> client \<Rightarrow> bool" where
  "at_block c d req n k s \<longleftrightarrow>
     \<not> firsttrip s \<and> cphase s = CWaiting \<and> 0 < n \<and> requested n req s \<and>
     send_inv c d k (core n s) \<and> sent_upto d k (out (core n s))"

lemma at_block_ok: "at_block c d req n k s \<Longrightarrow> put_ok c d req s"
  by (auto simp: at_block_def put_ok_def intro!: exI [of _ n] send_ok_intros(1))

text \<open>Sending block k, for the first time or again.\<close>

lemma csend_block:
  assumes inv: "send_inv c d k (core n s)" and old: "in_order d (out (core n s))"
    and new: "sent_upto d k (out (core n s) @ [block_pkt d k])"
    and n: "0 < n" "requested n req s" and ft: "\<not> firsttrip s"
  shows "put_ok c d req (csend_data c t v s)"
    "fst v \<Longrightarrow> at_block c d req n k (csend_data c t v s)"
proof -
  let ?s = "csend_data c t v s"
  have p: "take (nat (csize s + 4)) (cdp_buf s) = block_pkt d k"
    using inv unfolding send_inv_def core_sel by blast
  obtain j where e: "cout ?s = cout s @ replicate j (from_addr s, block_pkt d k)" "0 < j \<longleftrightarrow> fst v"
    "cphase ?s = (if fst v then CWaiting else CAborted)"
    "cfs ?s = (if fst v then read_ahead (convert c) (cfs s) else cfs s)"
    "cackbuf ?s = cackbuf s" "cdp ?s = cdp s" "cblock ?s = cblock s" "csize ?s = csize s"
    "firsttrip ?s = firsttrip s"
    by (rule csend_data_effect [of c t v s, unfolded p]) blast
  have o: "out (core n ?s) = out (core n s) @ replicate j (block_pkt d k)"
    using n(2) e(1) by (simp add: requested_def)
  note rq = requested_more [OF n(2) e(1)]
  have sent: "at_block c d req n k ?s" if "fst v"
  proof -
    have "send_inv c d k (core n ?s)"
      using send_data_inv(1) [OF inv, of True] e that
      by (auto simp: send_inv_def send_data_def transmit_def dp_buf_def cdp_buf_def)
    with that e(2,3,9) o rq n(1) ft sent_upto_replicate [OF new, of j] show ?thesis
      by (simp add: at_block_def del: core_sel)
  qed
  then show "fst v \<Longrightarrow> at_block c d req n k ?s" .
  show "put_ok c d req ?s"
  proof (cases "fst v")
    case True
    then show ?thesis using at_block_ok [OF sent] by blast
  next
    case False
    with e(2,3) o old have "send_ok c d (core n ?s)" by (intro send_ok_intros(3)) auto
    with rq n(1) ft e(9) show ?thesis by (auto simp: put_ok_def)
  qed
qed

text \<open>The next block is loaded, by the client as by the daemon.\<close>

lemma cnext_data_load:
  assumes "0 \<le> fst (readit (convert c) (cfs s))"
  obtains s' where "cnext_data c t v s = csend_data c t v s'"
    "core n s' = loaded c (readit (convert c) (cfs s)) (core n s)"
    "cout s' = cout s" "firsttrip s' = firsttrip s"
proof -
  obtain m i f b where r: "readit (convert c) (cfs s) = (m, i, f, b)" by (metis prod_cases4)
  let ?su = "s\<lparr>cfs := (f, b), cdp := i, csize := m\<rparr>"
  let ?s2 = "(set_cdp_buf (put_header (host c) DATA (cblock ?su) (cdp_buf ?su)) ?su)\<lparr>ctimeout := 0\<rparr>"
  show thesis
  proof (rule that [of ?s2])
    show "cnext_data c t v s = csend_data c t v ?s2"
      using assms r by (simp add: cnext_data_def Let_def)
    show "core n ?s2 = loaded c (readit (convert c) (cfs s)) (core n s)"
      by (simp add: r loaded_def core_def set_cdp_buf_def set_dp_buf_def cdp_buf_def dp_buf_def)
  qed (simp_all add: set_cdp_buf_def)
qed

lemma cnext_block:
  assumes src: "source_inv (convert c) (cfs s)" "source_rest (convert c) (cfs s) = drop (SEGSIZE * k) d"
    and b: "cblock s = of_nat (Suc k)" and k: "SEGSIZE * k \<le> length d" and a: "length (cackbuf s) = PKTSIZE"
    and old: "in_order d (out (core n s))" and new: "sent_upto d k (out (core n s) @ [block_pkt d k])"
    and n: "0 < n" "requested n req s" and ft: "\<not> firsttrip s"
  shows "put_ok c d req (cnext_data c t v s)"
    "fst v \<Longrightarrow> at_block c d req n k (cnext_data c t v s)"
proof -
  have src': "source_inv (convert c) (fs (core n s))" "source_rest (convert c) (fs (core n s)) = drop (SEGSIZE * k) d"
    "block (core n s) = of_nat (Suc k)" "length (ackbuf (core n s)) = PKTSIZE"
    using src b a by simp_all
  note l = loaded_inv [OF src'(1-3) k src'(4), unfolded core_sel(1)]
  obtain s' where s': "cnext_data c t v s = csend_data c t v s'"
    "core n s' = loaded c (readit (convert c) (cfs s)) (core n s)" "cout s' = cout s" "firsttrip s' = firsttrip s"
    by (rule cnext_data_load [OF l(2)])
  have o: "out (core n s') = out (core n s)" using s'(3) by simp
  have "send_inv c d k (core n s')" "in_order d (out (core n s'))"
    "sent_upto d k (out (core n s') @ [block_pkt d k])" "requested n req s'" "\<not> firsttrip s'"
    using l(1) s' old new ft n(2) unfolding o by (simp_all add: requested_def del: core_sel)
  from csend_block [OF this(1-3) n(1) this(4,5)] show "put_ok c d req (cnext_data c t v s)"
    "fst v \<Longrightarrow> at_block c d req n k (cnext_data c t v s)"
    unfolding s'(1) .
qed

subsection \<open>Every step keeps the transfer in order\<close>

lemma put_ok_asking:
  "firsttrip s \<Longrightarrow> requested (length (cout s)) req s \<Longrightarrow> cphase s = CWaiting \<Longrightarrow> cout s \<noteq> [] \<Longrightarrow>
   asking c d req s \<Longrightarrow> put_ok c d req s"
  "firsttrip s \<Longrightarrow> requested (length (cout s)) req s \<Longrightarrow> cphase s \<in> {CAborted, CTimedOut, COverrun} \<Longrightarrow>
   put_ok c d req s"
  by (auto simp: put_ok_def)

lemma put_ok_data:
  "\<not> firsttrip s \<Longrightarrow> 0 < n \<Longrightarrow> requested n req s \<Longrightarrow> send_ok c d (core n s) \<Longrightarrow> put_ok c d req s"
  by (auto simp: put_ok_def)

lemma requested_all:
  assumes "requested (length (cout s)) req s" "cout s' = cout s @ replicate j (a, req)"
  shows "requested (length (cout s')) req s'"
  using assms by (simp add: requested_def replicate_add)

lemma csend_request:
  assumes "asking c d req s" "requested (length (cout s)) req s" "firsttrip s"
  shows "put_ok c d req (csend_data c t v s)"
proof -
  let ?s = "csend_data c t v s"
  have p: "take (nat (csize s + 4)) (cdp_buf s) = req"
    using assms(1) unfolding asking_def by blast
  have src: "source_inv (convert c) (cfs s)" "cdp s = current (snd (cfs s))"
    using assms(1) by (simp_all add: asking_def)
  obtain j where e: "cout ?s = cout s @ replicate j (from_addr s, req)" "0 < j \<longleftrightarrow> fst v"
    "cphase ?s = (if fst v then CWaiting else CAborted)"
    "cfs ?s = (if fst v then read_ahead (convert c) (cfs s) else cfs s)"
    "cackbuf ?s = cackbuf s" "cdp ?s = cdp s" "cblock ?s = cblock s" "csize ?s = csize s"
    "firsttrip ?s = firsttrip s"
    by (rule csend_data_effect [of c t v s, unfolded p]) blast
  note r = requested_all [OF assms(2) e(1)]
  show ?thesis
  proof (cases "fst v")
    case True
    have "asking c d req ?s"
      using assms(1) p e True source_ahead [OF src(1)] read_ahead_current [OF src(1)]
      by (simp add: asking_def cdp_buf_def)
    with True r e assms(3) show ?thesis by (intro put_ok_asking(1)) auto
  next
    case False
    with r e assms(3) show ?thesis by (intro put_ok_asking(2)) auto
  qed
qed

lemma asking_frame:
  assumes "asking c d req s" "cfs s' = cfs s" "cdp s' = cdp s" "cblock s' = cblock s" "csize s' = csize s"
    "length (cackbuf s') = PKTSIZE"
  shows "asking c d req s'"
  using assms by (auto simp: asking_def cdp_buf_def)

lemma csynch_sel [simp]:
  "cfs (csynch s) = cfs s" "cdp (csynch s) = cdp s" "cblock (csynch s) = cblock s" "csize (csynch s) = csize s"
  "cackbuf (csynch s) = cackbuf s" "cout (csynch s) = cout s" "cphase (csynch s) = cphase s"
  "firsttrip (csynch s) = firsttrip s" "ctimeout (csynch s) = ctimeout s" "amount (csynch s) = amount s"
  by (simp_all add: csynch_def)

lemma first_block: "sent_upto d 0 [block_pkt d 0]"
  using take_file_blocks [of 0 d] by (simp add: sent_upto_def nblocks_def)

lemma chandle_ack_asking:
  assumes ask: "asking c d req s" and req: "requested (length (cout s)) req s"
    and st: "firsttrip s" "cphase s = CWaiting" "cout s \<noteq> []"
  shows "put_ok c d req (chandle_ack c t v p s)"
proof -
  define a where "a = ntoh_header (host c) (recv_into (cackbuf s) p)"
  let ?s = "s\<lparr>cackbuf := a\<rparr>"
  have len: "length a = PKTSIZE"
    using ask by (simp add: a_def recv_into_def asking_def min_def)
  have rq: "requested (length (cout ?s)) req ?s" "requested (length (cout (csynch ?s))) req (csynch ?s)"
    using req by (simp_all add: requested_def)
  have ask': "asking c d req ?s" "asking c d req (csynch ?s)"
    using len by (auto intro: asking_frame [OF ask])
  have stay: "put_ok c d req ?s" "put_ok c d req (csynch ?s)"
    by (rule put_ok_asking(1); use st rq ask' in simp)+
  let ?t = "s\<lparr>cackbuf := a, firsttrip := False, cblock := cblock s + 1\<rparr>"
  have go: "put_ok c d req (cnext_data c t v ?t)"
  proof (rule cnext_block(1) [where n = "length (cout s)" and k = 0])
    show "in_order d (out (core (length (cout s)) ?t))" by (simp add: in_order_Nil)
    show "sent_upto d 0 (out (core (length (cout s)) ?t) @ [block_pkt d 0])" by (simp add: first_block)
  qed (use ask len st rq in \<open>simp_all add: asking_def requested_def\<close>)
  have ab: "put_ok c d req (?s\<lparr>cphase := CAborted\<rparr>)"
    by (rule put_ok_asking(2); use st rq in \<open>simp add: requested_def\<close>)
  have "uint (cblock s) = 0" using ask by (simp add: asking_def)
  moreover have "0 \<le> uint (th_block (host c) a)" by simp
  ultimately have never: "uint (th_block (host c) a) \<noteq> uint (cblock s) - 1" by linarith
  show ?thesis
    using stay go ab never st(1) unfolding chandle_ack_def Let_def a_def [symmetric] by simp
qed

lemma chandle_ack_data:
  assumes inv: "send_inv c d k (core n s)" and out: "sent_upto d k (out (core n s))"
    and n: "0 < n" "requested n req s" and st: "\<not> firsttrip s" "cphase s = CWaiting"
  shows "put_ok c d req (chandle_ack c t v p s)"
proof -
  define a where "a = ntoh_header (host c) (recv_into (cackbuf s) p)"
  let ?s = "s\<lparr>cackbuf := a\<rparr>"
  have len: "length a = length (cackbuf s)"
    using inv by (simp add: a_def recv_into_def send_inv_def min_def)
  have inv': "send_inv c d k (core n ?s)" "send_inv c d k (core n (csynch ?s))"
    using len by (auto intro: send_inv_frame [OF inv])
  have rq: "requested n req ?s" "requested n req (csynch ?s)"
    using n(2) by (simp_all add: requested_def)
  note bound = send_inv_bound [OF inv] and old = sent_in_order [OF out send_inv_bound [OF inv]]
  have stay: "put_ok c d req ?s" "put_ok c d req (csynch ?s)"
    by (rule put_ok_data [where n = n]; use st rq n inv' out in \<open>auto intro: send_ok_intros(1)\<close>)+
  have again: "put_ok c d req (csend_data c t v (csynch ?s))"
    by (rule csend_block(1) [OF inv'(2)]; use old out n rq st in \<open>simp add: sent_again\<close>)
  let ?m = "?s\<lparr>amount := amount s + of_int (csize s)\<rparr>"
  have ab: "put_ok c d req (?s\<lparr>cphase := CAborted\<rparr>)"
    by (rule put_ok_data [where n = n]; use st rq n old in \<open>auto simp: requested_def intro: send_ok_intros(3)\<close>)
  have fin: "put_ok c d req (?m\<lparr>cphase := CFinished\<rparr>)" if "csize s \<noteq> int SEGSIZE"
  proof -
    have "Suc k = nblocks d"
      using inv that chunk_last [of k d] by (simp add: send_inv_def)
    with out have "remdups_adj (out (core n s)) = file_blocks d" by (simp add: sent_upto_def)
    then show ?thesis
      by (intro put_ok_data [where n = n]; use st rq n in \<open>auto simp: requested_def intro: send_ok_intros(2)\<close>)
  qed
  have nxt: "put_ok c d req (cnext_data c t v (?m\<lparr>cblock := cblock s + 1\<rparr>))" if sz: "csize s = int SEGSIZE"
  proof -
    have k: "SEGSIZE * Suc k \<le> length d" using inv sz by (auto simp: send_inv_def chunk_def size_defs)
    show ?thesis
    proof (rule cnext_block(1) [OF _ _ _ k, where n = n])
      show "sent_upto d (Suc k) (out (core n (?m\<lparr>cblock := cblock s + 1\<rparr>)) @ [block_pkt d (Suc k)])"
        using sent_next [OF out nblocks_last [OF k]] by simp
    qed (use inv len n rq st old in \<open>simp_all add: send_inv_def requested_def\<close>)
  qed
  show ?thesis
    using stay again ab fin nxt st(1) unfolding chandle_ack_def Let_def a_def [symmetric] by simp
qed


lemma put_ok_frame:
  assumes "put_ok c d req s" "cfs s' = cfs s" "cdp s' = cdp s" "cblock s' = cblock s" "csize s' = csize s"
    "length (cackbuf s') = length (cackbuf s)" "cout s' = cout s" "cphase s' = cphase s" "firsttrip s' = firsttrip s"
  shows "put_ok c d req s'"
proof (cases "firsttrip s")
  case True
  with assms show ?thesis
    using asking_frame [of c d req s s'] by (auto simp: put_ok_def requested_def asking_def [of c d req s])
next
  case False
  with assms(1) obtain n where n: "0 < n" "requested n req s" "send_ok c d (core n s)"
    by (auto simp: put_ok_def)
  have "send_ok c d (core n s')"
    using n(3) assms send_inv_frame [of c d _ "core n s" "core n s'"]
    by (auto simp: send_ok_def split: phase.splits)
  with False n assms(7,9) show ?thesis by (intro put_ok_data [where n = n]) (simp_all add: requested_def)
qed

lemma put_waiting:
  assumes "put_ok c d req s" "cphase s = CWaiting"
  obtains (ask) "firsttrip s" "requested (length (cout s)) req s" "cout s \<noteq> []" "asking c d req s"
  | (data) n k where "\<not> firsttrip s" "0 < n" "requested n req s" "send_inv c d k (core n s)"
      "sent_upto d k (out (core n s))"
  using assms by (auto simp: put_ok_def send_ok_def split: if_splits)

lemma chandle_ack_ok:
  assumes "put_ok c d req s" "cphase s = CWaiting"
  shows "put_ok c d req (chandle_ack c t v p s)"
  using assms(1,2)
proof (cases rule: put_waiting)
  case ask
  with assms(2) show ?thesis by (intro chandle_ack_asking)
next
  case (data n k)
  with assms(2) show ?thesis by (intro chandle_ack_data [of c d k n])
qed

lemma put_resend:
  assumes "put_ok c d req s" "cphase s = CWaiting"
  shows "put_ok c d req (csend_data c t v s)"
  using assms(1,2)
proof (cases rule: put_waiting)
  case ask
  then show ?thesis by (intro csend_request)
next
  case (data n k)
  then show ?thesis
    by (intro csend_block(1) [of c d k n])
      (simp_all add: sent_again sent_in_order [OF data(5) send_inv_bound [OF data(4)]] del: core_sel)
qed

lemma put_timeout:
  assumes "put_ok c d req s" "cphase s = CWaiting"
  shows "put_ok c d req (s\<lparr>cphase := CTimedOut\<rparr>)"
  using assms(1,2)
proof (cases rule: put_waiting)
  case ask
  then show ?thesis by (intro put_ok_asking(2)) (simp_all add: requested_def)
next
  case (data n k)
  then show ?thesis
    by (intro put_ok_data [where n = n])
      (auto simp: requested_def intro!: send_ok_intros(4)
        intro: sent_in_order [OF data(5) send_inv_bound [OF data(4)], simplified])
qed

lemma ctimer_put_ok:
  assumes "put_ok c d req s" "cphase s = CWaiting"
  shows "put_ok c d req (ctimer t (csend_data c t v) s)"
proof -
  let ?s = "s\<lparr>ctimeout := ctimeout s + crexmtval t\<rparr>"
  have "put_ok c d req ?s" by (rule put_ok_frame [OF assms(1)]) simp_all
  with assms(2) put_resend [of c d req ?s] put_timeout [of c d req ?s] show ?thesis
    by (simp add: ctimer_def Let_def)
qed

lemma csend_step_ok:
  assumes "put_ok c d req s"
  shows "put_ok c d req (csend_step c t e s)"
proof -
  have len: "length (cackbuf s) = PKTSIZE" if "cphase s = CWaiting"
    using assms that by (cases rule: put_waiting) (simp_all add: asking_def send_inv_def)
  have fr: "put_ok c d req (s\<lparr>cinq := q\<rparr>)" "put_ok c d req (s\<lparr>cinq := q, from_addr := a\<rparr>)" for q a
    by (rule put_ok_frame [OF assms]; simp)+
  have fr2: "put_ok c d req (s\<lparr>cinq := q, from_addr := a, cackbuf := recv_into (cackbuf s) p\<rparr>)"
    if "cphase s = CWaiting" for q a p
    by (rule put_ok_frame [OF assms]) (use len [OF that] in \<open>simp_all add: recv_into_def\<close>)
  show ?thesis
    using assms fr chandle_ack_ok [OF fr(2)] ctimer_put_ok [OF assms] ctimer_put_ok [OF fr2]
    by (cases e) (simp_all add: Let_def split: list.split)
qed

lemma csend_run_ok: "put_ok c d req s \<Longrightarrow> put_ok c d req (csend_run c t es s)"
  unfolding csend_run_def by (induction es arbitrary: s) (simp_all add: csend_step_ok del: csend_step.simps)


subsection \<open>The request\<close>

lemma request_not_block: "request_pkt op name mode \<notin> set (file_blocks d)" if "op = RRQ \<or> op = WRQ"
proof
  assume "request_pkt op name mode \<in> set (file_blocks d)"
  then obtain b x where "request_pkt op name mode = data_pkt b x"
    by (auto simp: file_blocks_def block_pkt_def)
  then have "net_short (request_pkt op name mode) 0 = net_short (data_pkt b x) 0" by simp
  with that show False by (auto simp: wire_simps opcode_defs)
qed

lemma csendfile_ok:
  assumes req: "length (request_pkt WRQ name mode) \<le> PKTSIZE" and b: "bufs_ok sb" "length ab = PKTSIZE"
  shows "put_ok c (encoded (convert c) d) (request_pkt WRQ name mode)
      (csendfile c t name mode v (client_start a sb ab (open_read d)))"
    "fst v \<Longrightarrow> cphase (csendfile c t name mode v (client_start a sb ab (open_read d))) = CWaiting"
    "firsttrip (csendfile c t name mode v (client_start a sb ab (open_read d)))"
    "cinq (csendfile c t name mode v (client_start a sb ab (open_read d))) = []"
    "ctimeout (csendfile c t name mode v (client_start a sb ab (open_read d))) = 0"
proof -
  let ?p = "request_pkt WRQ name mode" and ?st = "client_start a sb ab (open_read d)"
  obtain i b' where ri: "r_init sb = (i, b')" by fastforce
  note src = r_init_source(1,2) [where convert = "convert c", OF open_read_sound(1) b(1) ri]
    r_init_source(3) [OF open_read_sound(1) b(1) ri]
  let ?su = "?st\<lparr>cfs := (open_read d, b'), cdp := i, cblock := 0, amount := 0, firsttrip := True\<rparr>"
  have len: "length (bbuf (bfs b' i)) = PKTSIZE" by (rule source_bufs [OF src(1)])
  let ?n = "length ?p" and ?r = "?p @ drop (length ?p) (bbuf (bfs b' i))"
  have mk: "makerequest (host c) WRQ name mode (cdp_buf ?su) = Some (int ?n, ?r)"
    using makerequest_pkt [of WRQ name mode "bbuf (bfs b' i)" "host c"] req len by (simp add: cdp_buf_def)
  let ?s = "(set_cdp_buf ?r ?su)\<lparr>csize := int ?n - 4, ctimeout := 0\<rparr>"
  have go: "csendfile c t name mode v ?st = csend_data c t v ?s"
    using ri mk by (simp add: csendfile_def Let_def client_start_def)
  have rest: "bufs_ok (set_bbuf i ?r b')"
    using req len src(1) by (auto simp: bufs_ok_def bf_simps source_inv_def Let_def)
  have "source_inv (convert c) (open_read d, set_bbuf i ?r b')"
    "source_rest (convert c) (open_read d, set_bbuf i ?r b') = encoded (convert c) d"
    using src rest ri
    by (auto simp: source_inv_def source_rest_def stream_def ahead_bytes_def Let_def bf_simps
        r_init_def rw_init_def)
  then have "asking c (encoded (convert c) d) ?p ?s"
    using src(3) b(2) by (simp add: asking_def set_cdp_buf_def cdp_buf_def bf_simps client_start_def)
  moreover have "requested (length (cout ?s)) ?p ?s" "firsttrip ?s"
    by (simp_all add: requested_def set_cdp_buf_def client_start_def)
  ultimately show "put_ok c (encoded (convert c) d) ?p (csendfile c t name mode v ?st)"
    unfolding go by (rule csend_request)
  show "fst v \<Longrightarrow> cphase (csendfile c t name mode v ?st) = CWaiting"
    "firsttrip (csendfile c t name mode v ?st)" "cinq (csendfile c t name mode v ?st) = []"
    "ctimeout (csendfile c t name mode v ?st) = 0"
    unfolding go
    by (rule csend_data_effect [of c t v ?s]; simp add: set_cdp_buf_def client_start_def)+
qed

lemma remdups_adj_replicate_app:
  assumes "ys = [] \<or> hd ys \<noteq> x" "0 < n"
  shows "remdups_adj (replicate n x @ ys) = x # remdups_adj ys"
  using assms(2)
proof (induction n)
  case (Suc n)
  then show ?case using assms(1) by (cases n; cases ys) auto
qed simp

lemma remdups_blocks:
  assumes "remdups_adj ps = take k (file_blocks d)" "req \<notin> set (file_blocks d)" "0 < n"
  shows "remdups_adj (replicate n req @ ps) = req # take k (file_blocks d)"
proof -
  have "set ps \<subseteq> set (file_blocks d)"
    using assms(1) by (metis remdups_adj_set set_take_subset)
  with assms(2) have "ps = [] \<or> hd ps \<noteq> req" by (cases ps) auto
  from remdups_adj_replicate_app [OF this assms(3)] assms(1) show ?thesis by simp
qed

lemma put_ok_data_sent:
  assumes "put_ok c d req s" "\<not> firsttrip s"
  obtains n where "0 < n" "map snd (cout s) = replicate n req @ out (core n s)" "send_ok c d (core n s)"
proof -
  from assms obtain n where "0 < n" "requested n req s" "send_ok c d (core n s)"
    by (auto simp: put_ok_def)
  moreover from this have "map snd (cout s) = replicate n req @ out (core n s)"
    by (simp add: requested_def) (metis append_take_drop_id)
  ultimately show thesis using that by blast
qed

lemma put_ok_prefix:
  assumes ok: "put_ok c d req s" and req: "req \<notin> set (file_blocks d)"
  shows "prefix (remdups_adj (map snd (cout s))) (req # file_blocks d)"
proof (cases "firsttrip s")
  case True
  then have "map snd (cout s) = replicate (length (cout s)) req"
    using ok by (simp add: put_ok_def requested_def)
  then have "remdups_adj (map snd (cout s)) = (if cout s = [] then [] else [req])"
    by (metis length_0_conv remdups_adj_replicate)
  then show ?thesis by simp
next
  case False
  then obtain n where n: "0 < n" "map snd (cout s) = replicate n req @ out (core n s)" "send_ok c d (core n s)"
    by (rule put_ok_data_sent [OF ok])
  obtain k where "remdups_adj (out (core n s)) = take k (file_blocks d)"
    using send_ok_in_order [OF n(3)] unfolding in_order_def by blast
  from remdups_blocks [OF this req n(1)] show ?thesis unfolding n(2) by (simp add: take_is_prefix)
qed

lemma put_ok_finished:
  assumes ok: "put_ok c d req s" and req: "req \<notin> set (file_blocks d)" and fin: "cphase s = CFinished"
  shows "remdups_adj (map snd (cout s)) = req # file_blocks d"
proof -
  have ft: "\<not> firsttrip s" using ok fin by (auto simp: put_ok_def)
  obtain n where n: "0 < n" "map snd (cout s) = replicate n req @ out (core n s)" "send_ok c d (core n s)"
    by (rule put_ok_data_sent [OF ok ft])
  then have "remdups_adj (out (core n s)) = take (nblocks d) (file_blocks d)"
    using fin by (simp add: send_ok_def)
  from remdups_blocks [OF this req n(1)] show ?thesis unfolding n(2) by simp
qed


subsection \<open>Giving up\<close>

lemma csend_data_timeout: "ctimeout (csend_data c t v s) = ctimeout s"
  by (rule csend_data_effect [of c t v s]) blast

lemma cnext_data_timeout: "ctimeout s \<ge> 0 \<Longrightarrow> 0 \<le> ctimeout (cnext_data c t v s)"
  by (auto simp: cnext_data_def cnak_def csendto_def csend_data_timeout Let_def split: prod.split)

lemma chandle_ack_timeout: "0 \<le> ctimeout s \<Longrightarrow> 0 \<le> ctimeout (chandle_ack c t v p s)"
  by (auto simp: chandle_ack_def Let_def csend_data_timeout intro!: cnext_data_timeout)

lemma ctimer_timeout:
  "0 \<le> ctimeout s \<Longrightarrow> 0 < crexmtval t \<Longrightarrow> 0 \<le> ctimeout (ctimer t (csend_data c t v) s)"
  by (simp add: ctimer_def Let_def csend_data_timeout)

lemma csend_run_timeout:
  assumes "0 < crexmtval t" "0 \<le> ctimeout s"
  shows "0 \<le> ctimeout (csend_run c t es s)"
  using assms(2) unfolding csend_run_def
proof (induction es arbitrary: s)
  case (Cons e es)
  then have "0 \<le> ctimeout (csend_step c t e s)"
    using assms(1) by (cases e) (auto simp: Let_def chandle_ack_timeout ctimer_timeout split: list.split)
  with Cons.IH show ?case by simp
qed simp

lemma csend_run_append: "csend_run c t (es @ es') s = csend_run c t es' (csend_run c t es s)"
  by (simp add: csend_run_def)

lemma calarm_counts:
  assumes "crexmtval t \<noteq> 0" "cphase (csend_step c t (CAlarm v) s) = CWaiting"
  shows "cphase s = CWaiting \<and> ctimeout (csend_step c t (CAlarm v) s) = ctimeout s + crexmtval t \<and>
    ctimeout s + crexmtval t < cmaxtimeout t"
  using assms csend_data_timeout [of c t v "s\<lparr>ctimeout := ctimeout s + crexmtval t\<rparr>"]
  by (auto simp: ctimer_def Let_def split: if_splits)

interpretation put_timer: retransmission "\<lambda>s. cphase s = CWaiting" ctimeout "\<lambda>v. csend_step c t (CAlarm v)" "crexmtval t" "cmaxtimeout t"
  for c t by unfold_locales (rule calarm_counts)

lemma csend_run_alarms: "csend_run c t (map CAlarm vs) s = fold (\<lambda>v. csend_step c t (CAlarm v)) vs s"
  by (simp add: csend_run_def fold_map comp_def del: csend_step.simps)

subsection \<open>Progress\<close>

lemma csend_data_cinq: "cinq (csend_data c t v s) = cinq s"
  by (rule csend_data_effect [of c t v s]) blast

lemma cnext_data_cinq: "cinq (cnext_data c t v s) = cinq s"
  by (auto simp: cnext_data_def cnak_def csendto_def csend_data_cinq set_cdp_buf_def Let_def split: prod.split)

lemma ack_handled:
  assumes "cphase s = CWaiting" "cinq s = []" "length (cackbuf s) = PKTSIZE"
  obtains a where "length a = PKTSIZE"
    "csend_run c t [CArrive x (ack_pkt (cblock s)), CRecv v] s =
      (let s1 = s\<lparr>cinq := [], from_addr := x, cackbuf := a\<rparr>
       in if firsttrip s then cnext_data c t v (s1\<lparr>firsttrip := False, cblock := cblock s + 1\<rparr>)
          else if csize s \<noteq> int SEGSIZE
          then s1\<lparr>amount := amount s + of_int (csize s), cphase := CFinished\<rparr>
          else cnext_data c t v (s1\<lparr>amount := amount s + of_int (csize s), cblock := cblock s + 1\<rparr>))"
proof -
  let ?a = "ntoh_header (host c) (recv_into (cackbuf s) (ack_pkt (cblock s)))"
  have ne: "ack_pkt (cblock s) \<noteq> []" by (simp add: ack_pkt_def hdr_def)
  note f = ack_received [OF assms(3), of "host c" "cblock s"]
  show thesis
    by (rule that [of ?a])
      (use assms f ne in \<open>simp_all add: csend_run_def chandle_ack_def Let_def recv_into_def wire_simps size_defs\<close>)
qed

lemma request_acked:
  fixes t x
  assumes ask: "asking c d req s" and req: "requested (length (cout s)) req s"
    and st: "firsttrip s" "cphase s = CWaiting" "cout s \<noteq> []" "cinq s = []" and v: "fst v"
  defines "r \<equiv> csend_run c t [CArrive x (ack_pkt 0), CRecv v] s"
  shows "at_block c d req (length (cout s)) 0 r" "cinq r = []"
proof -
  have b: "cblock s = 0" "length (cackbuf s) = PKTSIZE" using ask by (simp_all add: asking_def)
  obtain a where a: "length a = PKTSIZE"
    "r = cnext_data c t v (s\<lparr>cinq := [], from_addr := x, cackbuf := a, firsttrip := False, cblock := cblock s + 1\<rparr>)"
    using ack_handled [OF st(2,4) b(2), of c t x v] st(1) b(1) unfolding r_def by (auto simp: Let_def)
  show "at_block c d req (length (cout s)) 0 r" unfolding a(2)
  proof (rule cnext_block(2) [OF _ _ _ _ _ _ _ _ _ _ v])
    let ?t = "s\<lparr>cinq := [], from_addr := x, cackbuf := a, firsttrip := False, cblock := cblock s + 1\<rparr>"
    show "in_order d (out (core (length (cout s)) ?t))" by (simp add: in_order_Nil)
    show "sent_upto d 0 (out (core (length (cout s)) ?t) @ [block_pkt d 0])" by (simp add: first_block)
  qed (use ask a(1) st req b in \<open>simp_all add: asking_def requested_def\<close>)
  show "cinq r = []" unfolding a(2) by (simp add: cnext_data_cinq)
qed

lemma block_acked:
  fixes t x
  assumes at: "at_block c d req n k s" and q: "cinq s = []" and v: "fst v"
  defines "r \<equiv> csend_run c t [CArrive x (ack_pkt (of_nat (Suc k))), CRecv v] s"
  shows "if Suc k = nblocks d then cphase r = CFinished else at_block c d req n (Suc k) r \<and> cinq r = []"
proof -
  have inv: "send_inv c d k (core n s)" and out: "sent_upto d k (out (core n s))" and n: "0 < n" "requested n req s"
    and st: "\<not> firsttrip s" "cphase s = CWaiting"
    using at by (simp_all add: at_block_def)
  have b: "cblock s = of_nat (Suc k)" "length (cackbuf s) = PKTSIZE"
    and sz: "csize s = int (length (chunk SEGSIZE k d))" and kd: "SEGSIZE * k \<le> length d"
    using inv by (simp_all add: send_inv_def)
  obtain a where a: "length a = PKTSIZE"
    "r = (let s1 = s\<lparr>cinq := [], from_addr := x, cackbuf := a\<rparr>
       in if csize s \<noteq> int SEGSIZE
          then s1\<lparr>amount := amount s + of_int (csize s), cphase := CFinished\<rparr>
          else cnext_data c t v (s1\<lparr>amount := amount s + of_int (csize s), cblock := cblock s + 1\<rparr>))"
    using ack_handled [OF st(2) q b(2), of c t x v] st(1) unfolding r_def b(1) [symmetric] by auto
  show ?thesis
  proof (cases "csize s = int SEGSIZE")
    case True
    have k: "SEGSIZE * Suc k \<le> length d" using True sz by (auto simp: chunk_def size_defs)
    let ?t = "s\<lparr>cinq := [], from_addr := x, cackbuf := a, amount := amount s + of_int (csize s), cblock := cblock s + 1\<rparr>"
    have r: "r = cnext_data c t v ?t" using a(2) True by (simp add: Let_def)
    have "at_block c d req n (Suc k) r" unfolding r
    proof (rule cnext_block(2) [OF _ _ _ k _ _ _ _ _ _ v])
      show "sent_upto d (Suc k) (out (core n ?t) @ [block_pkt d (Suc k)])"
        using sent_next [OF out nblocks_last [OF k]] by simp
      show "in_order d (out (core n ?t))"
        using sent_in_order [OF out send_inv_bound [OF inv]] by simp
    qed (use inv a(1) n st in \<open>simp_all add: send_inv_def requested_def\<close>)
    moreover have "Suc k \<noteq> nblocks d" using nblocks_last [OF k] by simp
    ultimately show ?thesis using r by (simp add: cnext_data_cinq)
  next
    case False
    with chunk_last [OF kd] sz have "Suc k = nblocks d" by simp
    with a(2) False show ?thesis by (simp add: Let_def)
  qed
qed

text \<open>The events of a network that loses nothing: every packet is acknowledged at once.\<close>

definition cacks :: "sockaddr \<Rightarrow> verdict \<Rightarrow> nat \<Rightarrow> cevent list" where
  "cacks x v n = concat (map (\<lambda>k. [CArrive x (ack_pkt (of_nat k)), CRecv v]) [0..<n])"

lemma cacks_Suc: "cacks x v (Suc n) = cacks x v n @ [CArrive x (ack_pkt (of_nat n)), CRecv v]"
  by (simp add: cacks_def)

lemma lossless_put:
  assumes "asking c d req s" "requested (length (cout s)) req s"
    "firsttrip s" "cphase s = CWaiting" "cout s \<noteq> []" "cinq s = []" "fst v" "k < nblocks d"
  shows "at_block c d req (length (cout s)) k (csend_run c t (cacks x v (Suc k)) s) \<and>
    cinq (csend_run c t (cacks x v (Suc k)) s) = []"
  using assms(8)
proof (induction k)
  case 0
  show ?case
    using request_acked [OF assms(1-7), of t x] by (simp add: cacks_def)
next
  case (Suc k)
  then have "at_block c d req (length (cout s)) k (csend_run c t (cacks x v (Suc k)) s)"
    "cinq (csend_run c t (cacks x v (Suc k)) s) = []"
    by simp_all
  from block_acked [OF this assms(7), of t x] Suc.prems show ?case
    unfolding cacks_Suc [of x v "Suc k"] csend_run_append by simp
qed

section \<open>Properties\<close>

text \<open>A call of \<^verbatim>\<open>sendfile(fd, name, mode)\<close> on a file with the contents d.\<close>

definition client_put ::
  "cfg \<Rightarrow> settings \<Rightarrow> byte list \<Rightarrow> byte list \<Rightarrow> verdict \<Rightarrow> client \<Rightarrow> cevent list \<Rightarrow> client" where
  "client_put c t name mode v s es =
     csend_run (mode_cfg c mode) t es (csendfile (mode_cfg c mode) t name mode v s)"

lemma client_put_ok:
  assumes "length (request_pkt WRQ name mode) \<le> PKTSIZE" "bufs_ok sb" "length ab = PKTSIZE"
  shows "put_ok (mode_cfg c mode) (encoded (mode = cbytes ''netascii'') d) (request_pkt WRQ name mode)
    (client_put c t name mode v (client_start a sb ab (open_read d)) es)"
  using csend_run_ok [OF csendfile_ok(1) [OF assms, of "mode_cfg c mode" d t v a]]
  by (simp add: client_put_def mode_cfg_def)

text \<open>
  C29: whatever the client receives from whomever, whatever calls of sendto fail and whenever
  the alarm goes off: what it sends when it puts a file is, with immediate repetitions
  removed, a prefix of the write request followed by the file's numbered data packets.
\<close>

theorem client_puts_in_order:
  assumes "length (request_pkt WRQ name mode) \<le> PKTSIZE" "bufs_ok sb" "length ab = PKTSIZE"
  shows "prefix (remdups_adj (map snd (cout (client_put c t name mode v (client_start a sb ab (open_read d)) es))))
    (request_pkt WRQ name mode # file_blocks (encoded (mode = cbytes ''netascii'') d))"
  by (rule put_ok_prefix [OF client_put_ok [OF assms] request_not_block]) simp

lemma bufs_start [simp]: "bufs_ok subs_start"
  by (simp add: bufs_ok_def subs_start_def)

lemma demo_request_fits:
  "length (request_pkt op (cbytes ''x'') (cbytes ''octet'')) \<le> PKTSIZE" "cbytes ''octet'' \<noteq> cbytes ''netascii''"
  by (simp_all add: wire_simps size_defs cbytes_def)

theorem client_puts_in_order_witness:
  "prefix (remdups_adj (map snd (cout (client_put demo_ccfg (demo_settings\<lparr>resend_odd := True\<rparr>) (cbytes ''x'')
      (cbytes ''octet'') (True, True, True) (client_start demo_addr subs_start (replicate PKTSIZE 0) (open_read [1]))
      [CAlarm (True, True, False)]))))
    [request_pkt WRQ (cbytes ''x'') (cbytes ''octet''), block_pkt [1] 0]"
  using client_puts_in_order [OF demo_request_fits(1), of subs_start "replicate PKTSIZE 0" demo_ccfg
      "demo_settings\<lparr>resend_odd := True\<rparr>" "(True, True, True)" demo_addr "[1]" "[CAlarm (True, True, False)]"]
  by (simp add: demo_request_fits(2) file_blocks_def nblocks_def encoded_def size_defs)

lemma lossless_client_put:
  fixes d
  assumes "length (request_pkt WRQ name mode) \<le> PKTSIZE" "bufs_ok sb" "length ab = PKTSIZE"
    and v: "fst v" "fst w"
  defines "e \<equiv> encoded (mode = cbytes ''netascii'') d"
  shows "cphase (client_put c t name mode v (client_start a sb ab (open_read d))
    (cacks x w (Suc (nblocks e)))) = CFinished"
proof -
  let ?c = "mode_cfg c mode"
  let ?s = "csendfile ?c t name mode v (client_start a sb ab (open_read d))"
  note st = csendfile_ok [OF assms(1-3), where c = ?c and d = d and t = t and v = v and a = a]
  have e: "encoded (convert ?c) d = e" by (simp add: mode_cfg_def e_def)
  have "asking ?c e (request_pkt WRQ name mode) ?s" "requested (length (cout ?s)) (request_pkt WRQ name mode) ?s"
    "cout ?s \<noteq> []"
    using put_waiting [OF st(1) st(2) [OF v(1)]] st(3) unfolding e by metis+
  moreover obtain k where k: "nblocks e = Suc k" by (auto simp: nblocks_def)
  moreover from this have "k < nblocks e" by simp
  ultimately have "at_block ?c e (request_pkt WRQ name mode) (length (cout ?s)) k (csend_run ?c t (cacks x w (Suc k)) ?s)"
    "cinq (csend_run ?c t (cacks x w (Suc k)) ?s) = []"
    using lossless_put [of ?c e _ ?s w k] st(2) [OF v(1)] st(3,4) v(2) by blast+
  from block_acked [OF this v(2), of t x] k show ?thesis
    unfolding client_put_def k cacks_Suc [of x w "Suc k"] csend_run_append by simp
qed

text \<open>
  when the client considers a put finished, it has sent the request and every block,
  and the payloads of the blocks decode to the file.
\<close>

theorem client_put_complete:
  assumes "length (request_pkt WRQ name mode) \<le> PKTSIZE" "bufs_ok sb" "length ab = PKTSIZE"
    and "cphase (client_put c t name mode v (client_start a sb ab (open_read d)) es) = CFinished"
  shows "\<exists>bs. remdups_adj (map snd (cout (client_put c t name mode v (client_start a sb ab (open_read d)) es))) =
      request_pkt WRQ name mode # bs \<and>
    decoded (mode = cbytes ''netascii'') (concat (map (drop TFTP_HEADER) bs)) = d"
  using put_ok_finished [OF client_put_ok [OF assms(1-3)] request_not_block assms(4)]
  by (simp add: file_blocks_payload decoded_encoded)

theorem client_put_complete_witness:
  "\<exists>bs. remdups_adj (map snd (cout (client_put demo_ccfg demo_settings (cbytes ''x'') (cbytes ''octet'')
        (True, True, True) (client_start demo_addr subs_start (replicate PKTSIZE 0) (open_read [1, 2]))
        (cacks demo_addr (True, True, True) 2)))) = request_pkt WRQ (cbytes ''x'') (cbytes ''octet'') # bs \<and>
    decoded False (concat (map (drop TFTP_HEADER) bs)) = [1, 2]"
proof -
  have "nblocks [1, 2] = 1" by (simp add: nblocks_def size_defs)
  then have "cphase (client_put demo_ccfg demo_settings (cbytes ''x'') (cbytes ''octet'')
      (True, True, True) (client_start demo_addr subs_start (replicate PKTSIZE 0) (open_read [1, 2]))
      (cacks demo_addr (True, True, True) 2)) = CFinished"
    using lossless_client_put [OF demo_request_fits(1), where sb = subs_start and ab = "replicate PKTSIZE 0"
        and v = "(True, True, True)" and w = "(True, True, True)" and d = "[1, 2]"]
    by (simp add: demo_request_fits(2) encoded_def numeral_2_eq_2)
  from client_put_complete [OF demo_request_fits(1) _ _ this] show ?thesis
    by (simp add: demo_request_fits(2))
qed

text \<open>
  On a network that loses nothing, a put ends, with files of any length, also when every odd
  block is sent three times.
\<close>

theorem client_put_lossless:
  assumes "length (request_pkt WRQ name mode) \<le> PKTSIZE" "bufs_ok sb" "length ab = PKTSIZE"
    and "fst v" "fst w"
  shows "cphase (client_put c t name mode v (client_start a sb ab (open_read d))
    (cacks x w (Suc (nblocks (encoded (mode = cbytes ''netascii'') d))))) = CFinished"
  by (rule lossless_client_put [OF assms])

theorem client_put_lossless_witness:
  "cphase (client_put demo_ccfg (demo_settings\<lparr>resend_odd := True\<rparr>) (cbytes ''x'') (cbytes ''octet'')
      (True, True, True) (client_start demo_addr subs_start (replicate PKTSIZE 0) (open_read (replicate 512 1)))
      (cacks demo_addr (True, True, True) 3)) = CFinished"
proof -
  have "nblocks (replicate 512 1) = 2" by (simp add: nblocks_def size_defs)
  then show ?thesis
    using client_put_lossless [OF demo_request_fits(1), where sb = subs_start and ab = "replicate PKTSIZE 0"
        and v = "(True, True, True)" and w = "(True, True, True)" and d = "replicate 512 1"]
    by (simp add: demo_request_fits(2) encoded_def)
qed

text \<open>
  With a retransmission interval above 0, a put ends after as many alarms in a row as there are
  intervals in the total timeout, whatever happened before and whatever the retransmissions meet.
\<close>

theorem client_put_gives_up:
  assumes "0 < crexmtval t" "vs \<noteq> []" "cmaxtimeout t \<le> int (length vs) * crexmtval t"
    and "length (request_pkt WRQ name mode) \<le> PKTSIZE" "bufs_ok sb" "length ab = PKTSIZE"
  shows "cphase (csend_run (mode_cfg c mode) t (map CAlarm vs)
    (client_put c t name mode w (client_start a sb ab (open_read d)) es)) \<noteq> CWaiting"
proof -
  have "0 \<le> ctimeout (client_put c t name mode w (client_start a sb ab (open_read d)) es)"
    unfolding client_put_def using assms(1) csendfile_ok(5) [OF assms(4-6)] by (intro csend_run_timeout) simp_all
  then show ?thesis unfolding csend_run_alarms by (intro put_timer.gives_up [OF assms(1) _ assms(2,3)])
qed

theorem client_put_gives_up_witness:
  "cphase (csend_run (mode_cfg demo_ccfg (cbytes ''octet'')) demo_settings
      (map CAlarm [(True, True, True), (False, True, True), (True, True, True), (True, True, True), (True, False, True)])
    (client_put demo_ccfg demo_settings (cbytes ''x'') (cbytes ''octet'') (True, True, True)
      (client_start demo_addr subs_start (replicate PKTSIZE 0) (open_read [])) [])) \<noteq> CWaiting"
  by (rule client_put_gives_up [OF _ _ _ demo_request_fits(1)]) (simp_all add: demo_settings_def)

end
