(* ===== verification/Tftpd_Recv.thy ===== *)
theory Tftpd_Recv
  imports Tftpd_Send
begin

text \<open>
  What the daemon's \<^verbatim>\<open>recvfile\<close> does when the datagrams it gets are \<open>honest\<close>: a data
  packet among them is one of the numbered blocks of the file being uploaded, in any
  order, lost or repeated at will, and everything else has at least a header.  The block
  numbers have 16 bits, so a file has at most 65536 blocks here.
\<close>

subsection \<open>The invariant\<close>

definition honest :: "byte list \<Rightarrow> datagram \<Rightarrow> bool" where
  "honest d p \<longleftrightarrow> TFTP_HEADER \<le> length p \<and> (net_short p 0 = DATA \<longrightarrow> p \<in> set (file_blocks d))"

fun honest_event :: "byte list \<Rightarrow> event \<Rightarrow> bool" where
  "honest_event d (Arrive p) = honest d p"
| "honest_event d _ = True"

definition numbered :: "byte list \<Rightarrow> bool" where
  "numbered d \<longleftrightarrow> nblocks d \<le> 65536"

text \<open>
  k blocks have been accepted and k is acknowledged.  The packet left in the buffer
  that is not in use is block k, or no data packet at all.
\<close>

definition stale_ok :: "cfg \<Rightarrow> nat \<Rightarrow> byte list \<Rightarrow> bool" where
  "stale_ok c k b \<longleftrightarrow> \<not> (th_opcode (host c) b = DATA \<and> th_block (host c) b \<noteq> of_nat k)"

definition recv_inv :: "cfg \<Rightarrow> byte list \<Rightarrow> nat \<Rightarrow> srv \<Rightarrow> bool" where
  "recv_inv c d k s \<longleftrightarrow>
     sink_inv (convert c) (fs s) \<and>
     sink_contents (convert c) (fs s) = decode_from (convert c) (take (SEGSIZE * k) d) ([], False) \<and>
     dp s = current (snd (fs s)) \<and> block s = of_nat (Suc k) \<and> length (ackbuf s) = PKTSIZE \<and>
     take 4 (ackbuf s) = ack_pkt (of_nat k) \<and> SEGSIZE * k \<le> length d \<and>
     stale_ok c k (bbuf (bfs (snd (fs s)) (\<not> dp s)))"

definition acked_upto :: "nat \<Rightarrow> datagram list \<Rightarrow> bool" where
  "acked_upto k ps \<longleftrightarrow> ps \<noteq> [] \<and> last ps = ack_pkt (of_nat k) \<and>
     remdups_adj ps = map (\<lambda>j. ack_pkt (of_nat j)) [0..<Suc k]"

lemma ack_pkt_inject [simp]: "ack_pkt m = ack_pkt n \<longleftrightarrow> m = n"
  by (simp add: ack_pkt_def)

lemma acked_again: "acked_upto k ps \<Longrightarrow> acked_upto k (ps @ [ack_pkt (of_nat k)])"
  by (simp add: acked_upto_def remdups_adj_snoc)

lemma acked_next: "acked_upto k ps \<Longrightarrow> acked_upto (Suc k) (ps @ [ack_pkt (of_nat (Suc k))])"
  by (simp add: acked_upto_def remdups_adj_snoc)

lemma recv_inv_frame:
  assumes "recv_inv c d k s" "fs s' = fs s" "dp s' = dp s" "block s' = block s" "ackbuf s' = ackbuf s"
  shows "recv_inv c d k s'"
  using assms by (auto simp: recv_inv_def)

text \<open>Writing into the buffer in use changes nothing the invariant speaks of.\<close>

lemma recv_inv_set_dp:
  assumes "recv_inv c d k s" "length b = PKTSIZE"
  shows "recv_inv c d k (set_dp_buf b s)"
proof -
  obtain f t where "fs s = (f, t)" by (cases "fs s")
  with assms sink_set_bbuf [of "convert c" f t "dp s" b] show ?thesis
    by (auto simp: recv_inv_def set_dp_buf_def bf_simps)
qed

lemma recv_inv_dp_len: "recv_inv c d k s \<Longrightarrow> length (dp_buf s) = PKTSIZE"
  by (cases "fs s") (auto simp: recv_inv_def dp_buf_def intro: sink_bufs)

lemma length_recv_into [simp]: "length b = PKTSIZE \<Longrightarrow> length (recv_into b p) = PKTSIZE"
  by (simp add: recv_into_def)

lemma send_ack_inv:
  assumes "recv_inv c d k s"
  shows "recv_inv c d k (send_ack c ok s)"
    "out (send_ack c ok s) = out s @ (if ok then [ack_pkt (of_nat k)] else [])"
    "phase (send_ack c ok s) = (if ok then Waiting else Aborted)"
    "inq (send_ack c ok s) = inq s"
    "ok \<Longrightarrow> fdata (fst (fs (send_ack c ok s))) = fst (sink_contents (convert c) (fs s))"
  using assms sink_flush [of "convert c" "fs s"]
  by (auto simp: recv_inv_def send_ack_def transmit_def)

lemma next_ack_inv:
  assumes snk: "sink_inv (convert c) (fs s)"
    "sink_contents (convert c) (fs s) = decode_from (convert c) (take (SEGSIZE * k) d) ([], False)"
    and s: "dp s = current (snd (fs s))" "block s = of_nat k" "length (ackbuf s) = PKTSIZE"
    "SEGSIZE * k \<le> length d" "stale_ok c k (bbuf (bfs (snd (fs s)) (\<not> dp s)))"
  shows "recv_inv c d k (next_ack c ok s)"
    "out (next_ack c ok s) = out s @ (if ok then [ack_pkt (of_nat k)] else [])"
    "phase (next_ack c ok s) = (if ok then Waiting else Aborted)"
    "inq (next_ack c ok s) = inq s"
    "ok \<Longrightarrow> fdata (fst (fs (next_ack c ok s))) = fst (sink_contents (convert c) (fs s))"
proof -
  let ?t = "s\<lparr>timeout := 0, ackbuf := put_header (host c) ACK (block s) (ackbuf s), block := block s + 1\<rparr>"
  have "recv_inv c d k ?t"
    using assms by (simp add: recv_inv_def wire_simps ack_pkt_def size_defs)
  from send_ack_inv [OF this, of ok] show "recv_inv c d k (next_ack c ok s)"
    "out (next_ack c ok s) = out s @ (if ok then [ack_pkt (of_nat k)] else [])"
    "phase (next_ack c ok s) = (if ok then Waiting else Aborted)"
    "inq (next_ack c ok s) = inq s"
    "ok \<Longrightarrow> fdata (fst (fs (next_ack c ok s))) = fst (sink_contents (convert c) (fs s))"
    by (simp_all add: next_ack_def)
qed

subsection \<open>Accepting a block\<close>

lemma take_chunk_app: "SEGSIZE * k \<le> length d \<Longrightarrow> take (SEGSIZE * k) d @ chunk SEGSIZE k d = take (SEGSIZE * Suc k) d"
  by (rule take_chunk)

lemma chunk_stored:
  assumes inv: "sink_inv v u" and con: "sink_contents v u = decode_from v (take (SEGSIZE * k) d) ([], False)"
    and pl: "take (length (chunk SEGSIZE k d)) (drop 4 (bbuf (bfs (snd u) (current (snd u))))) = chunk SEGSIZE k d"
    and w: "writeit v (int (length (chunk SEGSIZE k d))) u = (n, i, f, t)"
  shows "n = int (length (chunk SEGSIZE k d))" "i = current t" "i = (\<not> current (snd u))"
    "sink_inv v (f, t)" "bbuf (bfs t j) = bbuf (bfs (snd u) j)"
    "sink_contents v (f, t) = decode_from v (take (SEGSIZE * Suc k) d) ([], False)"
proof -
  have pb: "put_block v (int (length (chunk SEGSIZE k d))) u = (n, f, t)"
    using w by (simp add: put_block_def)
  note put = sink_put(4,5) [OF inv length_chunk_le [of SEGSIZE k d], unfolded pb, simplified]
    dbuf_out.put_count [OF inv length_chunk_le [of SEGSIZE k d], unfolded pb, simplified]
  have "dbuf_out.holds v SEGSIZE d k u" using inv con by (simp add: dbuf_out.holds_def)
  from dbuf_out.put_kth [OF this] pl have h: "dbuf_out.holds v SEGSIZE d (Suc k) (f, t)"
    by (simp add: staged_def pb)
  then show "n = int (length (chunk SEGSIZE k d))" "i = current t" "i = (\<not> current (snd u))"
    "sink_inv v (f, t)" "bbuf (bfs t j) = bbuf (bfs (snd u) j)"
    "sink_contents v (f, t) = decode_from v (take (SEGSIZE * Suc k) d) ([], False)"
    using put writeit_index [OF w] by (simp_all add: dbuf_out.holds_def)
qed

lemma put_chunk:
  assumes "recv_inv c d k s"
    and "take (length (chunk SEGSIZE k d)) (drop 4 (dp_buf s)) = chunk SEGSIZE k d"
    and w: "writeit (convert c) (int (length (chunk SEGSIZE k d))) (fs s) = (n, i, f, t)"
  shows "n = int (length (chunk SEGSIZE k d))" "i = current t" "i = (\<not> dp s)"
    "sink_inv (convert c) (f, t)"
    "sink_contents (convert c) (f, t) = decode_from (convert c) (take (SEGSIZE * Suc k) d) ([], False)"
    "bbuf (bfs t j) = bbuf (bfs (snd (fs s)) j)"
proof -
  have inv: "sink_inv (convert c) (fs s)" "dp s = current (snd (fs s))"
    "sink_contents (convert c) (fs s) = decode_from (convert c) (take (SEGSIZE * k) d) ([], False)"
    using assms(1) by (simp_all add: recv_inv_def)
  note st = chunk_stored [OF inv(1,3) assms(2) [unfolded dp_buf_def inv(2)] w]
  show "n = int (length (chunk SEGSIZE k d))" "i = current t" "i = (\<not> dp s)"
    "sink_inv (convert c) (f, t)" "bbuf (bfs t j) = bbuf (bfs (snd (fs s)) j)"
    "sink_contents (convert c) (f, t) = decode_from (convert c) (take (SEGSIZE * Suc k) d) ([], False)"
    using st inv(2) by simp_all
qed

text \<open>The header of an accepted block stays in its buffer, in host order.\<close>

lemma data_received:
  fixes e :: endian
  assumes "length b = PKTSIZE" "k < nblocks d"
  defines "b' \<equiv> ntoh_header e (recv_into b (block_pkt d k))"
  shows "th_opcode e b' = DATA" "th_block e b' = of_nat (Suc k)"
    "recv_len (block_pkt d k) - 4 = int (length (chunk SEGSIZE k d))"
    "take (length (chunk SEGSIZE k d)) (drop 4 b') = chunk SEGSIZE k d" "length b' = PKTSIZE"
proof -
  let ?p = "block_pkt d k"
  have len: "length ?p = 4 + length (chunk SEGSIZE k d)" "length (chunk SEGSIZE k d) \<le> SEGSIZE"
    by (simp_all add: block_pkt_def wire_simps length_chunk_le)
  then have pk: "length ?p \<le> PKTSIZE" by (simp add: size_defs)
  then have tk: "take PKTSIZE ?p = ?p" by simp
  have lo: "length (overlay b 0 ?p) = PKTSIZE" using pk assms(1) by simp
  have b': "b' = ntoh_header e (overlay b 0 ?p)" by (simp add: b'_def recv_into_def tk)
  have "4 \<le> length (overlay b 0 ?p)" using lo by (simp add: size_defs)
  then have "th_opcode e b' = net_short ?p 0" "th_block e b' = net_short ?p 2"
    unfolding b' using len(1) by (simp_all add: ntoh_header_opcode ntoh_header_block net_short_overlay)
  then show "th_opcode e b' = DATA" "th_block e b' = of_nat (Suc k)"
    by (simp_all add: block_pkt_def wire_simps)
  show "recv_len ?p - 4 = int (length (chunk SEGSIZE k d))"
    using len by (simp add: recv_len_def tk)
  have "take (length (chunk SEGSIZE k d)) (drop 4 (overlay b 0 ?p)) = drop 4 (take (length ?p) (overlay b 0 ?p))"
    using len by (simp add: drop_take)
  also have "\<dots> = chunk SEGSIZE k d"
    by (simp add: take_overlay_0) (simp add: block_pkt_def wire_simps)
  finally show "take (length (chunk SEGSIZE k d)) (drop 4 b') = chunk SEGSIZE k d"
    by (simp add: b'_def recv_into_def tk drop_ntoh_header)
  show "length b' = PKTSIZE" using lo by (simp add: b'_def recv_into_def tk)
qed

subsection \<open>Every step keeps the file and the acknowledgements in step\<close>

definition acks_sent :: "byte list \<Rightarrow> datagram list \<Rightarrow> bool" where
  "acks_sent d ps \<longleftrightarrow> ps = [] \<or> (\<exists>k\<le>nblocks d. acked_upto k ps)"

definition acks_part :: "byte list \<Rightarrow> datagram list \<Rightarrow> bool" where
  "acks_part d ps \<longleftrightarrow> ps = [] \<or> (\<exists>k<nblocks d. acked_upto k ps)"

lemma acks_part_sent: "acks_part d ps \<Longrightarrow> acks_sent d ps"
  by (auto simp: acks_part_def acks_sent_def intro: less_imp_le)

text \<open>The file on disk once the first k blocks have been written.\<close>

definition saved :: "cfg \<Rightarrow> byte list \<Rightarrow> nat \<Rightarrow> byte list" where
  "saved c d k = fst (decode_from (convert c) (take (SEGSIZE * k) d) ([], False))"

definition on_disk :: "srv \<Rightarrow> byte list" where
  "on_disk s = fdata (fst (fs s))"

definition no_reack :: "cfg \<Rightarrow> srv \<Rightarrow> bool" where
  "no_reack c s \<longleftrightarrow> \<not> (th_opcode (host c) (dp_buf s) = DATA \<and> block s = th_block (host c) (dp_buf s))"

definition done_ok :: "cfg \<Rightarrow> byte list \<Rightarrow> srv \<Rightarrow> bool" where
  "done_ok c d s \<longleftrightarrow> on_disk s = decoded (convert c) d \<and> acks_sent d (out s)"

definition recv_ok :: "cfg \<Rightarrow> byte list \<Rightarrow> srv \<Rightarrow> bool" where
  "recv_ok c d s \<longleftrightarrow>
     (case phase s of
        Waiting \<Rightarrow> (\<exists>k. recv_inv c d k s \<and> acked_upto k (out s) \<and> on_disk s = saved c d k)
      | Dallying \<Rightarrow> done_ok c d s \<and> no_reack c s
      | Finished \<Rightarrow> done_ok c d s
      | Exited n \<Rightarrow> if n = 0 then done_ok c d s else acks_part d (out s)
      | Aborted \<Rightarrow> acks_part d (out s))"

lemma recv_ok_intros:
  "phase s = Waiting \<Longrightarrow> recv_inv c d k s \<Longrightarrow> acked_upto k (out s) \<Longrightarrow> on_disk s = saved c d k \<Longrightarrow> recv_ok c d s"
  "phase s = Aborted \<Longrightarrow> acks_part d (out s) \<Longrightarrow> recv_ok c d s"
  "phase s = Exited 1 \<Longrightarrow> acks_part d (out s) \<Longrightarrow> recv_ok c d s"
  "phase s = Dallying \<Longrightarrow> done_ok c d s \<Longrightarrow> no_reack c s \<Longrightarrow> recv_ok c d s"
  by (auto simp: recv_ok_def)

lemma acked_sent: "acked_upto k ps \<Longrightarrow> k \<le> nblocks d \<Longrightarrow> acks_sent d ps"
  by (auto simp: acks_sent_def)

lemma acked_part: "acked_upto k ps \<Longrightarrow> k < nblocks d \<Longrightarrow> acks_part d ps"
  by (auto simp: acks_part_def)

lemma recv_inv_bound: "recv_inv c d k s \<Longrightarrow> k < nblocks d"
  by (simp add: recv_inv_def nblocks_last)

lemma recv_ok_acks:
  assumes "recv_ok c d s"
  shows "acks_sent d (out s)"
proof (cases "phase s")
  case Waiting
  with assms obtain k where "recv_inv c d k s" "acked_upto k (out s)" by (auto simp: recv_ok_def)
  then show ?thesis using acked_sent [of k "out s" d] recv_inv_bound [of c d k s] by simp
qed (use assms in \<open>auto simp: recv_ok_def done_ok_def dest: acks_part_sent split: if_splits\<close>)

lemma saved_contents:
  "recv_inv c d k s \<Longrightarrow> fst (sink_contents (convert c) (fs s)) = saved c d k"
  by (simp add: recv_inv_def saved_def)

lemma send_ack_ok:
  assumes "recv_inv c d k s" "acked_upto k (out s)"
  shows "recv_ok c d (send_ack c ok s)"
  using send_ack_inv [OF assms(1), of ok] acked_again [OF assms(2)] saved_contents [OF assms(1)]
    acked_part [OF assms(2), of d] recv_inv_bound [OF assms(1)]
  by (cases ok) (auto intro: recv_ok_intros simp: on_disk_def)

lemma accept_block_ok:
  assumes inv: "recv_inv c d k s" and out: "acked_upto k (out s)"
    and hd: "th_opcode (host c) (dp_buf s) = DATA" "th_block (host c) (dp_buf s) = of_nat (Suc k)"
    and pl: "take (length (chunk SEGSIZE k d)) (drop 4 (dp_buf s)) = chunk SEGSIZE k d"
    and n: "n - 4 = int (length (chunk SEGSIZE k d))"
  shows "recv_ok c d (accept_block c ok n s) \<and>
    (ok \<longrightarrow> out (accept_block c ok n s) = out s @ [ack_pkt (of_nat (Suc k))] \<and>
      (if Suc k = nblocks d then phase (accept_block c ok n s) = Dallying
       else phase (accept_block c ok n s) = Waiting \<and> recv_inv c d (Suc k) (accept_block c ok n s)))"
proof -
  let ?n = "int (length (chunk SEGSIZE k d))"
  obtain m i f t where w: "writeit (convert c) ?n (fs s) = (m, i, f, t)" by (metis prod_cases4)
  note put = put_chunk [OF inv pl w]
  define s1 where "s1 = s\<lparr>fs := (f, t), dp := i, sz := ?n\<rparr>"
  have ab: "accept_block c ok n s = (if ?n = int SEGSIZE then next_ack c ok s1 else finish c ok s1)"
    using w put(1) n by (simp add: accept_block_def s1_def)
  have stale: "stale_ok c (Suc k) (bbuf (bfs t (\<not> i)))"
    using put(3,6) hd(2) by (simp add: stale_ok_def dp_buf_def)
  have other: "stale_ok c k (bbuf (bfs t i))"
    using inv put(3,6) by (auto simp: recv_inv_def)
  have b: "block s1 = of_nat (Suc k)" "length (ackbuf s1) = PKTSIZE" "out s1 = out s"
    using inv by (simp_all add: s1_def recv_inv_def)
  show ?thesis
  proof (cases "?n = int SEGSIZE")
    case True
    then have len: "SEGSIZE * Suc k \<le> length d"
      using inv by (auto simp: recv_inv_def chunk_def size_defs)
    have pre: "sink_inv (convert c) (fs s1)"
      "sink_contents (convert c) (fs s1) = decode_from (convert c) (take (SEGSIZE * Suc k) d) ([], False)"
      "dp s1 = current (snd (fs s1))" "stale_ok c (Suc k) (bbuf (bfs (snd (fs s1)) (\<not> dp s1)))"
      using put stale by (simp_all add: s1_def)
    note na = next_ack_inv [OF pre(1-3) b(1,2) len pre(4), of ok]
    show ?thesis
      using na ab True nblocks_last [OF len] b(3) acked_next [OF out] acked_part [OF out, of d] recv_inv_bound [OF inv]
        saved_contents [OF na(1)] pre(2)
      by (cases ok) (auto intro: recv_ok_intros simp: on_disk_def saved_def)
  next
    case False
    then have last: "Suc k = nblocks d"
      using inv by (intro chunk_last) (auto simp: recv_inv_def)
    have all: "take (SEGSIZE * Suc k) d = d"
      using False length_chunk_le [of SEGSIZE k d] chunk_short [of SEGSIZE k d] by simp
    let ?f = "finish c ok s1"
    have r: "phase ?f = Dallying" "fs ?f = flush_block (convert c) (f, t)" "dp ?f = i" "block ?f = of_nat (Suc k)"
      "out ?f = out s @ (if ok then [ack_pkt (of_nat (Suc k))] else [])"
      using b by (simp_all add: finish_def transmit_def s1_def Let_def wire_simps ack_pkt_def size_defs)
    have disk: "on_disk ?f = decoded (convert c) d"
      using sink_flush(3) [OF put(4)] put(5) all decode_from_start [of "convert c" d]
      by (simp add: on_disk_def r(2))
    have "no_reack c ?f"
      using r sink_flush(6) [OF put(4)] other by (auto simp: no_reack_def dp_buf_def stale_ok_def)
    moreover have "acks_sent d (out ?f)"
      using r(5) acked_sent [OF acked_next [OF out], of d] acked_sent [OF out, of d] last by simp
    ultimately show ?thesis
      using ab False disk r(1,5) last by (auto intro!: recv_ok_intros(4) simp: done_ok_def)
  qed
qed

lemma of_nat_block_eq:
  assumes "numbered d" "j < nblocks d" "k < nblocks d" "of_nat (Suc j) = (of_nat (Suc k) :: u16)"
  shows "j = k"
proof -
  have "Suc j mod 65536 = Suc k mod 65536"
    using assms(4) word_of_nat_eq_iff [of "Suc j" "Suc k", where 'a = 16]
    by (simp add: take_bit_eq_mod del: of_nat_Suc)
  with assms(1-3) show ?thesis
    by (cases "Suc j = 65536"; cases "Suc k = 65536") (auto simp: numbered_def)
qed

text \<open>When the last block has been acknowledged, the file is on disk.\<close>

lemma acked_upto_set: "acked_upto k ps \<Longrightarrow> set ps = (\<lambda>j. ack_pkt (of_nat j)) ` {..k}"
  by (metis acked_upto_def atLeast_upt lessThan_Suc_atMost list.set_map remdups_adj_set)

lemma not_yet_acked:
  assumes "acked_upto k ps" "k < n" "n < 65536"
  shows "ack_pkt (of_nat n) \<notin> set ps"
proof
  assume "ack_pkt (of_nat n) \<in> set ps"
  then obtain j where j: "j \<le> k" "(of_nat n :: u16) = of_nat j" unfolding acked_upto_set [OF assms(1)] by auto
  then have "n mod 65536 = j mod 65536"
    using word_of_nat_eq_iff [of n j, where 'a = 16] by (simp add: take_bit_eq_mod)
  with j(1) assms(2,3) show False by simp
qed

lemma acked_stored:
  assumes "recv_ok c d s" "ack_pkt (of_nat (nblocks d)) \<in> set (out s)" "nblocks d < 65536"
  shows "on_disk s = decoded (convert c) d"
proof -
  have "\<not> acks_part d (out s)"
    using assms(2,3) not_yet_acked by (fastforce simp: acks_part_def)
  moreover have "phase s \<noteq> Waiting"
    using assms not_yet_acked [OF _ recv_inv_bound] by (auto simp: recv_ok_def)
  ultimately show ?thesis
    using assms(1) by (auto simp: recv_ok_def done_ok_def split: phase.splits if_splits)
qed

lemma recv_acks_out:
  assumes "recv_ok c d s" "p \<in> set (out s)"
  shows "\<exists>j\<le>nblocks d. p = ack_pkt (of_nat j)"
proof -
  from recv_ok_acks [OF assms(1)] assms(2) obtain k where k: "k \<le> nblocks d" "acked_upto k (out s)"
    by (auto simp: acks_sent_def)
  from assms(2) obtain j where "j \<le> k" "p = ack_pkt (of_nat j)" unfolding acked_upto_set [OF k(2)] by auto
  with k(1) show ?thesis by (intro exI [of _ j]) simp
qed

lemma junk_ok:
  assumes "recv_inv c d k s" "acked_upto k (out s)" "on_disk s = saved c d k" "phase s = Waiting"
    and "length b = PKTSIZE"
  shows "recv_ok c d (set_dp_buf b s)" "recv_ok c d ((set_dp_buf b s)\<lparr>inq := q\<rparr>)"
proof -
  let ?s = "set_dp_buf b s"
  have "out ?s = out s" "on_disk ?s = on_disk s" "phase ?s = phase s"
    by (simp_all add: set_dp_buf_def on_disk_def)
  with assms recv_inv_set_dp [OF assms(1,5)] recv_inv_frame [OF recv_inv_set_dp [OF assms(1,5)], of "?s\<lparr>inq := q\<rparr>"]
  show "recv_ok c d ?s" "recv_ok c d (?s\<lparr>inq := q\<rparr>)"
    by (auto intro!: recv_ok_intros(1) [of _ c d k] simp: on_disk_def)
qed

lemma handle_data_ok:
  assumes inv: "recv_inv c d k s" and out: "acked_upto k (out s)" and disk: "on_disk s = saved c d k"
    and wt: "phase s = Waiting" and p: "honest d p" and num: "numbered d"
  shows "recv_ok c d (handle_data c ok p s)"
proof -
  define b where "b = ntoh_header (host c) (recv_into (dp_buf s) p)"
  let ?s = "set_dp_buf b s"
  have dl: "length (dp_buf s) = PKTSIZE" using recv_inv_dp_len [OF inv] .
  then have bl: "length b = PKTSIZE" by (simp add: b_def)
  have p4: "4 \<le> length p" using p by (simp add: honest_def TFTP_HEADER_def)
  have fields: "th_opcode (host c) b = net_short p 0"
    using p4 dl by (simp add: b_def recv_into_def ntoh_header_opcode net_short_overlay
        net_short_prefix size_defs)
  have o: "out ?s = out s" "block ?s = of_nat (Suc k)" "dp_buf ?s = b" "on_disk ?s = on_disk s"
    using inv by (simp_all add: set_dp_buf_def recv_inv_def dp_buf_def bf_simps on_disk_def)
  have inv2: "recv_inv c d k ?s" "recv_inv c d k (?s\<lparr>inq := q\<rparr>)" for q
    using recv_inv_set_dp [OF inv bl] recv_inv_frame [OF recv_inv_set_dp [OF inv bl]] by auto
  note junk = junk_ok [OF inv out disk wt bl]
  note resend = send_ack_ok [OF inv2(2)]
  have bound: "acks_part d (out s)" using acked_part [OF out] recv_inv_bound [OF inv] by simp
  have accept: "recv_ok c d (accept_block c ok (recv_len p) ?s)"
    if op: "th_opcode (host c) b = DATA" and bk: "th_block (host c) b = of_nat (Suc k)"
  proof -
    obtain j where j: "p = block_pkt d j" "j < nblocks d"
      using p op fields by (auto simp: honest_def file_blocks_def)
    note dr = data_received(1,2,4) [OF dl j(2), of "host c", folded j(1), folded b_def]
      data_received(3) [OF dl j(2), folded j(1)]
    have "j = k"
      using of_nat_block_eq [OF num j(2) recv_inv_bound [OF inv]] dr(2) bk by simp
    with dr j show ?thesis
      using accept_block_ok [OF inv2(1)] out o op bk by simp
  qed
  show ?thesis
    using wt junk resend accept bound out o(1,2)
    unfolding handle_data_def Let_def b_def [symmetric]
    by (auto intro: recv_ok_intros simp: set_dp_buf_def)
qed

definition recv_good :: "cfg \<Rightarrow> byte list \<Rightarrow> srv \<Rightarrow> bool" where
  "recv_good c d s \<longleftrightarrow> recv_ok c d s \<and> list_all (honest d) (inq s)"

lemma recv_ok_frame:
  assumes "recv_ok c d s" "fs s' = fs s" "dp s' = dp s" "block s' = block s" "ackbuf s' = ackbuf s"
    "out s' = out s" "phase s' = phase s"
  shows "recv_ok c d s'"
  using assms recv_inv_frame [of c d _ s s']
  by (auto simp: recv_ok_def done_ok_def on_disk_def no_reack_def dp_buf_def split: phase.splits)

lemma ack_timer_ok:
  assumes "recv_inv c d k s" "acked_upto k (out s)"
  shows "recv_ok c d (timer (send_ack c ok) s)"
  using assms acked_part [OF assms(2), of d] recv_inv_bound [OF assms(1)]
    send_ack_ok [of c d k "s\<lparr>timeout := timeout s + rexmtval\<rparr>" ok]
    recv_inv_frame [OF assms(1), of "s\<lparr>timeout := timeout s + rexmtval\<rparr>"]
  by (auto simp: timer_def Let_def intro: recv_ok_intros)

lemma inq_recv:
  "inq (send_ack c ok s) = inq s" "inq (timer (send_ack c ok) s) = inq s"
  "inq (accept_block c ok n s) = inq s" "inq (set_dp_buf b s) = inq s"
  by (auto simp: send_ack_def timer_def accept_block_def next_ack_def finish_def nak_def
      transmit_def set_dp_buf_def Let_def split: prod.split)

lemma inq_handle_data:
  "list_all (honest d) (inq s) \<Longrightarrow> list_all (honest d) (inq (handle_data c ok p s))"
  using set_synchnet [of "inq s"]
  by (auto simp: handle_data_def Let_def inq_recv list_all_iff)

lemma dally_ok:
  assumes "done_ok c d s" "no_reack c s"
  shows "done_ok c d (dally c ok p s)" "out (dally c ok p s) = out s" "phase (dally c ok p s) = Finished"
  using assms by (auto simp: dally_def no_reack_def done_ok_def on_disk_def dp_buf_def Let_def)

lemma recv_step_inq:
  assumes "list_all (honest d) (inq s)" "honest_event d e"
  shows "list_all (honest d) (inq (recv_step c e s))"
  using assms inq_handle_data [of d "s\<lparr>inq := tl (inq s)\<rparr>"]
  by (cases e) (auto simp: dally_def transmit_def inq_recv Let_def split: list.split)

lemma recv_step_ok:
  assumes ok: "recv_ok c d s" and q: "list_all (honest d) (inq s)" and num: "numbered d"
  shows "recv_ok c d (recv_step c e s)"
proof (cases e)
  case (Arrive p)
  then show ?thesis using recv_ok_frame [OF ok] by simp
next
  case (Recv b)
  have fr: "recv_ok c d (s\<lparr>inq := r\<rparr>)" for r using recv_ok_frame [OF ok] by simp
  have hd: "recv_ok c d (handle_data c b p (s\<lparr>inq := r\<rparr>))" if "phase s = Waiting" "inq s = p # r" for p r
    using that q fr [of r] handle_data_ok [of c d _ "s\<lparr>inq := r\<rparr>" p b] num
    by (auto simp: recv_ok_def [of c d "s\<lparr>inq := r\<rparr>"])
  have dl: "recv_ok c d (dally c b p (s\<lparr>inq := r\<rparr>))" if "phase s = Dallying" for p r
    using that fr [of r] dally_ok [of c d "s\<lparr>inq := r\<rparr>" b p] by (auto simp: recv_ok_def)
  show ?thesis
    using Recv ok hd dl by (auto split: list.split)
next
  case RecvFails
  then show ?thesis
    using ok by (auto simp: recv_ok_def done_ok_def on_disk_def intro: acked_part [OF _ recv_inv_bound])
next
  case (Alarm b)
  then show ?thesis
    using ok ack_timer_ok [of c d _ s b]
    by (auto simp: recv_ok_def [of c d s] split: phase.splits)
      (auto simp: recv_ok_def done_ok_def on_disk_def)
next
  case (RecvAlarm b)
  have tm: "recv_ok c d (timer (send_ack c b) (set_dp_buf (recv_into (dp_buf s) p) (s\<lparr>inq := r\<rparr>)))"
    if "phase s = Waiting" for p r
  proof -
    from ok that obtain k where k: "recv_inv c d k s" "acked_upto k (out s)"
      by (auto simp: recv_ok_def)
    have i: "recv_inv c d k (s\<lparr>inq := r\<rparr>)" by (rule recv_inv_frame [OF k(1)]) simp_all
    have "length (recv_into (dp_buf s) p) = PKTSIZE" using recv_inv_dp_len [OF k(1)] by simp
    from recv_inv_set_dp [OF i this] show ?thesis
      by (rule ack_timer_ok) (simp add: set_dp_buf_def k(2))
  qed
  show ?thesis
    using RecvAlarm ok tm
    by (auto split: list.split) (auto simp: recv_ok_def done_ok_def on_disk_def)
qed

lemma recv_run_good:
  assumes "recv_good c d s" "list_all (honest_event d) es" "numbered d"
  shows "recv_good c d (recv_run c es s)"
  using assms unfolding recv_run_def
proof (induction es arbitrary: s)
  case (Cons e es)
  then show ?case by (simp add: recv_good_def recv_step_ok recv_step_inq del: recv_step.simps)
qed simp

lemma recvfile_start:
  fixes c d rb ok
  defines "s \<equiv> recvfile c ok (start_srv (open_trunc None) rb)"
  shows "recv_good c d s" "ok \<Longrightarrow> recv_inv c d 0 s" "ok \<Longrightarrow> phase s = Waiting" "inq s = []"
    "ok \<Longrightarrow> out s = [ack_pkt 0]" "on_disk s = []"
proof -
  obtain i b where wi: "w_init subs_start = (i, b)" by fastforce
  let ?s = "(start_srv (open_trunc None) rb)\<lparr>fs := (open_trunc None, b), dp := i, block := 0\<rparr>"
  note snk = w_init_sink(1,2) [where convert = "convert c", OF open_trunc_sound(1,2) bufs_ok_start wi]
    w_init_sink(3) [OF open_trunc_sound(1,2) bufs_ok_start wi]
  have zero: "bbuf (bfs b j) = replicate PKTSIZE 0" for j
    using wi by (auto simp: w_init_def rw_init_def subs_start_def Let_def bf_simps)
  have "th_opcode (host c) (replicate PKTSIZE 0) = 0"
    by (simp add: th_opcode_def load_short_def size_defs mk16_def split: endian.split)
  then have pre: "sink_inv (convert c) (fs ?s)"
    "sink_contents (convert c) (fs ?s) = decode_from (convert c) (take (SEGSIZE * 0) d) ([], False)"
    "dp ?s = current (snd (fs ?s))" "block ?s = of_nat 0" "length (ackbuf ?s) = PKTSIZE"
    "SEGSIZE * 0 \<le> length d" "stale_ok c 0 (bbuf (bfs (snd (fs ?s)) (\<not> dp ?s)))"
    using snk zero by (simp_all add: start_srv_def stale_ok_def)
  note na = next_ack_inv [OF pre, of ok]
  have s: "s = next_ack c ok ?s" using wi by (simp add: s_def recvfile_def start_srv_def)
  have "acked_upto 0 [ack_pkt 0]" by (simp add: acked_upto_def)
  then show "recv_good c d s" "ok \<Longrightarrow> recv_inv c d 0 s" "ok \<Longrightarrow> phase s = Waiting" "inq s = []"
    "ok \<Longrightarrow> out s = [ack_pkt 0]"
    using na snk unfolding s
    by (cases ok; auto simp: recv_good_def start_srv_def acks_part_def on_disk_def saved_def
        intro: recv_ok_intros)+
  show "on_disk s = []"
    using na(5) snk unfolding s by (cases ok) (auto simp: on_disk_def next_ack_def send_ack_def)
qed

subsection \<open>Progress\<close>

definition deliver :: "byte list \<Rightarrow> nat \<Rightarrow> event list" where
  "deliver d n = concat (map (\<lambda>k. [Arrive (block_pkt d k), Recv True]) [0..<n])"

lemma deliver_Suc: "deliver d (Suc n) = deliver d n @ [Arrive (block_pkt d n), Recv True]"
  by (simp add: deliver_def)

lemma recv_run_append: "recv_run c (es @ es') s = recv_run c es' (recv_run c es s)"
  by (simp add: recv_run_def)

lemma data_progress:
  assumes inv: "recv_inv c d k s" and out: "acked_upto k (out s)" and wt: "phase s = Waiting"
    and q: "inq s = []"
  defines "t \<equiv> recv_run c [Arrive (block_pkt d k), Recv True] s"
  shows "out t = out s @ [ack_pkt (of_nat (Suc k))] \<and> inq t = [] \<and> recv_ok c d t \<and>
    (if Suc k = nblocks d then phase t = Dallying else phase t = Waiting \<and> recv_inv c d (Suc k) t)"
proof -
  let ?s = "s\<lparr>inq := []\<rparr>"
  define b where "b = ntoh_header (host c) (recv_into (dp_buf s) (block_pkt d k))"
  have inv': "recv_inv c d k ?s" by (rule recv_inv_frame [OF inv]) simp_all
  have dl: "length (dp_buf s) = PKTSIZE" using recv_inv_dp_len [OF inv] .
  note dr = data_received(1,2,4,5) [OF dl recv_inv_bound [OF inv], of "host c", folded b_def]
    data_received(3) [OF dl recv_inv_bound [OF inv]]
  have b: "dp_buf ?s = dp_buf s" "dp_buf (set_dp_buf b ?s) = b" "block (set_dp_buf b ?s) = of_nat (Suc k)"
    "out (set_dp_buf b ?s) = out s"
    using inv by (simp_all add: dp_buf_def set_dp_buf_def bf_simps recv_inv_def)
  have t: "t = accept_block c True (recv_len (block_pkt d k)) (set_dp_buf b ?s)"
    using wt q b dr by (simp add: t_def recv_run_def handle_data_def Let_def b_def [symmetric] del: of_nat_Suc)
  have "inq t = []" by (simp add: t inq_recv)
  then show ?thesis
    using accept_block_ok [OF recv_inv_set_dp [OF inv' dr(4)], of "recv_len (block_pkt d k)" True] out dr b
    unfolding t by simp
qed

lemma lossless_recv:
  assumes "recv_inv c d 0 s" "phase s = Waiting" "inq s = []" "out s = [ack_pkt 0]" "n < nblocks d"
  shows "recv_inv c d n (recv_run c (deliver d n) s) \<and> phase (recv_run c (deliver d n) s) = Waiting \<and>
    inq (recv_run c (deliver d n) s) = [] \<and>
    out (recv_run c (deliver d n) s) = map (\<lambda>j. ack_pkt (of_nat j)) [0..<Suc n] \<and>
    acked_upto n (out (recv_run c (deliver d n) s))"
  using assms(5)
proof (induction n)
  case 0
  with assms show ?case by (simp add: deliver_def recv_run_def acked_upto_def)
next
  case (Suc n)
  have IH: "recv_inv c d n (recv_run c (deliver d n) s)" "acked_upto n (out (recv_run c (deliver d n) s))"
    "phase (recv_run c (deliver d n) s) = Waiting" "inq (recv_run c (deliver d n) s) = []"
    "out (recv_run c (deliver d n) s) = map (\<lambda>j. ack_pkt (of_nat j)) [0..<Suc n]"
    using Suc.IH [OF Suc_lessD [OF Suc.prems]] by blast+
  from data_progress [OF IH(1-4)] Suc.prems IH(5) acked_next [OF IH(2)] show ?case
    by (simp add: deliver_Suc recv_run_append del: of_nat_Suc)
qed

lemma lossless_recv_run:
  fixes c d rb
  defines "s \<equiv> recv_run c (deliver d (nblocks d)) (recvfile c True (start_srv (open_trunc None) rb))"
  shows "phase s = Dallying" "out s = map (\<lambda>j. ack_pkt (of_nat j)) [0..<Suc (nblocks d)]"
    "on_disk s = decoded (convert c) d"
proof -
  let ?s = "recvfile c True (start_srv (open_trunc None) rb)"
  have n: "nblocks d = Suc (nblocks d - 1)" by (simp add: nblocks_def)
  have lt: "nblocks d - 1 < nblocks d" by (simp add: nblocks_def)
  note st = recvfile_start(2-5) [where c = c and ok = True and rb = rb, simplified]
  have l: "recv_inv c d (nblocks d - 1) (recv_run c (deliver d (nblocks d - 1)) ?s)"
    "acked_upto (nblocks d - 1) (out (recv_run c (deliver d (nblocks d - 1)) ?s))"
    "phase (recv_run c (deliver d (nblocks d - 1)) ?s) = Waiting"
    "inq (recv_run c (deliver d (nblocks d - 1)) ?s) = []"
    "out (recv_run c (deliver d (nblocks d - 1)) ?s) = map (\<lambda>j. ack_pkt (of_nat j)) [0..<nblocks d]"
    using lossless_recv [OF st lt, folded n] by blast+
  have "s = recv_run c [Arrive (block_pkt d (nblocks d - 1)), Recv True]
      (recv_run c (deliver d (nblocks d - 1)) ?s)"
    unfolding s_def by (subst n) (simp only: deliver_Suc recv_run_append)
  with data_progress [OF l(1-4)] l(5) n have r: "phase s = Dallying"
    "out s = map (\<lambda>j. ack_pkt (of_nat j)) [0..<Suc (nblocks d)]" "recv_ok c d s"
    by (simp_all del: of_nat_Suc)
  then show "phase s = Dallying" "out s = map (\<lambda>j. ack_pkt (of_nat j)) [0..<Suc (nblocks d)]"
    by blast+
  from r(1,3) show "on_disk s = decoded (convert c) d" by (simp add: recv_ok_def done_ok_def)
qed

lemma deliver_honest: "n \<le> nblocks d \<Longrightarrow> list_all (honest_event d) (deliver d n)"
proof (induction n)
  case (Suc n)
  then have "block_pkt d n \<in> set (file_blocks d)" by (auto simp: file_blocks_def)
  with Suc show ?case
    by (simp add: deliver_Suc honest_def) (simp add: block_pkt_def wire_simps TFTP_HEADER_def)
qed (simp add: deliver_def)

subsection \<open>Any datagrams, any disk\<close>

text \<open>What holds without any assumption on the peer or the file.\<close>

definition only_acks :: "srv \<Rightarrow> bool" where
  "only_acks s \<longleftrightarrow> length (ackbuf s) = PKTSIZE \<and> (\<exists>n. take 4 (ackbuf s) = ack_pkt n) \<and>
     set (out s) \<subseteq> range ack_pkt"

lemma only_acks_frame [simp]:
  "only_acks (s\<lparr>inq := q\<rparr>) = only_acks s" "only_acks (s\<lparr>phase := x\<rparr>) = only_acks s"
  "only_acks (s\<lparr>timeout := t\<rparr>) = only_acks s" "only_acks (s\<lparr>fs := f\<rparr>) = only_acks s"
  "only_acks (s\<lparr>dp := i\<rparr>) = only_acks s" "only_acks (s\<lparr>sz := z\<rparr>) = only_acks s"
  "only_acks (s\<lparr>rbuf := b\<rparr>) = only_acks s"
  by (simp_all add: only_acks_def)

lemma ack_header: "length b = PKTSIZE \<Longrightarrow> take 4 (put_header e ACK n b) = ack_pkt n"
  by (simp add: wire_simps ack_pkt_def size_defs)

lemma only_acks_ops:
  assumes "only_acks s"
  shows "only_acks (send_ack c ok s)" "only_acks (next_ack c ok s)" "only_acks (finish c ok s)"
    "only_acks (set_dp_buf b s)" "only_acks (dally c ok p s)"
  using assms
  by (auto simp: only_acks_def send_ack_def next_ack_def finish_def set_dp_buf_def dally_def
      transmit_def Let_def ack_header)

lemma only_acks_accept: "only_acks s \<Longrightarrow> only_acks (accept_block c ok n s)"
  by (auto simp: accept_block_def Let_def only_acks_ops dest: writeit_index(1) split: prod.split)

lemma only_acks_handle: "only_acks s \<Longrightarrow> only_acks (handle_data c ok p s)"
  by (simp add: handle_data_def Let_def only_acks_ops only_acks_accept)

lemma only_acks_timer: "only_acks s \<Longrightarrow> only_acks (timer (send_ack c ok) s)"
  by (simp add: timer_def Let_def only_acks_ops)

lemma only_acks_step: "only_acks s \<Longrightarrow> only_acks (recv_step c e s)"
  by (cases e) (simp_all add: only_acks_handle only_acks_ops only_acks_timer split: list.split)

lemma only_acks_run: "only_acks s \<Longrightarrow> only_acks (recv_run c es s)"
  unfolding recv_run_def
  by (induction es arbitrary: s) (simp_all add: only_acks_step del: recv_step.simps)

lemma only_acks_start:
  assumes "out s = []" "length (ackbuf s) = PKTSIZE"
  shows "only_acks (recvfile c ok s)"
  using assms
  by (auto simp: recvfile_def next_ack_def send_ack_def only_acks_def transmit_def ack_header Let_def
      split: prod.split)

subsection \<open>Giving up\<close>

lemma recv_timeouts:
  "timeout (send_ack c ok s) = timeout s" "timeout (next_ack c ok s) = 0"
  "timeout (finish c ok s) = timeout s" "timeout (set_dp_buf b s) = timeout s"
  "timeout (nak c ok err s) = timeout s" "timeout (dally c ok p s) = timeout s"
  by (simp_all add: send_ack_def next_ack_def finish_def set_dp_buf_def nak_def dally_def
      transmit_def Let_def split: prod.split)

lemma recv_timeouts_nonneg:
  assumes "0 \<le> timeout s"
  shows "0 \<le> timeout (accept_block c ok n s)" "0 \<le> timeout (timer (send_ack c ok) s)"
  using assms
  by (simp_all add: accept_block_def timer_def recv_timeouts rexmtval_def TIMEOUT_def Let_def
      split: prod.split)

lemma handle_data_nonneg: "0 \<le> timeout s \<Longrightarrow> 0 \<le> timeout (handle_data c ok p s)"
  by (simp add: handle_data_def recv_timeouts recv_timeouts_nonneg Let_def)

lemma recv_nonneg_timeout: "0 \<le> timeout s \<Longrightarrow> 0 \<le> timeout (recv_step c e s)"
  by (cases e) (simp_all add: handle_data_nonneg recv_timeouts recv_timeouts_nonneg split: list.split)

lemma recv_nonneg_run: "0 \<le> timeout s \<Longrightarrow> 0 \<le> timeout (recv_run c es s)"
  unfolding recv_run_def
  by (induction es arbitrary: s) (simp_all add: recv_nonneg_timeout del: recv_step.simps)

lemma recv_alarm_counts:
  assumes "phase (recv_step c (Alarm ok) s) \<in> {Waiting, Dallying}"
  shows "phase s \<in> {Waiting, Dallying} \<and> timeout (recv_step c (Alarm ok) s) = timeout s + rexmtval \<and>
    timeout s + rexmtval < maxtimeout"
  using assms by (auto simp: timer_def send_ack_def transmit_def Let_def split: if_splits)

interpretation recv_timer: retransmission "\<lambda>s. phase s \<in> {Waiting, Dallying}" timeout "\<lambda>ok. recv_step c (Alarm ok)" rexmtval maxtimeout for c
  by unfold_locales (rule recv_alarm_counts)

lemma recv_run_alarms: "recv_run c (map Alarm oks) s = fold (\<lambda>ok. recv_step c (Alarm ok)) oks s"
  by (simp add: recv_run_def fold_map comp_def del: recv_step.simps)

section \<open>Properties\<close>

definition uploads :: "cfg \<Rightarrow> bool \<Rightarrow> event list \<Rightarrow> byte list \<Rightarrow> srv" where
  "uploads c ok es rb = recv_run c es (recvfile c ok (start_srv (open_trunc None) rb))"

lemma uploads_ok:
  assumes "numbered e" "list_all (honest_event e) es"
  shows "recv_ok c e (uploads c ok es rb)"
  using recv_run_good [OF recvfile_start(1) [where c = c and d = e and ok = ok and rb = rb] assms(2,1)]
  by (simp add: uploads_def recv_good_def)

text \<open>
  C12: an upload that the daemon considers complete (the final acknowledgement is on its way)
  has left exactly the client's file on disk, although data packets were lost, repeated
  and reordered, other packets came in between, sends failed and alarms went off; in
  netascii mode the file is the decoded one.
\<close>

theorem daemon_stores_upload:
  assumes "numbered (encoded (convert c) d)" "list_all (honest_event (encoded (convert c) d)) es"
    and "phase (uploads c ok es rb) \<in> {Dallying, Finished, Exited 0}"
  shows "on_disk (uploads c ok es rb) = d"
  using uploads_ok [OF assms(1,2), of c ok rb] assms(3)
  by (auto simp: recv_ok_def done_ok_def decoded_encoded)

theorem daemon_stores_upload_witness:
  "on_disk (uploads \<lparr>host = Little, convert = True, strerror = \<lambda>_. []\<rparr> True
     (deliver [65, CR, LF] 1) []) = [65, LF]"
proof -
  let ?c = "\<lparr>host = Little, convert = True, strerror = \<lambda>_. []\<rparr>" and ?e = "[65, CR, LF]"
  have e: "encoded (convert ?c) [65, LF] = ?e" by (simp add: encoded_def LF_def CR_def)
  have n: "nblocks ?e = 1" by (simp add: nblocks_def SEGSIZE_def)
  have "phase (uploads ?c True (deliver ?e 1) []) = Dallying"
    using lossless_recv_run(1) [of ?c ?e "[]"] n by (simp add: uploads_def)
  moreover have "list_all (honest_event ?e) (deliver ?e 1)"
    by (rule deliver_honest) (simp add: n)
  ultimately show ?thesis
    using daemon_stores_upload [of ?c "[65, LF]" "deliver ?e 1" True "[]", unfolded e]
    by (simp add: numbered_def n)
qed

text \<open>
  C14: while an upload is running, the acknowledgements sent are those of blocks 0 to k, in
  order up to immediate repetitions, and the file on disk holds exactly the first k
  blocks: nothing is acknowledged that has not been handed to the file, and nothing is
  written twice or out of order.
\<close>

theorem daemon_acks_what_it_stored:
  assumes "numbered e" "list_all (honest_event e) es" "phase (uploads c ok es rb) = Waiting"
  shows "\<exists>k<nblocks e. remdups_adj (out (uploads c ok es rb)) = map (\<lambda>j. ack_pkt (of_nat j)) [0..<Suc k] \<and>
     on_disk (uploads c ok es rb) = saved c e k"
proof -
  from uploads_ok [OF assms(1,2), of c ok rb] assms(3) obtain k where
    "recv_inv c e k (uploads c ok es rb)" "acked_upto k (out (uploads c ok es rb))"
    "on_disk (uploads c ok es rb) = saved c e k"
    by (auto simp: recv_ok_def)
  then show ?thesis
    by (intro exI [of _ k]) (simp add: recv_inv_bound acked_upto_def)
qed

theorem daemon_acks_what_it_stored_witness:
  "\<exists>k<2. remdups_adj (out (uploads \<lparr>host = Little, convert = False, strerror = \<lambda>_. []\<rparr> True [Alarm True] [])) =
       map (\<lambda>j. ack_pkt (of_nat j)) [0..<Suc k] \<and>
     on_disk (uploads \<lparr>host = Little, convert = False, strerror = \<lambda>_. []\<rparr> True [Alarm True] []) =
       saved \<lparr>host = Little, convert = False, strerror = \<lambda>_. []\<rparr> (replicate 600 7) k"
proof -
  let ?c = "\<lparr>host = Little, convert = False, strerror = \<lambda>_. []\<rparr>" and ?e = "replicate 600 7 :: byte list"
  have n: "nblocks ?e = 2" by (simp add: nblocks_def SEGSIZE_def)
  have w: "phase (uploads ?c True [Alarm True] []) = Waiting"
    by (simp add: uploads_def recv_run_def recvfile_def next_ack_def send_ack_def timer_def start_srv_def
        transmit_def rexmtval_def maxtimeout_def TIMEOUT_def Let_def split: prod.split)
  from daemon_acks_what_it_stored [of ?e "[Alarm True]" ?c True "[]"] w show ?thesis
    unfolding n by (simp add: numbered_def n)
qed

text \<open>
  On a network that loses nothing the daemon acknowledges every block exactly once, in
  order, and then has the file; this holds for files of any length, the block number
  starting again at 0 after 65535.
\<close>

theorem daemon_recv_lossless:
  "let e = encoded (convert c) d; s = uploads c True (deliver e (nblocks e)) rb
   in phase s = Dallying \<and> on_disk s = d \<and> out s = map (\<lambda>j. ack_pkt (of_nat j)) [0..<Suc (nblocks e)]"
  using lossless_recv_run [where c = c and d = "encoded (convert c) d" and rb = rb]
  by (simp add: uploads_def Let_def decoded_encoded)

text \<open>
  C15: the final acknowledgement is never sent again.  The code means to repeat it when the
  client's last data packet comes once more (its comment says that the acknowledgement
  was lost then), but it tests the packet left in the other buffer, not the one received.
\<close>

theorem daemon_never_repeats_final_ack:
  assumes "numbered e" "list_all (honest_event e) es" "phase (uploads c ok es rb) = Dallying"
  shows "out (recv_step c ev (uploads c ok es rb)) = out (uploads c ok es rb)"
proof -
  let ?s = "uploads c ok es rb"
  from uploads_ok [OF assms(1,2), of c ok rb] assms(3) have "done_ok c e ?s" "no_reack c ?s"
    by (simp_all add: recv_ok_def)
  then have "out (dally c b p (?s\<lparr>inq := q\<rparr>)) = out ?s" for b p q
    using dally_ok(2) [of c e "?s\<lparr>inq := q\<rparr>" b p]
    by (simp add: done_ok_def on_disk_def no_reack_def dp_buf_def)
  with assms(3) show ?thesis
    by (cases ev) (simp_all split: list.split)
qed

theorem daemon_never_repeats_final_ack_witness:
  "out (recv_step \<lparr>host = Little, convert = False, strerror = \<lambda>_. []\<rparr> (Recv True)
     (uploads \<lparr>host = Little, convert = False, strerror = \<lambda>_. []\<rparr> True
        (deliver [65] 1 @ [Arrive (block_pkt [65] 0)]) [])) = [ack_pkt 0, ack_pkt 1]"
proof -
  let ?c = "\<lparr>host = Little, convert = False, strerror = \<lambda>_. []\<rparr>"
    and ?es = "deliver [65 :: byte] 1 @ [Arrive (block_pkt [65] 0)]"
  have n: "nblocks [65] = 1" by (simp add: nblocks_def SEGSIZE_def)
  have u: "uploads ?c True ?es [] = recv_step ?c (Arrive (block_pkt [65] 0)) (uploads ?c True (deliver [65] 1) [])"
    by (simp add: uploads_def recv_run_def)
  have l: "phase (uploads ?c True ?es []) = Dallying" "out (uploads ?c True ?es []) = [ack_pkt 0, ack_pkt 1]"
    using lossless_recv_run(1,2) [of ?c "[65]" "[]"] unfolding u by (simp_all add: n uploads_def)
  have "honest [65] (block_pkt [65] 0)"
    by (simp add: honest_def file_blocks_def n) (simp add: block_pkt_def wire_simps TFTP_HEADER_def)
  then have "list_all (honest_event [65]) ?es"
    using deliver_honest [of 1 "[65]"] by (simp add: n)
  from daemon_never_repeats_final_ack [OF _ this l(1), of "Recv True"] show ?thesis
    unfolding l(2) by (simp add: numbered_def n)
qed

text \<open>
  C16: whatever the state of the disk and whatever the peer sends, recvfile answers with
  acknowledgements only: a full disk or a write error is never reported to the client,
  because writeit returns the count it was given and the result of write_behind is
  ignored.
\<close>

theorem daemon_never_reports_write_errors:
  "set (out (recv_run c es (recvfile c ok (start_srv f rb)))) \<subseteq> range ack_pkt"
proof -
  have "only_acks (recvfile c ok (start_srv f rb))"
    by (rule only_acks_start) (simp_all add: start_srv_def)
  from only_acks_run [OF this] show ?thesis by (simp add: only_acks_def)
qed

text \<open>
  From any state an upload can reach, five alarms in a row end it, also when the
  client has disappeared behind the final acknowledgement.
\<close>

theorem daemon_recv_gives_up:
  "phase (recv_run c (map Alarm [ok1, ok2, ok3, ok4, ok5]) (recv_run c es (recvfile c ok (start_srv f rb))))
     \<notin> {Waiting, Dallying}"
proof -
  have "timeout (recvfile c ok (start_srv f rb)) = 0"
    by (simp add: recvfile_def recv_timeouts Let_def split: prod.split)
  then have "0 \<le> timeout (recv_run c es (recvfile c ok (start_srv f rb)))" by (intro recv_nonneg_run) simp
  then show ?thesis
    unfolding recv_run_alarms by (intro recv_timer.gives_up) (simp_all add: rexmtval_def maxtimeout_def TIMEOUT_def)
qed

end
