(* ===== verification/Tftp_Get.thy ===== *)
theory Tftp_Get
  imports Tftp_Put Tftpd_Recv
begin

text \<open>
  What the client's \<^verbatim>\<open>recvfile\<close> does when the data packets it gets are blocks of one file
  (\<open>honest\<close>, as in the daemon's upload; empty datagrams are also allowed, the client skips
  them).  The reply to block k is its acknowledgement; the reply in front of block 1 is
  the request.
\<close>

definition reply :: "datagram \<Rightarrow> nat \<Rightarrow> datagram" where
  "reply req k = (if k = 0 then req else ack_pkt (of_nat k))"

definition replied :: "datagram \<Rightarrow> nat \<Rightarrow> datagram list \<Rightarrow> bool" where
  "replied req k ps \<longleftrightarrow> ps \<noteq> [] \<and> last ps = reply req k \<and> remdups_adj ps = map (reply req) [0..<Suc k]"

definition replies_ok :: "byte list \<Rightarrow> datagram \<Rightarrow> datagram list \<Rightarrow> bool" where
  "replies_ok d req ps \<longleftrightarrow> ps = [] \<or> (\<exists>k\<le>nblocks d. replied req k ps)"

definition is_request :: "datagram \<Rightarrow> bool" where
  "is_request req \<longleftrightarrow> net_short req 0 = RRQ \<and> length req \<le> PKTSIZE"

fun chonest :: "byte list \<Rightarrow> cevent \<Rightarrow> bool" where
  "chonest d (CArrive a p) \<longleftrightarrow> p = [] \<or> honest d p"
| "chonest d _ \<longleftrightarrow> True"

lemma reply_next: "is_request req \<Longrightarrow> reply req k \<noteq> reply req (Suc k)"
  by (auto simp: reply_def is_request_def wire_simps opcode_defs)

lemma replied_again: "replied req k ps \<Longrightarrow> replied req k (ps @ [reply req k])"
  by (simp add: replied_def remdups_adj_snoc)

lemma replied_next: "is_request req \<Longrightarrow> replied req k ps \<Longrightarrow> replied req (Suc k) (ps @ [reply req (Suc k)])"
  using reply_next [of req k] by (simp add: replied_def remdups_adj_snoc)

subsection \<open>The invariant\<close>

definition got_inv :: "cfg \<Rightarrow> byte list \<Rightarrow> datagram \<Rightarrow> nat \<Rightarrow> client \<Rightarrow> bool" where
  "got_inv c d req k s \<longleftrightarrow>
     sink_inv (convert c) (cfs s) \<and>
     sink_contents (convert c) (cfs s) = decode_from (convert c) (take (SEGSIZE * k) d) ([], False) \<and>
     cdp s = current (snd (cfs s)) \<and> cblock s = of_nat (Suc k) \<and> length (cackbuf s) = PKTSIZE \<and>
     take (nat (csize s)) (cackbuf s) = reply req k \<and> SEGSIZE * k \<le> length d \<and> amount s = of_nat (SEGSIZE * k)"

definition fetched :: "client \<Rightarrow> byte list" where
  "fetched s = fdata (fst (cfs s))"

definition get_ok :: "cfg \<Rightarrow> byte list \<Rightarrow> datagram \<Rightarrow> client \<Rightarrow> bool" where
  "get_ok c d req s \<longleftrightarrow>
     (case cphase s of
        CWaiting \<Rightarrow> (\<exists>k. got_inv c d req k s \<and> replied req k (map snd (cout s)) \<and> fetched s = saved c d k)
      | CFinished \<Rightarrow> fetched s = decoded (convert c) d \<and> amount s = of_nat (length d) \<and> replies_ok d req (map snd (cout s))
      | _ \<Rightarrow> replies_ok d req (map snd (cout s)))"

lemma get_ok_intros:
  "cphase s = CWaiting \<Longrightarrow> got_inv c d req k s \<Longrightarrow> replied req k (map snd (cout s)) \<Longrightarrow>
   fetched s = saved c d k \<Longrightarrow> get_ok c d req s"
  "cphase s = CFinished \<Longrightarrow> fetched s = decoded (convert c) d \<Longrightarrow> amount s = of_nat (length d) \<Longrightarrow> replies_ok d req (map snd (cout s)) \<Longrightarrow>
   get_ok c d req s"
  "cphase s = CAborted \<Longrightarrow> replies_ok d req (map snd (cout s)) \<Longrightarrow> get_ok c d req s"
  "cphase s = CTimedOut \<Longrightarrow> replies_ok d req (map snd (cout s)) \<Longrightarrow> get_ok c d req s"
  by (auto simp: get_ok_def)

lemma got_inv_frame:
  assumes "got_inv c d req k s" "cfs s' = cfs s" "cdp s' = cdp s" "cblock s' = cblock s"
    "cackbuf s' = cackbuf s" "csize s' = csize s" "amount s' = amount s"
  shows "got_inv c d req k s'"
  using assms by (auto simp: got_inv_def)

lemma got_inv_bound: "got_inv c d req k s \<Longrightarrow> k < nblocks d"
  by (simp add: got_inv_def nblocks_last)

lemma got_inv_set_dp:
  assumes "got_inv c d req k s" "length b = PKTSIZE"
  shows "got_inv c d req k (set_cdp_buf b s)"
proof -
  obtain f t where "cfs s = (f, t)" by (cases "cfs s")
  with assms sink_set_bbuf [of "convert c" f t "cdp s" b] show ?thesis
    by (auto simp: got_inv_def set_cdp_buf_def bf_simps)
qed

lemma got_inv_dp_len: "got_inv c d req k s \<Longrightarrow> length (cdp_buf s) = PKTSIZE"
  by (cases "cfs s") (auto simp: got_inv_def cdp_buf_def intro: sink_bufs)

lemma replied_replies: "replied req k ps \<Longrightarrow> k \<le> nblocks d \<Longrightarrow> replies_ok d req ps"
  by (auto simp: replies_ok_def)

lemma csend_ack_sel:
  "cfs (csend_ack c ok s) = flush_block (convert c) (cfs s)"
  "cout (csend_ack c ok s) = cout s @ (if ok then [(from_addr s, take (nat (csize s)) (cackbuf s))] else [])"
  "cphase (csend_ack c ok s) = (if ok then CWaiting else CAborted)"
  "cdp (csend_ack c ok s) = cdp s" "cblock (csend_ack c ok s) = cblock s" "cackbuf (csend_ack c ok s) = cackbuf s"
  "csize (csend_ack c ok s) = csize s" "ctimeout (csend_ack c ok s) = ctimeout s" "cinq (csend_ack c ok s) = cinq s"
  "amount (csend_ack c ok s) = amount s"
  by (auto simp: csend_ack_def cflush_def csendto_def flush_block_def)

text \<open>The reply of state k goes out, for the first time or again, and the last block is flushed.\<close>

definition at_reply :: "cfg \<Rightarrow> byte list \<Rightarrow> datagram \<Rightarrow> nat \<Rightarrow> client \<Rightarrow> bool" where
  "at_reply c d req k s \<longleftrightarrow>
     cphase s = CWaiting \<and> got_inv c d req k s \<and> replied req k (map snd (cout s))"

lemma csend_ack_ok:
  assumes inv: "got_inv c d req k s" and old: "replies_ok d req (map snd (cout s))"
    and new: "replied req k (map snd (cout s) @ [reply req k])"
  shows "get_ok c d req (csend_ack c ok s)"
    "ok \<Longrightarrow> at_reply c d req k (csend_ack c ok s)"
proof -
  let ?s = "csend_ack c ok s"
  have "sink_inv (convert c) (cfs s)" and r: "take (nat (csize s)) (cackbuf s) = reply req k"
    using inv by (simp_all add: got_inv_def)
  note fl = sink_flush [OF this(1)]
  have i: "got_inv c d req k ?s"
    using inv fl by (simp add: got_inv_def csend_ack_sel)
  have f: "fetched ?s = saved c d k"
    using inv fl by (simp add: fetched_def csend_ack_sel saved_def got_inv_def)
  show "get_ok c d req ?s"
    using i f old new r
    by (cases ok) (auto intro: get_ok_intros simp: csend_ack_sel)
  show "ok \<Longrightarrow> at_reply c d req k ?s"
    using i new r by (simp add: at_reply_def csend_ack_sel)
qed


subsection \<open>Accepting a block\<close>

lemma cnext_ack_ok:
  assumes snk: "sink_inv (convert c) (cfs s)"
    "sink_contents (convert c) (cfs s) = decode_from (convert c) (take (SEGSIZE * Suc k) d) ([], False)"
    and s: "cdp s = current (snd (cfs s))" "cblock s = of_nat (Suc k)" "length (cackbuf s) = PKTSIZE"
    "SEGSIZE * Suc k \<le> length d" "amount s = of_nat (SEGSIZE * Suc k)"
    and out: "replied req k (map snd (cout s))" and req: "is_request req"
  shows "get_ok c d req (cnext_ack c ok s)"
    "ok \<Longrightarrow> at_reply c d req (Suc k) (cnext_ack c ok s)"
proof -
  let ?t = "s\<lparr>cackbuf := put_header (host c) ACK (cblock s) (cackbuf s), csize := 4,
    cblock := cblock s + 1, ctimeout := 0\<rparr>"
  have inv: "got_inv c d req (Suc k) ?t"
    using snk s by (simp add: got_inv_def reply_def wire_simps ack_pkt_def size_defs)
  have "replies_ok d req (map snd (cout ?t))"
    using replied_replies [OF out] nblocks_last [OF s(4)] by simp
  moreover have "replied req (Suc k) (map snd (cout ?t) @ [reply req (Suc k)])"
    using replied_next [OF req out] by simp
  ultimately show "get_ok c d req (cnext_ack c ok s)"
    "ok \<Longrightarrow> at_reply c d req (Suc k) (cnext_ack c ok s)"
    using csend_ack_ok [OF inv, of ok] unfolding cnext_ack_def by simp_all
qed

lemma caccept_block_ok:
  assumes inv: "got_inv c d req k s" and out: "replied req k (map snd (cout s))" and req: "is_request req"
    and pl: "take (length (chunk SEGSIZE k d)) (drop 4 (cdp_buf s)) = chunk SEGSIZE k d"
    and n: "n - 4 = int (length (chunk SEGSIZE k d))"
  shows "get_ok c d req (caccept_block c v n s)"
    "fst v \<Longrightarrow> (if Suc k = nblocks d then cphase (caccept_block c v n s) = CFinished
      else at_reply c d req (Suc k) (caccept_block c v n s))"
proof -
  let ?n = "int (length (chunk SEGSIZE k d))"
  obtain m i f t where w: "writeit (convert c) ?n (cfs s) = (m, i, f, t)" by (metis prod_cases4)
  have g: "sink_inv (convert c) (cfs s)" "cdp s = current (snd (cfs s))" "length (cackbuf s) = PKTSIZE"
    "sink_contents (convert c) (cfs s) = decode_from (convert c) (take (SEGSIZE * k) d) ([], False)"
    "cblock s = of_nat (Suc k)" "SEGSIZE * k \<le> length d" "amount s = of_nat (SEGSIZE * k)"
    using inv by (simp_all add: got_inv_def)
  note st = chunk_stored [OF g(1,4) pl [unfolded cdp_buf_def g(2)] w]
  define s1 where "s1 = s\<lparr>cfs := (f, t), cdp := i, csize := ?n, amount := amount s + of_int ?n\<rparr>"
  have ab: "caccept_block c v n s = (if ?n = int SEGSIZE then cnext_ack c (fst v) s1 else cfinish c (fst v) s1)"
    using w st(1) n by (simp add: caccept_block_def s1_def Let_def)
  have "get_ok c d req (caccept_block c v n s) \<and> (fst v \<longrightarrow>
     (if Suc k = nblocks d then cphase (caccept_block c v n s) = CFinished
      else at_reply c d req (Suc k) (caccept_block c v n s)))"
  proof (cases "?n = int SEGSIZE")
    case True
    then have len: "SEGSIZE * Suc k \<le> length d" using g(6) by (auto simp: chunk_def size_defs)
    have pre: "sink_inv (convert c) (cfs s1)" "cdp s1 = current (snd (cfs s1))"
      "sink_contents (convert c) (cfs s1) = decode_from (convert c) (take (SEGSIZE * Suc k) d) ([], False)"
      "cblock s1 = of_nat (Suc k)" "length (cackbuf s1) = PKTSIZE" "replied req k (map snd (cout s1))"
      using st g out by (simp_all add: s1_def)
    have am: "amount s1 = of_nat (SEGSIZE * Suc k)" using g(7) True by (simp add: s1_def)
    from cnext_ack_ok [OF pre(1,3,2,4,5) len am pre(6) req, of "fst v"] ab True nblocks_last [OF len]
    show ?thesis by auto
  next
    case False
    then have last: "Suc k = nblocks d" using g(6) by (intro chunk_last) auto
    have all: "take (SEGSIZE * Suc k) d = d"
      using False length_chunk_le [of SEGSIZE k d] chunk_short [of SEGSIZE k d] by simp
    let ?f = "cfinish c (fst v) s1"
    have r: "cphase ?f = CFinished" "cfs ?f = flush_block (convert c) (f, t)"
      "map snd (cout ?f) = map snd (cout s) @ (if fst v then [ack_pkt (of_nat (Suc k))] else [])"
      using g by (simp_all add: cfinish_def cflush_def csendto_def s1_def flush_block_def Let_def
          wire_simps ack_pkt_def size_defs)
    have "fetched ?f = decoded (convert c) d"
      using sink_flush(3) [OF st(4)] st(6) all decode_from_start [of "convert c" d]
      by (simp add: fetched_def r(2))
    moreover have "replies_ok d req (map snd (cout ?f))"
      using r(3) replied_replies [OF replied_next [OF req out], of d] replied_replies [OF out, of d] last
      by (simp add: reply_def)
    moreover have "length d = SEGSIZE * k + length (chunk SEGSIZE k d)"
      using all g(6) by (simp add: chunk_def min_def split: if_splits)
    then have "of_nat (length d) = (of_nat (SEGSIZE * k) + of_nat (length (chunk SEGSIZE k d)) :: 64 word)"
      by (metis of_nat_add)
    then have "amount ?f = of_nat (length d)"
      using g(7) by (simp add: cfinish_def cflush_def csendto_def s1_def Let_def)
    ultimately show ?thesis
      using ab False r(1) last by (auto intro!: get_ok_intros(2))
  qed
  then show "get_ok c d req (caccept_block c v n s)"
    "fst v \<Longrightarrow> (if Suc k = nblocks d then cphase (caccept_block c v n s) = CFinished
      else at_reply c d req (Suc k) (caccept_block c v n s))"
    by blast+
qed

subsection \<open>Every step keeps the file and the replies in step\<close>

lemma got_get_ok:
  assumes "got_inv c d req k s" "replied req k (map snd (cout s))" "fetched s = saved c d k" "cphase s = CWaiting"
    and "length b = PKTSIZE"
  shows "get_ok c d req (set_cdp_buf b s)" "get_ok c d req (csynch (set_cdp_buf b s))"
    "replies_ok d req (map snd (cout s))"
proof -
  note i = got_inv_set_dp [OF assms(1,5)]
  have i': "got_inv c d req k (csynch (set_cdp_buf b s))" by (rule got_inv_frame [OF i]) simp_all
  show "get_ok c d req (set_cdp_buf b s)" "get_ok c d req (csynch (set_cdp_buf b s))"
    by (rule get_ok_intros(1) [OF _ i] get_ok_intros(1) [OF _ i'];
        use assms(2-4) in \<open>simp add: set_cdp_buf_def fetched_def\<close>)+
  show "replies_ok d req (map snd (cout s))"
    using replied_replies [OF assms(2)] got_inv_bound [OF assms(1)] by simp
qed

lemma chandle_data_ok:
  assumes inv: "got_inv c d req k s" and out: "replied req k (map snd (cout s))" and disk: "fetched s = saved c d k"
    and wt: "cphase s = CWaiting" and p: "honest d p" and num: "numbered d" and req: "is_request req"
  shows "get_ok c d req (chandle_data c v p s)"
proof -
  define b where "b = ntoh_header (host c) (recv_into (cdp_buf s) p)"
  let ?s = "set_cdp_buf b s"
  have dl: "length (cdp_buf s) = PKTSIZE" using got_inv_dp_len [OF inv] .
  then have bl: "length b = PKTSIZE" by (simp add: b_def)
  have p4: "4 \<le> length p" using p by (simp add: honest_def TFTP_HEADER_def)
  have fields: "th_opcode (host c) b = net_short p 0"
    using p4 dl by (simp add: b_def recv_into_def ntoh_header_opcode net_short_overlay
        net_short_prefix size_defs)
  have o: "map snd (cout ?s) = map snd (cout s)" "cblock ?s = of_nat (Suc k)" "cdp_buf ?s = b"
    using inv by (simp_all add: set_cdp_buf_def got_inv_def cdp_buf_def bf_simps)
  note inv2 = got_inv_set_dp [OF inv bl] and stay = got_get_ok [OF inv out disk wt bl]
  have inv3: "got_inv c d req k (csynch ?s)" by (rule got_inv_frame [OF inv2]) simp_all
  have resend: "get_ok c d req (csend_ack c (fst v) (csynch ?s))"
    using csend_ack_ok(1) [OF inv3] stay(3) replied_again [OF out] o(1) by simp
  have accept: "get_ok c d req (caccept_block c v (recv_len p) ?s)"
    if op: "th_opcode (host c) b = DATA" and bk: "th_block (host c) b = of_nat (Suc k)"
  proof -
    obtain j where j: "p = block_pkt d j" "j < nblocks d"
      using p op fields by (auto simp: honest_def file_blocks_def)
    note dr = data_received(1,2,4) [OF dl j(2), of "host c", folded j(1), folded b_def]
      data_received(3) [OF dl j(2), folded j(1)]
    have "j = k"
      using of_nat_block_eq [OF num j(2) got_inv_bound [OF inv]] dr(2) bk by simp
    with dr show ?thesis
      using caccept_block_ok(1) [OF inv2 _ req, of "recv_len p" v] out o by simp
  qed
  have ab: "get_ok c d req ((cflush c ?s)\<lparr>cphase := CAborted\<rparr>)"
    using stay(3) o(1) by (intro get_ok_intros(3)) (simp_all add: cflush_def)
  show ?thesis
    using stay resend accept ab o(2)
    unfolding chandle_data_def Let_def b_def [symmetric] by simp
qed


definition get_good :: "cfg \<Rightarrow> byte list \<Rightarrow> datagram \<Rightarrow> client \<Rightarrow> bool" where
  "get_good c d req s \<longleftrightarrow> get_ok c d req s \<and> list_all (\<lambda>p. p = [] \<or> honest d p) (map snd (cinq s))"

lemma get_ok_frame:
  assumes "get_ok c d req s" "cfs s' = cfs s" "cdp s' = cdp s" "cblock s' = cblock s" "cackbuf s' = cackbuf s"
    "csize s' = csize s" "cout s' = cout s" "cphase s' = cphase s" "amount s' = amount s"
  shows "get_ok c d req s'"
  using assms got_inv_frame [of c d req _ s s'] by (auto simp: get_ok_def fetched_def split: cphase.splits)

lemma get_resend:
  assumes "get_ok c d req s" "cphase s = CWaiting"
  shows "get_ok c d req (ctimer t (csend_ack c ok) s)"
proof -
  let ?s = "s\<lparr>ctimeout := ctimeout s + crexmtval t\<rparr>"
  from assms obtain k where k: "got_inv c d req k s" "replied req k (map snd (cout s))"
    by (auto simp: get_ok_def)
  then have all: "replies_ok d req (map snd (cout s))"
    using replied_replies got_inv_bound by fastforce
  have "got_inv c d req k ?s" by (rule got_inv_frame [OF k(1)]) simp_all
  from csend_ack_ok(1) [OF this] all replied_again [OF k(2)] have "get_ok c d req (csend_ack c ok ?s)" by simp
  with all show ?thesis by (auto simp: ctimer_def Let_def intro: get_ok_intros(4))
qed

lemma cinq_get:
  "cinq (ctimer t (csend_ack c ok) s) = cinq s" "cinq (caccept_block c v n s) = cinq s"
  "cinq (set_cdp_buf b s) = cinq s"
  by (auto simp: ctimer_def csend_ack_sel caccept_block_def cnext_ack_def cfinish_def cnak_def cflush_def
      csendto_def set_cdp_buf_def Let_def split: prod.split)

lemma cinq_handle:
  "list_all P (map snd (cinq s)) \<Longrightarrow> list_all P (map snd (cinq (chandle_data c v p s)))"
  by (auto simp: chandle_data_def Let_def cinq_get csend_ack_sel csynch_def cflush_def list_all_iff
      dest!: in_set_dropD)

lemma crecv_step_good:
  assumes good: "get_good c d req s" and e: "chonest d e" and num: "numbered d" and req: "is_request req"
  shows "get_good c d req (crecv_step c t e s)"
proof -
  have ok: "get_ok c d req s" and q: "list_all (\<lambda>p. p = [] \<or> honest d p) (map snd (cinq s))"
    using good by (simp_all add: get_good_def)
  have fr: "get_ok c d req (s\<lparr>cinq := r\<rparr>)" "get_ok c d req (s\<lparr>cinq := r, from_addr := a\<rparr>)" for r a
    by (rule get_ok_frame [OF ok]; simp)+
  have hd: "get_ok c d req (chandle_data c v p (s\<lparr>cinq := r, from_addr := a\<rparr>))"
    if "cphase s = CWaiting" "honest d p" for v p r a
  proof -
    from fr(2) [where r = r and a = a] that(1) obtain k where "got_inv c d req k (s\<lparr>cinq := r, from_addr := a\<rparr>)"
      "replied req k (map snd (cout s))" "fetched (s\<lparr>cinq := r, from_addr := a\<rparr>) = saved c d k"
      by (auto simp: get_ok_def)
    with chandle_data_ok [OF _ _ _ _ that(2) num req] that(1) show ?thesis by simp
  qed
  have al: "get_ok c d req (ctimer t (csend_ack c ok') (set_cdp_buf (recv_into (cdp_buf s) p) (s\<lparr>cinq := r, from_addr := a\<rparr>)))"
    if "cphase s = CWaiting" for ok' p r a
  proof (rule get_resend)
    from fr(2) [where r = r and a = a] that obtain k where k: "got_inv c d req k (s\<lparr>cinq := r, from_addr := a\<rparr>)"
      "replied req k (map snd (cout s))" "fetched (s\<lparr>cinq := r, from_addr := a\<rparr>) = saved c d k"
      by (auto simp: get_ok_def)
    have "length (recv_into (cdp_buf s) p) = PKTSIZE" using got_inv_dp_len [OF k(1)] by (simp add: cdp_buf_def)
    from got_get_ok(1) [OF k(1) _ k(3) _ this] k(2) that
    show "get_ok c d req (set_cdp_buf (recv_into (cdp_buf s) p) (s\<lparr>cinq := r, from_addr := a\<rparr>))" by simp
    show "cphase (set_cdp_buf (recv_into (cdp_buf s) p) (s\<lparr>cinq := r, from_addr := a\<rparr>)) = CWaiting"
      using that by (simp add: set_cdp_buf_def)
  qed
  have "get_ok c d req (crecv_step c t e s)"
    using ok fr hd al get_resend [OF ok] q by (cases e) (auto simp: Let_def split: list.split)
  moreover have "list_all (\<lambda>p. p = [] \<or> honest d p) (map snd (cinq (crecv_step c t e s)))"
    using q e cinq_handle [of "\<lambda>p. p = [] \<or> honest d p" "s\<lparr>cinq := tl (cinq s), from_addr := fst (hd (cinq s))\<rparr>" c]
    by (cases e) (auto simp: Let_def cinq_get list_all_iff split: list.split)
  ultimately show ?thesis by (simp add: get_good_def)
qed

lemma crecv_run_good:
  assumes "get_good c d req s" "list_all (chonest d) es" "numbered d" "is_request req"
  shows "get_good c d req (crecv_run c t es s)"
  using assms(1,2) unfolding crecv_run_def
proof (induction es arbitrary: s)
  case (Cons e es)
  then show ?case using crecv_step_good [OF _ _ assms(3,4)] by simp
qed simp


subsection \<open>The request\<close>

lemma request_is_request:
  "length (request_pkt RRQ name mode) \<le> PKTSIZE \<Longrightarrow> is_request (request_pkt RRQ name mode)"
  by (simp add: is_request_def wire_simps)

lemma crecvfile_start:
  assumes req: "length (request_pkt RRQ name mode) \<le> PKTSIZE" and b: "bufs_ok sb" "length ab = PKTSIZE"
  defines "r \<equiv> request_pkt RRQ name mode"
  fixes a c ok
  defines "s \<equiv> crecvfile c name mode ok (client_start a sb ab (open_trunc None))"
  shows "get_good c d r s" "ok \<Longrightarrow> at_reply c d r 0 s" "cinq s = []" "ctimeout s = 0"
proof -
  obtain i b' where wi: "w_init sb = (i, b')" by fastforce
  note snk = w_init_sink(1,2) [where convert = "convert c", OF open_trunc_sound(1,2) b(1) wi]
    w_init_sink(3) [OF open_trunc_sound(1,2) b(1) wi]
  let ?st = "client_start a sb ab (open_trunc None)"
  let ?t = "?st\<lparr>cfs := (open_trunc None, b'), cdp := i, cblock := 1, amount := 0, firsttrip := False,
    cackbuf := r @ drop (length r) ab, csize := int (length r), ctimeout := 0\<rparr>"
  have s: "s = csend_ack c ok ?t"
    using wi makerequest_pkt [of RRQ name mode ab "host c"] req b(2)
    by (simp add: s_def r_def crecvfile_def client_start_def Let_def)
  have "got_inv c d r 0 ?t"
    using snk req b(2) by (simp add: got_inv_def reply_def r_def client_start_def)
  moreover have "replies_ok d r (map snd (cout ?t))" "replied r 0 (map snd (cout ?t) @ [reply r 0])"
    by (simp_all add: replies_ok_def replied_def client_start_def)
  ultimately show "get_good c d r s" "ok \<Longrightarrow> at_reply c d r 0 s"
    using csend_ack_ok [of c d r 0 ?t ok] unfolding s
    by (simp_all add: get_good_def csend_ack_sel client_start_def)
  show "cinq s = []" "ctimeout s = 0" unfolding s by (simp_all add: csend_ack_sel client_start_def)
qed

subsection \<open>Progress\<close>

lemma crecv_run_append: "crecv_run c t (es @ es') s = crecv_run c t es' (crecv_run c t es s)"
  by (simp add: crecv_run_def)

definition cdeliver :: "sockaddr \<Rightarrow> verdict \<Rightarrow> byte list \<Rightarrow> nat \<Rightarrow> cevent list" where
  "cdeliver x v d n = concat (map (\<lambda>k. [CArrive x (block_pkt d k), CRecv v]) [0..<n])"

lemma cdeliver_Suc: "cdeliver x v d (Suc n) = cdeliver x v d n @ [CArrive x (block_pkt d n), CRecv v]"
  by (simp add: cdeliver_def)

lemma block_honest: "k < nblocks d \<Longrightarrow> honest d (block_pkt d k)"
  by (simp add: honest_def file_blocks_def TFTP_HEADER_def) (simp add: block_pkt_def wire_simps)

lemma block_got:
  fixes t x
  assumes at: "at_reply c d req k s" and q: "cinq s = []" and v: "fst v" and req: "is_request req"
  defines "r \<equiv> crecv_run c t [CArrive x (block_pkt d k), CRecv v] s"
  shows "if Suc k = nblocks d then cphase r = CFinished else at_reply c d req (Suc k) r \<and> cinq r = []"
proof -
  have inv: "got_inv c d req k s" and wt: "cphase s = CWaiting" and out: "replied req k (map snd (cout s))"
    using at by (simp_all add: at_reply_def)
  let ?s = "s\<lparr>cinq := [], from_addr := x\<rparr>"
  define b where "b = ntoh_header (host c) (recv_into (cdp_buf s) (block_pkt d k))"
  have kb: "k < nblocks d" using got_inv_bound [OF inv] .
  have dl: "length (cdp_buf s) = PKTSIZE" using got_inv_dp_len [OF inv] .
  note dr = data_received(1,2,4,5) [OF dl kb, of "host c", folded b_def] data_received(3) [OF dl kb]
  have i: "got_inv c d req k ?s" by (rule got_inv_frame [OF inv]) simp_all
  have e: "cdp_buf ?s = cdp_buf s" "cdp_buf (set_cdp_buf b ?s) = b" "cblock (set_cdp_buf b ?s) = of_nat (Suc k)"
    "cout (set_cdp_buf b ?s) = cout s"
    using inv by (simp_all add: cdp_buf_def set_cdp_buf_def bf_simps got_inv_def)
  have ne: "block_pkt d k \<noteq> []" by (simp add: block_pkt_def data_pkt_def hdr_def)
  have r: "r = caccept_block c v (recv_len (block_pkt d k)) (set_cdp_buf b ?s)"
    using wt q e dr ne
    by (simp add: r_def crecv_run_def chandle_data_def Let_def b_def [symmetric] del: of_nat_Suc)
  have "cinq r = []" by (simp add: r cinq_get)
  then show ?thesis
    using caccept_block_ok(2) [OF got_inv_set_dp [OF i dr(4)] _ req, of "recv_len (block_pkt d k)" v] out e dr v
    unfolding r by simp
qed

lemma lossless_get:
  assumes "at_reply c d req 0 s" "cinq s = []" "fst v" "is_request req" "n < nblocks d"
  shows "at_reply c d req n (crecv_run c t (cdeliver x v d n) s) \<and> cinq (crecv_run c t (cdeliver x v d n) s) = []"
  using assms(5)
proof (induction n)
  case 0
  with assms show ?case by (simp add: cdeliver_def crecv_run_def)
next
  case (Suc n)
  then have "at_reply c d req n (crecv_run c t (cdeliver x v d n) s)"
    "cinq (crecv_run c t (cdeliver x v d n) s) = []" by simp_all
  from block_got [OF this assms(3,4), of t x] Suc.prems show ?case
    unfolding cdeliver_Suc crecv_run_append by simp
qed

lemma cdeliver_honest: "n \<le> nblocks d \<Longrightarrow> list_all (chonest d) (cdeliver x v d n)"
  by (induction n) (simp_all add: cdeliver_def block_honest)

subsection \<open>Giving up\<close>

lemma chandle_data_timeout: "0 \<le> ctimeout s \<Longrightarrow> 0 \<le> ctimeout (chandle_data c v p s)"
  by (auto simp: chandle_data_def caccept_block_def cnext_ack_def cfinish_def cnak_def cflush_def csendto_def csynch_def
      set_cdp_buf_def csend_ack_sel Let_def split: prod.split)

lemma crecv_run_timeout:
  assumes "0 < crexmtval t" "0 \<le> ctimeout s"
  shows "0 \<le> ctimeout (crecv_run c t es s)"
  using assms(2) unfolding crecv_run_def
proof (induction es arbitrary: s)
  case (Cons e es)
  then have "0 \<le> ctimeout (crecv_step c t e s)"
    using assms(1) by (cases e) (auto simp: Let_def chandle_data_timeout ctimer_def csend_ack_sel set_cdp_buf_def split: list.split)
  with Cons.IH show ?case by simp
qed simp

lemma get_alarm_counts:
  assumes "crexmtval t \<noteq> 0" "cphase (crecv_step c t (CAlarm v) s) = CWaiting"
  shows "cphase s = CWaiting \<and> ctimeout (crecv_step c t (CAlarm v) s) = ctimeout s + crexmtval t \<and>
    ctimeout s + crexmtval t < cmaxtimeout t"
  using assms by (auto simp: ctimer_def csend_ack_sel Let_def split: if_splits)

interpretation get_timer: retransmission "\<lambda>s. cphase s = CWaiting" ctimeout "\<lambda>v. crecv_step c t (CAlarm v)" "crexmtval t" "cmaxtimeout t"
  for c t by unfold_locales (rule get_alarm_counts)

lemma crecv_run_alarms: "crecv_run c t (map CAlarm vs) s = fold (\<lambda>v. crecv_step c t (CAlarm v)) vs s"
  by (simp add: crecv_run_def fold_map comp_def del: crecv_step.simps)

section \<open>Properties\<close>

text \<open>A call of \<^verbatim>\<open>recvfile(fd, name, mode)\<close> on a new file.\<close>

definition client_get ::
  "cfg \<Rightarrow> settings \<Rightarrow> byte list \<Rightarrow> byte list \<Rightarrow> bool \<Rightarrow> client \<Rightarrow> cevent list \<Rightarrow> client" where
  "client_get c t name mode ok s es =
     crecv_run (mode_cfg c mode) t es (crecvfile (mode_cfg c mode) name mode ok s)"

lemma client_get_good:
  assumes "length (request_pkt RRQ name mode) \<le> PKTSIZE" "bufs_ok sb" "length ab = PKTSIZE"
    and "numbered d" "list_all (chonest d) es"
  shows "get_good (mode_cfg c mode) d (request_pkt RRQ name mode)
    (client_get c t name mode ok (client_start a sb ab (open_trunc None)) es)"
  unfolding client_get_def
  by (rule crecv_run_good [OF crecvfile_start(1) [OF assms(1-3)] assms(5,4) request_is_request [OF assms(1)]])

lemma mode_convert: "convert (mode_cfg c mode) = (mode = cbytes ''netascii'')"
  by (simp add: mode_cfg_def)

text \<open>
  C30: a get the client considers finished has left the server's file in the local file, with data
  packets lost, repeated and reordered at will, other packets in between, sends that fail
  and alarms; in netascii mode it is the decoded file.
\<close>

theorem client_get_stores:
  assumes "length (request_pkt RRQ name mode) \<le> PKTSIZE" "bufs_ok sb" "length ab = PKTSIZE"
    and "numbered (encoded (mode = cbytes ''netascii'') d)"
    and "list_all (chonest (encoded (mode = cbytes ''netascii'') d)) es"
    and "cphase (client_get c t name mode ok (client_start a sb ab (open_trunc None)) es) = CFinished"
  shows "fetched (client_get c t name mode ok (client_start a sb ab (open_trunc None)) es) = d"
  using client_get_good [OF assms(1-5), of c t ok a] assms(6)
  by (simp add: get_good_def get_ok_def mode_convert decoded_encoded)

lemma lossless_client_get:
  assumes req: "length (request_pkt RRQ name mode) \<le> PKTSIZE" and b: "bufs_ok sb" "length ab = PKTSIZE"
    and v: "fst v"
  shows "cphase (client_get c t name mode True (client_start a sb ab (open_trunc None)) (cdeliver x v d (nblocks d))) = CFinished"
proof -
  note st = crecvfile_start(2) [OF assms(1-3), where c = "mode_cfg c mode" and d = d and ok = True and a = a]
    crecvfile_start(3) [OF assms(1-3), where c = "mode_cfg c mode" and ok = True and a = a]
  obtain k where k: "nblocks d = Suc k" by (auto simp: nblocks_def)
  then have "k < nblocks d" by simp
  from lossless_get [OF st(1) [OF TrueI] st(2) v request_is_request [OF req] this, of t x] k
    block_got [OF _ _ v request_is_request [OF req], of "mode_cfg c mode" d k _ t x]
  show ?thesis unfolding client_get_def k cdeliver_Suc crecv_run_append by fastforce
qed

theorem client_get_stores_witness:
  "fetched (client_get demo_ccfg demo_settings (cbytes ''x'') (cbytes ''octet'') True
     (client_start demo_addr subs_start (replicate PKTSIZE 0) (open_trunc None))
     (cdeliver demo_addr (True, True, True) [1, 2] 1)) = [1, 2]"
proof -
  have n: "nblocks [1, 2] = 1" by (simp add: nblocks_def size_defs)
  have "cphase (client_get demo_ccfg demo_settings (cbytes ''x'') (cbytes ''octet'') True
     (client_start demo_addr subs_start (replicate PKTSIZE 0) (open_trunc None))
     (cdeliver demo_addr (True, True, True) [1, 2] 1)) = CFinished"
    using lossless_client_get [OF demo_request_fits(1), where sb = subs_start and ab = "replicate PKTSIZE 0"
        and v = "(True, True, True)" and d = "[1, 2]"]
    by (simp add: n)
  from client_get_stores [OF demo_request_fits(1) _ _ _ _ this, of "[1, 2]"] show ?thesis
    using cdeliver_honest [of 1 "[1, 2]"]
    by (simp add: demo_request_fits(2) encoded_def numbered_def n)
qed

text \<open>
  What the client sends during a get is, with immediate repetitions removed, the read request
  and then the acknowledgements of the blocks 1, 2, ... in order, never one too many.
\<close>

theorem client_get_replies:
  assumes "length (request_pkt RRQ name mode) \<le> PKTSIZE" "bufs_ok sb" "length ab = PKTSIZE"
    and "numbered d" "list_all (chonest d) es"
  shows "prefix (remdups_adj (map snd (cout (client_get c t name mode ok (client_start a sb ab (open_trunc None)) es))))
    (request_pkt RRQ name mode # map (\<lambda>k. ack_pkt (of_nat (Suc k))) [0..<nblocks d])"
proof -
  let ?s = "client_get c t name mode ok (client_start a sb ab (open_trunc None)) es"
    and ?req = "request_pkt RRQ name mode"
  have g: "get_ok (mode_cfg c mode) d ?req ?s"
    using client_get_good [OF assms, of c t ok a] by (simp add: get_good_def)
  have "replies_ok d ?req (map snd (cout ?s))"
    using g replied_replies got_inv_bound unfolding get_ok_def
    by (auto split: cphase.splits simp: less_imp_le)
  moreover have "map (reply ?req) [0..<Suc k] = ?req # map (\<lambda>k. ack_pkt (of_nat (Suc k))) [0..<k]" for k
    by (induction k) (simp_all add: reply_def)
  moreover have "prefix (map f [0..<k]) (map f [0..<m])" if "k \<le> m" for k m and f :: "nat \<Rightarrow> datagram"
    using that by (metis le_add_diff_inverse map_append prefixI upt_add_eq_append zero_le)
  ultimately show ?thesis
    by (auto simp: replies_ok_def replied_def simp del: upt_Suc of_nat_Suc)
qed

theorem client_get_replies_witness:
  "prefix (remdups_adj (map snd (cout (client_get demo_ccfg demo_settings (cbytes ''x'') (cbytes ''octet'') True
      (client_start demo_addr subs_start (replicate PKTSIZE 0) (open_trunc None))
      (cdeliver demo_addr (True, True, True) [1] 1 @ [CRecvFails])))))
    [request_pkt RRQ (cbytes ''x'') (cbytes ''octet''), ack_pkt 1]"
proof -
  have n: "nblocks [1] = 1" by (simp add: nblocks_def size_defs)
  then show ?thesis
    using client_get_replies [OF demo_request_fits(1), of subs_start "replicate PKTSIZE 0" "[1]"
        "cdeliver demo_addr (True, True, True) [1] 1 @ [CRecvFails]" demo_ccfg demo_settings True demo_addr]
      cdeliver_honest [of 1 "[1]"]
    by (simp add: numbered_def n)
qed

text \<open>
  On a network that loses nothing, a get ends, and the file has arrived.
\<close>

theorem client_get_lossless:
  assumes "length (request_pkt RRQ name mode) \<le> PKTSIZE" "bufs_ok sb" "length ab = PKTSIZE" "fst v"
    and "numbered (encoded (mode = cbytes ''netascii'') d)"
  shows "let e = encoded (mode = cbytes ''netascii'') d;
      s = client_get c t name mode True (client_start a sb ab (open_trunc None)) (cdeliver x v e (nblocks e))
    in cphase s = CFinished \<and> fetched s = d"
proof -
  let ?e = "encoded (mode = cbytes ''netascii'') d"
  let ?s = "client_get c t name mode True (client_start a sb ab (open_trunc None)) (cdeliver x v ?e (nblocks ?e))"
  have fin: "cphase ?s = CFinished" by (rule lossless_client_get [OF assms(1-4)])
  have "get_good (mode_cfg c mode) ?e (request_pkt RRQ name mode) ?s"
    by (rule client_get_good [OF assms(1-3,5) cdeliver_honest]) simp
  with fin show ?thesis by (simp add: Let_def get_good_def get_ok_def mode_convert decoded_encoded)
qed

theorem client_get_lossless_witness:
  "let e = encoded False (replicate 512 9);
      s = client_get demo_ccfg demo_settings (cbytes ''x'') (cbytes ''octet'') True
        (client_start demo_addr subs_start (replicate PKTSIZE 0) (open_trunc None))
        (cdeliver demo_addr (True, False, False) e (nblocks e))
    in cphase s = CFinished \<and> fetched s = replicate 512 9"
  using client_get_lossless [OF demo_request_fits(1), of subs_start "replicate PKTSIZE 0" "(True, False, False)"
      "replicate 512 9" demo_ccfg demo_settings demo_addr demo_addr]
  by (simp add: demo_request_fits(2) numbered_def nblocks_def encoded_def size_defs)

text \<open>
  The client never asks who sent a packet.  One stray datagram from anywhere, of no type
  it knows, redirects the transfer: the current packet is sent to its sender from then on.
\<close>

theorem client_follows_last_sender:
  assumes "cphase s = CWaiting" "cinq s = []" "length (cackbuf s) = PKTSIZE" "TFTP_HEADER \<le> length p"
    and "net_short p 0 \<notin> {ACK, ERROR}" "0 < crexmtval t" "ctimeout s + crexmtval t < cmaxtimeout t"
    and "\<not> resend_odd t"
  shows "cout (csend_run c t [CArrive x p, CRecv v, CAlarm (True, ok2, ok3)] s) =
    cout s @ [(x, take (nat (csize s + 4)) (cdp_buf s))]"
proof -
  let ?a = "ntoh_header (host c) (recv_into (cackbuf s) p)"
  have p: "p \<noteq> []" "4 \<le> length p" using assms(4) by (auto simp: TFTP_HEADER_def)
  have op: "th_opcode (host c) ?a = net_short p 0"
    using p(2) assms(3) by (simp add: recv_into_def ntoh_header_opcode net_short_overlay net_short_prefix size_defs)
  have "csend_run c t [CArrive x p, CRecv v] s = s\<lparr>cinq := [], from_addr := x, cackbuf := ?a\<rparr>"
    using assms(1,2,5) p(1) op by (simp add: csend_run_def chandle_ack_def Let_def)
  then have "csend_run c t [CArrive x p, CRecv v, CAlarm (True, ok2, ok3)] s =
      csend_step c t (CAlarm (True, ok2, ok3)) (s\<lparr>cinq := [], from_addr := x, cackbuf := ?a\<rparr>)"
    using csend_run_append [of c t "[CArrive x p, CRecv v]" "[CAlarm (True, ok2, ok3)]" s]
    by (simp add: csend_run_def)
  then show ?thesis
    using assms(1,6,7,8) by (simp add: ctimer_def csend_data_def csendto_def cdp_buf_def Let_def)
qed

theorem client_follows_last_sender_witness:
  "cout (csend_run demo_ccfg demo_settings
      [CArrive (demo_addr\<lparr>port := 4711\<rparr>) [0, 9, 0, 0], CRecv (True, True, True), CAlarm (True, True, True)]
      (client_start demo_addr subs_start (replicate PKTSIZE 0) (open_read []))) =
    [(demo_addr\<lparr>port := 4711\<rparr>, [0, 0, 0, 0])]"
proof -
  let ?s = "client_start demo_addr subs_start (replicate PKTSIZE 0) (open_read [])"
  have "take 4 (cdp_buf ?s) = replicate 4 0"
    by (simp add: client_start_def cdp_buf_def subs_start_def size_defs)
  then have "take 4 (cdp_buf ?s) = [0, 0, 0, 0]" by (simp add: numeral_eq_Suc)
  then show ?thesis
    using client_follows_last_sender [of ?s "[0, 9, 0, 0]" demo_settings demo_ccfg "demo_addr\<lparr>port := 4711\<rparr>"
        "(True, True, True)" True True]
    by (simp add: client_start_def demo_settings_def net_short_def mk16_def opcode_defs TFTP_HEADER_def)
qed

text \<open>
  The error packet of the client has no terminating NUL: its length is that of the message and
  the header, while the daemon, whose table and code are otherwise the same, counts the NUL.
\<close>

theorem client_nak_packet:
  assumes "length (cackbuf s) = PKTSIZE" "nak_code_msg errmsgs (strerror c) err = (code, msg)"
    and "length msg \<le> SEGSIZE"
  shows "cout (cnak c True err s) = cout s @ [(from_addr s, hdr ERROR code @ msg)] \<and>
    hdr ERROR code @ msg \<noteq> error_pkt code msg"
proof -
  let ?b = "put_header (host c) ERROR code (cackbuf s)" and ?pad = "strncpy_pad SEGSIZE msg"
  have pad: "?pad = msg @ replicate (SEGSIZE - length msg) 0" "length ?pad = SEGSIZE"
    using assms(3) by (simp_all add: strncpy_pad_def)
  have "overlay ?b 4 ?pad = hdr ERROR code @ msg @ replicate (SEGSIZE - length msg) 0"
    using assms(1) by (simp add: overlay_def wire_simps pad PKTSIZE_def TFTP_HEADER_def)
  then have "take (length msg + 4) (overlay ?b 4 ?pad) = hdr ERROR code @ msg" by simp
  then show ?thesis
    by (simp add: cnak_def assms(2) csendto_def error_pkt_def Let_def)
qed

theorem client_nak_packet_witness:
  "cout (cnak demo_ccfg True ENOSPACE (client_start demo_addr subs_start (replicate PKTSIZE 0) (open_read []))) =
     [(demo_addr, hdr ERROR 3 @ cbytes ''Disk full or allocation exceeded'')]"
  using client_nak_packet [of "client_start demo_addr subs_start (replicate PKTSIZE 0) (open_read [])"
      demo_ccfg ENOSPACE 3 "cbytes ''Disk full or allocation exceeded''"]
  by (simp add: client_start_def nak_code_msg_def errmsgs_def ecode_defs SEGSIZE_def)

text \<open>
  A get ends after as many alarms in a row as there are intervals in the total timeout, whatever happened before.
\<close>

theorem client_get_gives_up:
  assumes "0 < crexmtval t" "vs \<noteq> []" "cmaxtimeout t \<le> int (length vs) * crexmtval t"
    and "length (request_pkt RRQ name mode) \<le> PKTSIZE" "bufs_ok sb" "length ab = PKTSIZE"
  shows "cphase (crecv_run (mode_cfg c mode) t (map CAlarm vs)
    (client_get c t name mode ok (client_start a sb ab (open_trunc None)) es)) \<noteq> CWaiting"
proof -
  have "0 \<le> ctimeout (client_get c t name mode ok (client_start a sb ab (open_trunc None)) es)"
    unfolding client_get_def using assms(1) crecvfile_start(4) [OF assms(4-6)] by (intro crecv_run_timeout) simp_all
  then show ?thesis unfolding crecv_run_alarms by (intro get_timer.gives_up [OF assms(1) _ assms(2,3)])
qed

end
