(* ===== verification/Tftp_Calls.thy ===== *)
theory Tftp_Calls
  imports Tftp_Get
begin

text \<open>
  Several transfers of one client.  A transfer that reaches its end (or its label \<^verbatim>\<open>abort\<close>) calls
  \<^verbatim>\<open>initsock\<close>, which opens a new socket; one that times out, or that is interrupted, jumps from \<^verbatim>\<open>timer\<close>
  (or \<^verbatim>\<open>intr\<close>) into the command loop, and the next transfer uses the same socket, with the datagrams
  queued on it.
\<close>

section \<open>The next call\<close>

text \<open>\<^verbatim>\<open>initsock\<close>: a new socket has an empty queue; \<open>Inl\<close> is the exit code when there is none.\<close>

definition initsock :: "bool \<Rightarrow> bool \<Rightarrow> int + (sockaddr \<times> datagram) list" where
  "initsock created bound = (if \<not> created then Inl 3 else if \<not> bound then Inl 1 else Inr [])"

text \<open>The interrupt key takes a call the way its timer takes it.\<close>

definition intr :: "client \<Rightarrow> client" where
  "intr s = (if cphase s = CWaiting then s\<lparr>cphase := CTimedOut\<rparr> else s)"

definition next_call :: "bool \<Rightarrow> bool \<Rightarrow> sockaddr \<Rightarrow> cfile \<Rightarrow> client \<Rightarrow> int + client" where
  "next_call created bound a f s =
     map_sum id (\<lambda>q. (client_start a (snd (cfs s)) (cackbuf s) f)\<lparr>cinq := q\<rparr>)
       (if cphase s = CTimedOut then Inr (cinq s) else initsock created bound)"

lemma next_call_fresh:
  "cphase s \<noteq> CTimedOut \<Longrightarrow> next_call True True a f s = Inr (client_start a (snd (cfs s)) (cackbuf s) f)"
  by (simp add: next_call_def initsock_def client_start_def)

text \<open>The start of a get does not look at the queue.\<close>

lemma crecvfile_inq: "crecvfile c name mode ok (s\<lparr>cinq := q\<rparr>) = (crecvfile c name mode ok s)\<lparr>cinq := q\<rparr>"
proof -
  obtain i b where w: "w_init (snd (cfs s)) = (i, b)" by fastforce
  show ?thesis
    by (rule client.equality)
      (simp_all add: crecvfile_def w csend_ack_def cflush_def csendto_def Let_def split: option.split)
qed

section \<open>The static buffers\<close>

text \<open>Whatever a call meets, the buffers it leaves to the next have their sizes.\<close>

definition call_mem :: "client \<Rightarrow> bool" where
  "call_mem s \<longleftrightarrow> bufs_ok (snd (cfs s)) \<and> length (cackbuf s) = PKTSIZE"

lemma bufs_ok_updates [simp]:
  "bufs_ok (set_counter i n s) = bufs_ok s" "bufs_ok (s\<lparr>nextone := j\<rparr>) = bufs_ok s" "bufs_ok (s\<lparr>current := j\<rparr>) = bufs_ok s"
  "bufs_ok (s\<lparr>errno := e\<rparr>) = bufs_ok s" "bufs_ok (s\<lparr>newline := nl\<rparr>) = bufs_ok s" "bufs_ok (s\<lparr>prevchar := pc\<rparr>) = bufs_ok s"
  by (auto simp: bufs_ok_def bf_simps)

lemma bufs_ok_set: "bufs_ok s \<Longrightarrow> length b = PKTSIZE \<Longrightarrow> bufs_ok (set_bbuf i b s)"
  by (auto simp: bufs_ok_def bf_simps)

lemma sys_read_len: "sys_read f n = (Inr bs, f') \<Longrightarrow> length bs \<le> n"
  by (auto simp: sys_read_def Let_def split: if_splits)

lemma read_ahead_bufs:
  assumes "bufs_ok (snd fx)"
  shows "bufs_ok (snd (read_ahead v fx))"
proof -
  obtain f s where fx: "fx = (f, s)" by fastforce
  have len: "length (bbuf (bfs s i)) = PKTSIZE" for i using assms fx by (simp add: bufs_okD)
  have fill: "length bs \<le> SEGSIZE \<Longrightarrow> length (overlay (bbuf (bfs s i)) 4 bs) = PKTSIZE" for bs i
    using len by (simp add: size_defs)
  obtain bs f' nl pc where fa: "fill_ascii SEGSIZE (f, newline s, prevchar s) = (bs, f', nl, pc)" by (metis prod_cases4)
  have "length bs \<le> SEGSIZE" using length_fill_ascii [of SEGSIZE "(f, newline s, prevchar s)"] fa by simp
  with assms fx fa fill show ?thesis
    by (auto simp: read_ahead_def Let_def bf_simps intro!: bufs_ok_set dest: sys_read_len split: sum.split prod.split)
qed

lemma readit_bufs: "bufs_ok (snd fx) \<Longrightarrow> readit v fx = (n, i, f, t) \<Longrightarrow> bufs_ok t"
  using read_ahead_bufs [of "(fst fx, (set_counter (current (snd fx)) BF_FREE (snd fx))\<lparr>current := \<not> current (snd fx)\<rparr>)" v]
  by (cases fx) (auto simp: readit_def Let_def split: if_splits prod.splits)

lemma write_behind_bufs: "bufs_ok (snd fx) \<Longrightarrow> bufs_ok (snd (snd (write_behind v fx)))"
  by (cases fx) (auto simp: write_behind_def Let_def split: sum.split prod.split)

lemma writeit_bufs: "bufs_ok (snd fx) \<Longrightarrow> writeit v n fx = (m, i, f, t) \<Longrightarrow> bufs_ok t"
  using write_behind_bufs [of "(fst fx, (set_counter (current (snd fx)) n (snd fx))\<lparr>current := \<not> current (snd fx)\<rparr>)" v]
  by (cases fx) (auto simp: writeit_def Let_def split: if_splits prod.splits)

lemma makerequest_len:
  assumes "makerequest e op name mode tp = Some (n, b)"
  shows "length b = length tp"
proof -
  have "length (request_pkt op name mode) \<le> length tp"
    using makerequest_overrun [of tp op name mode e] assms by (rule_tac ccontr) simp
  with makerequest_pkt [OF this, of e] assms show ?thesis by auto
qed

lemma call_mem_len: "call_mem s \<Longrightarrow> length (cdp_buf s) = PKTSIZE"
  by (simp add: call_mem_def cdp_buf_def bufs_okD)

lemma call_mem_set: "call_mem s \<Longrightarrow> length b = PKTSIZE \<Longrightarrow> call_mem (set_cdp_buf b s)"
  by (simp add: call_mem_def set_cdp_buf_def bufs_ok_set)

lemma call_mem_cong: "cfs s' = cfs s \<Longrightarrow> cackbuf s' = cackbuf s \<Longrightarrow> call_mem s' = call_mem s"
  by (simp add: call_mem_def)

lemma call_mem_csend_data: "call_mem s \<Longrightarrow> call_mem (csend_data c t v s)"
  by (auto simp: call_mem_def csend_data_def csendto_def Let_def read_ahead_bufs split: prod.split)

lemma call_mem_csend_ack: "call_mem s \<Longrightarrow> call_mem (csend_ack c ok s)"
  by (auto simp: call_mem_def csend_ack_def cflush_def csendto_def write_behind_bufs)

lemma call_mem_cnak: "call_mem s \<Longrightarrow> call_mem (cnak c ok e s)"
  by (auto simp: call_mem_def cnak_def csendto_def Let_def strncpy_pad_def size_defs split: prod.split)

lemma call_mem_cnext_data:
  assumes "call_mem s"
  shows "call_mem (cnext_data c t v s)"
proof -
  obtain n i f u where r: "readit (convert c) (cfs s) = (n, i, f, u)" by (metis prod_cases4)
  have "bufs_ok u" using readit_bufs [OF _ r] assms by (simp add: call_mem_def)
  then have m: "call_mem (s\<lparr>cfs := (f, u), cdp := i, csize := n\<rparr>)" using assms by (simp add: call_mem_def)
  then have "call_mem ((set_cdp_buf (put_header (host c) DATA b (cdp_buf (s\<lparr>cfs := (f, u), cdp := i, csize := n\<rparr>)))
      (s\<lparr>cfs := (f, u), cdp := i, csize := n\<rparr>))\<lparr>ctimeout := 0\<rparr>)" for b
    using call_mem_set [OF m] call_mem_len [OF m] by (simp add: call_mem_def)
  with r m show ?thesis
    by (auto simp: cnext_data_def Let_def intro!: call_mem_csend_data call_mem_cnak simp: call_mem_cong [of "_\<lparr>cphase := _\<rparr>" "_"])
qed

lemmas call_mem_frame = call_mem_cong [symmetric, THEN iffD1]

lemma call_mem_csendfile:
  assumes "call_mem s"
  shows "call_mem (csendfile c t name mode v s)"
proof -
  obtain i b where r: "r_init (snd (cfs s)) = (i, b)" by fastforce
  let ?s = "s\<lparr>cfs := (fst (cfs s), b), cdp := i, cblock := 0, amount := 0, firsttrip := True\<rparr>"
  have m: "call_mem ?s" using assms r by (auto simp: call_mem_def r_init_def rw_init_def bufs_ok_def bf_simps)
  show ?thesis
  proof (cases "makerequest (host c) WRQ name mode (cdp_buf ?s)")
    case None
    with r call_mem_frame [OF _ _ m, of "?s\<lparr>cphase := COverrun\<rparr>"] show ?thesis by (simp add: csendfile_def Let_def)
  next
    case (Some nb)
    then obtain n b' where nb: "makerequest (host c) WRQ name mode (cdp_buf ?s) = Some (n, b')" by (cases nb) simp
    from makerequest_len [OF nb] call_mem_len [OF m] have "call_mem (set_cdp_buf b' ?s)" by (intro call_mem_set m) simp
    from call_mem_csend_data [OF call_mem_frame [OF _ _ this]] r nb show ?thesis by (simp add: csendfile_def Let_def)
  qed
qed

lemma call_mem_crecvfile:
  assumes "call_mem s"
  shows "call_mem (crecvfile c name mode ok s)"
proof -
  obtain i b where r: "w_init (snd (cfs s)) = (i, b)" by fastforce
  have "bufs_ok b" using assms r by (auto simp: call_mem_def w_init_def rw_init_def bufs_ok_def bf_simps)
  with assms r show ?thesis
    by (auto simp: crecvfile_def Let_def call_mem_def [of "_\<lparr>cphase := _\<rparr>"] makerequest_len intro!: call_mem_csend_ack split: option.split)
      (simp_all add: call_mem_def makerequest_len)
qed

lemma ntoh_recv_len: "length b = PKTSIZE \<Longrightarrow> length (ntoh_header e (recv_into b p)) = PKTSIZE"
  by (simp add: recv_into_def)

lemma call_mem_chandle_ack:
  assumes "call_mem s"
  shows "call_mem (chandle_ack c t v p s)"
proof -
  have m: "call_mem (s\<lparr>cackbuf := ntoh_header (host c) (recv_into (cackbuf s) p)\<rparr>)"
    using assms by (simp add: call_mem_def ntoh_recv_len)
  note fr = call_mem_frame [OF _ _ m]
  show ?thesis
    unfolding chandle_ack_def Let_def csynch_def
    by (auto intro!: m fr call_mem_cnext_data call_mem_csend_data)
qed

lemma call_mem_ctimer: "call_mem s \<Longrightarrow> (\<And>s. call_mem s \<Longrightarrow> call_mem (r s)) \<Longrightarrow> call_mem (ctimer t r s)"
  by (simp add: ctimer_def Let_def call_mem_def)

lemma call_mem_csend_step:
  assumes "call_mem s"
  shows "call_mem (csend_step c t e s)"
proof -
  have "call_mem (s\<lparr>cinq := q, from_addr := a, cackbuf := recv_into (cackbuf s) p\<rparr>)" for q a p
    using assms by (simp add: call_mem_def recv_into_def)
  with assms call_mem_frame [OF _ _ assms] show ?thesis
    by (cases e) (auto simp: Let_def intro!: call_mem_ctimer call_mem_chandle_ack call_mem_csend_data split: list.split)
qed

lemma call_mem_caccept_block:
  assumes "call_mem s"
  shows "call_mem (caccept_block c v n s)"
proof -
  obtain m i f u where w: "writeit (convert c) (n - 4) (cfs s) = (m, i, f, u)" by (metis prod_cases4)
  let ?s = "s\<lparr>cfs := (f, u), cdp := i, csize := m\<rparr>"
  have s: "call_mem ?s" using writeit_bufs [OF _ w] assms by (simp add: call_mem_def)
  have f: "call_mem s' \<Longrightarrow> call_mem (cfinish c ok s')" for s' ok
    by (auto simp: cfinish_def cflush_def csendto_def call_mem_def write_behind_bufs Let_def)
  have a: "call_mem s' \<Longrightarrow> call_mem (cnext_ack c ok s')" for s' ok
    unfolding cnext_ack_def by (intro call_mem_csend_ack) (simp add: call_mem_def)
  show ?thesis
    using f [OF call_mem_cnak [OF s]] a [OF call_mem_frame [OF _ _ s]] f [OF call_mem_frame [OF _ _ s]] w
    by (simp add: caccept_block_def Let_def)
qed

lemma call_mem_chandle_data:
  assumes "call_mem s"
  shows "call_mem (chandle_data c v p s)"
proof -
  have m: "call_mem (set_cdp_buf (ntoh_header (host c) (recv_into (cdp_buf s) p)) s)"
    by (intro call_mem_set assms ntoh_recv_len call_mem_len)
  note fr = call_mem_frame [OF _ _ m]
  have "call_mem (cflush c s')" if "call_mem s'" for s' using that by (simp add: cflush_def call_mem_def write_behind_bufs)
  from this [OF m] have "call_mem ((cflush c (set_cdp_buf (ntoh_header (host c) (recv_into (cdp_buf s) p)) s))\<lparr>cphase := x\<rparr>)" for x
    by (simp add: call_mem_def)
  with m fr show ?thesis
    unfolding chandle_data_def Let_def csynch_def
    by (auto intro!: call_mem_caccept_block call_mem_csend_ack)
qed

lemma call_mem_crecv_step:
  assumes "call_mem s"
  shows "call_mem (crecv_step c t e s)"
proof -
  have "call_mem (set_cdp_buf (recv_into (cdp_buf s) p) (s\<lparr>cinq := q, from_addr := a\<rparr>))" for p q a
  proof (rule call_mem_set)
    show "call_mem (s\<lparr>cinq := q, from_addr := a\<rparr>)" by (rule call_mem_frame [OF _ _ assms]) simp_all
    show "length (recv_into (cdp_buf s) p) = PKTSIZE" using call_mem_len [OF assms] by (simp add: recv_into_def)
  qed
  with assms call_mem_frame [OF _ _ assms] show ?thesis
    by (cases e) (auto simp: Let_def intro!: call_mem_ctimer call_mem_chandle_data call_mem_csend_ack split: list.split)
qed

lemma call_mem_runs:
  assumes "call_mem s"
  shows "call_mem (client_put c t name mode v s es)" "call_mem (client_get c t name mode ok s es)"
proof -
  have "call_mem s' \<Longrightarrow> call_mem (fold (csend_step d t) es s')" "call_mem s' \<Longrightarrow> call_mem (fold (crecv_step d t) es s')" for d s'
    by (induction es arbitrary: s') (simp_all add: call_mem_csend_step call_mem_crecv_step del: csend_step.simps crecv_step.simps)
  with assms show "call_mem (client_put c t name mode v s es)" "call_mem (client_get c t name mode ok s es)"
    by (simp_all add: client_put_def client_get_def csend_run_def crecv_run_def call_mem_csendfile call_mem_crecvfile)
qed

lemma call_mem_next: "call_mem s \<Longrightarrow> next_call created bound a f s = Inr s' \<Longrightarrow> call_mem s'"
  by (auto simp: next_call_def map_sum_def call_mem_def client_start_def split: if_splits sum.splits)

section \<open>A get that times out\<close>

lemma crecv_run_replicate:
  "crecv_run c t (replicate (Suc n) e) s = crecv_step c t e (crecv_run c t (replicate n e) s)"
  by (simp add: crecv_run_def replicate_append_same [symmetric] del: replicate.simps)

text \<open>Alarms in a row repeat the reply until the time is up; the buffers stay as they are.\<close>

lemma get_alarm:
  assumes "at_reply c d req k s" "cinq s = []" "fst v" "crexmtval t \<noteq> 0"
  defines "r \<equiv> crecv_step c t (CAlarm v) s"
  shows "if cmaxtimeout t \<le> ctimeout s + crexmtval t
    then cphase r = CTimedOut \<and> cinq r = [] \<and> bufs_ok (snd (cfs r)) \<and> length (cackbuf r) = PKTSIZE
    else at_reply c d req k r \<and> cinq r = [] \<and> ctimeout r = ctimeout s + crexmtval t"
proof -
  let ?s = "s\<lparr>ctimeout := ctimeout s + crexmtval t\<rparr>"
  have inv: "got_inv c d req k s" and w: "cphase s = CWaiting" and rep: "replied req k (map snd (cout s))"
    using assms(1) by (simp_all add: at_reply_def)
  have i: "got_inv c d req k ?s" by (rule got_inv_frame [OF inv]) simp_all
  have "replied req k (map snd (cout ?s) @ [reply req k])" using replied_again [OF rep] by simp
  then have "at_reply c d req k (csend_ack c True ?s)"
    using csend_ack_ok(2) [OF i] rep got_inv_bound [OF inv] replied_replies by fastforce
  then show ?thesis
    using w inv assms(2-4)
    by (auto simp: r_def ctimer_def Let_def csend_ack_sel got_inv_def sink_inv_def split: prod.splits)
qed


lemma get_alarms:
  assumes "at_reply c d req k s" "cinq s = []" "fst v" "crexmtval t \<noteq> 0"
  shows "at_reply c d req k (crecv_run c t (replicate n (CAlarm v)) s) \<and> cinq (crecv_run c t (replicate n (CAlarm v)) s) = [] \<and>
      ctimeout (crecv_run c t (replicate n (CAlarm v)) s) = ctimeout s + int n * crexmtval t \<and>
      (0 < n \<longrightarrow> ctimeout s + int n * crexmtval t < cmaxtimeout t) \<or>
    cphase (crecv_run c t (replicate n (CAlarm v)) s) = CTimedOut \<and> cinq (crecv_run c t (replicate n (CAlarm v)) s) = [] \<and>
      bufs_ok (snd (cfs (crecv_run c t (replicate n (CAlarm v)) s))) \<and>
      length (cackbuf (crecv_run c t (replicate n (CAlarm v)) s)) = PKTSIZE"
proof (induction n)
  case 0
  with assms show ?case by (simp add: crecv_run_def)
next
  case (Suc n)
  let ?r = "crecv_run c t (replicate n (CAlarm v)) s"
  show ?case
  proof (cases "cphase ?r = CTimedOut")
    case True
    with Suc show ?thesis unfolding crecv_run_replicate by (auto simp: at_reply_def)
  next
    case False
    with Suc have r: "at_reply c d req k ?r" "cinq ?r = []" "ctimeout ?r = ctimeout s + int n * crexmtval t" by auto
    from get_alarm [OF r(1,2) assms(3,4)] r(3) show ?thesis
      unfolding crecv_run_replicate by (auto simp: algebra_simps split: if_splits)
  qed
qed

lemma at_reply_sizes: "at_reply c d req k s \<Longrightarrow> cphase s = CWaiting \<and> bufs_ok (snd (cfs s)) \<and> length (cackbuf s) = PKTSIZE"
  by (auto simp: at_reply_def got_inv_def sink_inv_def split: prod.splits)

section \<open>Properties\<close>

text \<open>
  C31: a get that times out or is interrupted leaves its socket to the next: when a block of its
  server comes late, the next get, of another file, takes it for its own and ends with the contents of
  the old file.  (After a call that ends by itself the socket is new and nothing is left on it.)
\<close>

theorem next_get_stores_old_file:
  assumes "length (request_pkt RRQ old mode) \<le> PKTSIZE" "length (request_pkt RRQ new mode) \<le> PKTSIZE"
    and "bufs_ok sb" "length ab = PKTSIZE" "fst v" "crexmtval t \<noteq> 0"
    and "interrupted \<or> 0 < n \<and> cmaxtimeout t \<le> int n * crexmtval t"
    and "length (encoded (mode = cbytes ''netascii'') d) < SEGSIZE"
  shows "let s0 = client_get c t old mode True (client_start a sb ab (open_trunc None)) (replicate n (CAlarm v));
           s1 = crecv_step (mode_cfg c mode) t (CArrive x (block_pkt (encoded (mode = cbytes ''netascii'') d) 0))
                  (if interrupted then intr s0 else s0)
    in \<exists>s2. next_call created bound b (open_trunc None) s1 = Inr s2 \<and>
      cphase (client_get c t new mode True s2 [CRecv v]) = CFinished \<and> fetched (client_get c t new mode True s2 [CRecv v]) = d"
proof -
  let ?c = "mode_cfg c mode" and ?e = "encoded (mode = cbytes ''netascii'') d"
  let ?r0 = "client_get c t old mode True (client_start a sb ab (open_trunc None)) (replicate n (CAlarm v))"
  define r where "r = (if interrupted then intr ?r0 else ?r0)"
  have z: "at_reply ?c ?e (request_pkt RRQ old mode) 0 (crecvfile ?c old mode True (client_start a sb ab (open_trunc None)))"
    by (rule crecvfile_start(2) [OF assms(1,3,4) TrueI])
  have r: "cphase r = CTimedOut" "cinq r = []" "bufs_ok (snd (cfs r))" "length (cackbuf r) = PKTSIZE"
    using get_alarms [OF z _ assms(5,6), of n] at_reply_sizes [where s = ?r0] assms(7)
      crecvfile_start(3,4) [OF assms(1,3,4), where c = ?c and ok = True and a = a]
    by (auto simp: client_get_def r_def intr_def)
  have s1: "crecv_step ?c t (CArrive x (block_pkt ?e 0)) r = r\<lparr>cinq := [(x, block_pkt ?e 0)]\<rparr>" using r(2) by simp
  let ?f = "client_start b (snd (cfs r)) (cackbuf r) (open_trunc None)"
  let ?s2 = "?f\<lparr>cinq := [(x, block_pkt ?e 0)]\<rparr>"
  have n1: "next_call created bound b (open_trunc None) (r\<lparr>cinq := [(x, block_pkt ?e 0)]\<rparr>) = Inr ?s2"
    using r(1) by (simp add: next_call_def)
  have q: "cinq (crecvfile ?c new mode True ?f) = []" by (rule crecvfile_start(3) [OF assms(2) r(3,4)])
  have run: "client_get c t new mode True ?s2 [CRecv v] = client_get c t new mode True ?f [CArrive x (block_pkt ?e 0), CRecv v]"
    unfolding client_get_def crecvfile_inq using q by (simp add: crecv_run_def)
  have one: "nblocks ?e = 1" using assms(8) by (simp add: nblocks_def)
  have fin: "cphase (client_get c t new mode True ?f [CArrive x (block_pkt ?e 0), CRecv v]) = CFinished"
    using block_got [OF crecvfile_start(2) [OF assms(2) r(3,4) TrueI] q assms(5) request_is_request [OF assms(2)], of ?e t x] one
    unfolding client_get_def by simp
  have "get_good ?c ?e (request_pkt RRQ new mode) (client_get c t new mode True ?f [CArrive x (block_pkt ?e 0), CRecv v])"
    by (rule client_get_good [OF assms(2) r(3,4)]) (use one in \<open>simp_all add: numbered_def block_honest\<close>)
  with fin have "fetched (client_get c t new mode True ?f [CArrive x (block_pkt ?e 0), CRecv v]) = d"
    by (simp add: get_good_def get_ok_def decoded_encoded mode_convert)
  with fin n1 run show ?thesis unfolding Let_def r_def [symmetric] s1 by (intro exI [of _ ?s2]) simp
qed

theorem next_get_stores_old_file_witness:
  "let s0 = client_get demo_ccfg demo_settings (cbytes ''old'') (cbytes ''octet'') True
         (client_start demo_addr subs_start (replicate PKTSIZE 0) (open_trunc None)) (replicate 5 (CAlarm (True, True, True)));
       s1 = crecv_step (mode_cfg demo_ccfg (cbytes ''octet'')) demo_settings (CArrive demo_addr (block_pkt [1, 2] 0)) s0
   in \<exists>s2. next_call True True demo_addr (open_trunc None) s1 = Inr s2 \<and>
     fetched (client_get demo_ccfg demo_settings (cbytes ''new'') (cbytes ''octet'') True s2 [CRecv (True, True, True)]) = [1, 2]"
proof -
  have r: "length (request_pkt RRQ (cbytes ''old'') (cbytes ''octet'')) \<le> PKTSIZE"
    "length (request_pkt RRQ (cbytes ''new'') (cbytes ''octet'')) \<le> PKTSIZE"
    by (simp_all add: wire_simps size_defs cbytes_def)
  show ?thesis
    using next_get_stores_old_file [OF r, of subs_start "replicate PKTSIZE 0" "(True, True, True)" demo_settings False 5 "[1, 2]"
        demo_ccfg demo_addr demo_addr True True demo_addr]
    by (auto simp: demo_request_fits(2) encoded_def demo_settings_def SEGSIZE_def Let_def)
qed

end
