(* ===== verification/Tftp_Stats.thy ===== *)
theory Tftp_Stats
  imports Tftp_Get Tftp_Trace
begin

text \<open>
  The line about the bytes of a transfer (\<^verbatim>\<open>startclock\<close>, \<^verbatim>\<open>stopclock\<close> and \<^verbatim>\<open>printstats\<close> of \<^verbatim>\<open>tftp/tftp.c\<close>).  The times
  are given as \<^verbatim>\<open>gettimeofday\<close> returns them, seconds and microseconds; the tenths of a second the code computes are whole
  numbers, also as floating point numbers.  The bit rate, a rounded quotient of floating point numbers, is an argument.
\<close>

definition tenths :: "int \<times> int \<Rightarrow> int" where
  "tenths t = fst t * 10 + snd t div 100000"

definition print_tenths :: "int \<Rightarrow> str" where
  "print_tenths i = (if i < 0 then [45] else []) @ decimal (nat \<bar>i\<bar> div 10) @ [46] @ decimal (nat \<bar>i\<bar> mod 10)"

definition printstats :: "(64 word \<Rightarrow> int \<Rightarrow> str) \<Rightarrow> bool \<Rightarrow> str \<Rightarrow> 64 word \<Rightarrow> int \<times> int \<Rightarrow> int \<times> int \<Rightarrow> str" where
  "printstats rate verb direction n start stop =
     (let delta = tenths stop - tenths start
      in direction @ 32 # print_int (sint n) @ cbytes '' bytes in '' @ print_tenths delta @ cbytes '' seconds'' @
         (if verb then cbytes '' ['' @ rate n delta @ cbytes '' bits/sec]'' else []) @ [10])"

text \<open>What the end of a transfer prints, \<^verbatim>\<open>Sent\<close> or \<^verbatim>\<open>Received\<close>.\<close>

definition reported :: "(64 word \<Rightarrow> int \<Rightarrow> str) \<Rightarrow> bool \<Rightarrow> str \<Rightarrow> int \<times> int \<Rightarrow> int \<times> int \<Rightarrow> client \<Rightarrow> str" where
  "reported rate verb direction start stop s =
     (if amount s \<noteq> 0 then printstats rate verb direction (amount s) start stop else [])"

lemma sint_small:
  assumes "n < 2 ^ 63"
  shows "sint (of_nat n :: 64 word) = int n"
proof -
  have "uint (of_nat n :: 64 word) = int n" using assms by (simp add: uint_nat unat_of_nat take_bit_nat_eq_self)
  then show ?thesis using assms by (simp add: sint_uint signed_take_bit_eq_take_bit_minus take_bit_int_eq_self bit_iff_odd)
qed

lemma numbered_length: "numbered d \<Longrightarrow> length d < 2 ^ 26"
  by (simp add: numbered_def nblocks_def size_defs)

text \<open>
  A finished get reports the bytes of the data packets: in netascii mode those are the bytes on the wire, with
  the pairs of its line ends, not those of the file.
\<close>

theorem get_reports_bytes:
  assumes "length (request_pkt RRQ name mode) \<le> PKTSIZE" "bufs_ok sb" "length ab = PKTSIZE"
    and "numbered (encoded (mode = cbytes ''netascii'') file)" "list_all (chonest (encoded (mode = cbytes ''netascii'') file)) es"
    and "encoded (mode = cbytes ''netascii'') file \<noteq> []"
    and "cphase (client_get c t name mode ok (client_start a sb ab (open_trunc None)) es) = CFinished"
  shows "reported rate False (cbytes ''Received'') start stop
      (client_get c t name mode ok (client_start a sb ab (open_trunc None)) es) =
    cbytes ''Received '' @ decimal (length (encoded (mode = cbytes ''netascii'') file)) @ cbytes '' bytes in '' @
      print_tenths (tenths stop - tenths start) @ cbytes '' seconds'' @ [10]"
proof -
  let ?e = "encoded (mode = cbytes ''netascii'') file"
  let ?s = "client_get c t name mode ok (client_start a sb ab (open_trunc None)) es"
  have am: "amount ?s = of_nat (length ?e)"
    using client_get_good [OF assms(1-5), of c t ok a] assms(7) by (simp add: get_good_def get_ok_def)
  have small: "length ?e < 2 ^ 63" using numbered_length [OF assms(4)] by simp
  have sint: "sint (amount ?s) = int (length ?e)" unfolding am by (rule sint_small [OF small])
  with assms(6) have "amount ?s \<noteq> 0" by auto
  then show ?thesis by (simp add: reported_def printstats_def Let_def sint print_int_def cbytes_def)
qed


section \<open>The count of a put\<close>

text \<open>
  Of the stream d a put has counted the acknowledged blocks; the block in flight and what the source still holds
  make up the rest.
\<close>

definition outstanding :: "cfg \<Rightarrow> client \<Rightarrow> 64 word" where
  "outstanding c s = of_int (csize s) + of_nat (length (source_rest (convert c) (cfs s)))"

definition tally :: "cfg \<Rightarrow> byte list \<Rightarrow> client \<Rightarrow> bool" where
  "tally c d s \<longleftrightarrow>
     (if firsttrip s then amount s = 0
      else (cphase s = CWaiting \<longrightarrow> amount s + outstanding c s = of_nat (length d)) \<and>
           (cphase s = CFinished \<longrightarrow> amount s = of_nat (length d)))"

lemma tally_frame:
  assumes "tally c d s" "cfs s' = cfs s" "csize s' = csize s" "amount s' = amount s" "firsttrip s' = firsttrip s"
    "cphase s' = cphase s \<or> cphase s' \<notin> {CWaiting, CFinished}"
  shows "tally c d s'"
  using assms by (auto simp: tally_def outstanding_def)

lemma csend_data_amount: "amount (csend_data c t v s) = amount s"
  by (simp add: csend_data_def Let_def csendto_def split: prod.split)

lemma tally_send:
  assumes "source_inv (convert c) (cfs s)" "if firsttrip s then amount s = 0 else amount s + outstanding c s = of_nat (length d)"
  shows "tally c d (csend_data c t v s)"
  by (rule csend_data_effect [of c t v s])
    (use assms source_ahead [OF assms(1)] in \<open>auto simp: tally_def outstanding_def csend_data_amount\<close>)

lemma tally_next:
  assumes "source_inv (convert c) (cfs s)" "\<not> firsttrip s"
    "amount s + of_nat (length (source_rest (convert c) (cfs s))) = of_nat (length d)"
  shows "tally c d (cnext_data c t v s)"
proof -
  obtain n i f b where r: "readit (convert c) (cfs s) = (n, i, f, b)" by (metis prod_cases4)
  have tb: "take_block (convert c) (cfs s) = (n, f, b)" using r by (simp add: take_block_def)
  note blk = dbuf_in.take_count [OF assms(1)] dbuf_in.take_inv [OF assms(1)] dbuf_in.take_rest [OF assms(1)]
  let ?rest = "source_rest (convert c) (cfs s)"
  have n: "n = int (length (take SEGSIZE ?rest))" "source_inv (convert c) (f, b)" "source_rest (convert c) (f, b) = drop SEGSIZE ?rest"
    using blk by (simp_all add: tb)
  have i: "i = current b" using readit_index [OF r] by simp
  let ?s1 = "s\<lparr>cfs := (f, b), cdp := i, csize := n\<rparr>"
  let ?s2 = "(set_cdp_buf (put_header (host c) DATA (cblock ?s1) (cdp_buf ?s1)) ?s1)\<lparr>ctimeout := 0\<rparr>"
  have src: "source_inv (convert c) (cfs ?s2)" "source_rest (convert c) (cfs ?s2) = source_rest (convert c) (f, b)"
    using source_bufs [OF n(2)] by (simp_all add: set_cdp_buf_def cdp_buf_def source_set_bbuf [OF n(2) i] drop_put_header)
  have "length (take SEGSIZE ?rest) + length (drop SEGSIZE ?rest) = length ?rest"
    by (metis append_take_drop_id length_append)
  then have "outstanding c ?s2 = of_nat (length ?rest)"
    using n(1,3) src(2) by (simp add: outstanding_def set_cdp_buf_def flip: of_nat_add del: length_take length_drop)
  with assms(2,3) src(1) have "tally c d (csend_data c t v ?s2)" by (intro tally_send) (simp_all add: set_cdp_buf_def)
  then show ?thesis using n(1) r by (simp add: cnext_data_def Let_def del: length_take)
qed


lemma tally_ack:
  assumes "put_ok c d req s" "cphase s = CWaiting" "tally c d s"
  shows "tally c d (chandle_ack c t v p s)"
proof -
  define a where "a = ntoh_header (host c) (recv_into (cackbuf s) p)"
  let ?s = "s\<lparr>cackbuf := a\<rparr>"
  have src: "source_inv (convert c) (cfs s)"
    using assms(1,2) by (cases rule: put_waiting) (simp_all add: asking_def send_inv_def)
  have stay: "tally c d ?s" "tally c d (csynch ?s)" "tally c d (?s\<lparr>cphase := CAborted\<rparr>)"
    by (rule tally_frame [OF assms(3)]; simp)+
  have again: "tally c d (csend_data c t v (csynch ?s))"
    using src assms(2,3) by (intro tally_send) (auto simp: tally_def outstanding_def)
  have first: "tally c d (cnext_data c t v (?s\<lparr>firsttrip := False, cblock := cblock s + 1\<rparr>))" if "firsttrip s"
  proof -
    have "source_rest (convert c) (cfs s) = d"
      using assms(1,2) that by (cases rule: put_waiting) (simp_all add: asking_def)
    with src that assms(3) show ?thesis by (intro tally_next) (simp_all add: tally_def)
  qed
  have nxt: "tally c d (cnext_data c t v (?s\<lparr>amount := amount s + of_int (csize s), cblock := cblock s + 1\<rparr>))"
    if "\<not> firsttrip s"
    using src that assms(2,3) by (intro tally_next) (simp_all add: tally_def outstanding_def add.assoc)
  have fin: "tally c d (?s\<lparr>amount := amount s + of_int (csize s), cphase := CFinished\<rparr>)"
    if "\<not> firsttrip s" "csize s \<noteq> int SEGSIZE"
    using assms(1,2)
  proof (cases rule: put_waiting)
    case (data n k)
    then have "csize s = int (length (chunk SEGSIZE k d))" "source_rest (convert c) (cfs s) = drop (SEGSIZE * Suc k) d"
      by (simp_all add: send_inv_def)
    with that(2) chunk_short [of SEGSIZE k d] length_chunk_le [of SEGSIZE k d] have "source_rest (convert c) (cfs s) = []"
      by (simp add: le_neq_implies_less del: mult_Suc_right)
    with that(1) assms(2,3) show ?thesis by (simp add: tally_def outstanding_def)
  qed (use that in simp)
  show ?thesis
    using stay again first nxt fin unfolding chandle_ack_def Let_def a_def [symmetric] by auto
qed

lemma tally_timer:
  assumes "put_ok c d req s" "cphase s = CWaiting" "tally c d s"
  shows "tally c d (ctimer t (csend_data c t v) s)"
proof -
  let ?s = "s\<lparr>ctimeout := ctimeout s + crexmtval t\<rparr>"
  have "source_inv (convert c) (cfs s)"
    using assms(1,2) by (cases rule: put_waiting) (simp_all add: asking_def send_inv_def)
  then have "tally c d (csend_data c t v ?s)"
    using assms(2,3) by (intro tally_send) (auto simp: tally_def outstanding_def)
  moreover have "tally c d (?s\<lparr>cphase := CTimedOut\<rparr>)" by (rule tally_frame [OF assms(3)]) simp_all
  ultimately show ?thesis by (simp add: ctimer_def Let_def)
qed

lemma tally_step:
  assumes "put_ok c d req s" "tally c d s"
  shows "tally c d (csend_step c t e s)"
proof -
  have len: "length (cackbuf s) = PKTSIZE" if "cphase s = CWaiting"
    using assms(1) that by (cases rule: put_waiting) (simp_all add: asking_def send_inv_def)
  have fr: "put_ok c d req (s\<lparr>cinq := q, from_addr := a\<rparr>)" "tally c d (s\<lparr>cinq := q, from_addr := a\<rparr>)" "tally c d (s\<lparr>cinq := q\<rparr>)" for q a
    by (rule put_ok_frame [OF assms(1)]; simp) (rule tally_frame [OF assms(2)]; simp)+
  have fr2: "put_ok c d req (s\<lparr>cinq := q, from_addr := a, cackbuf := recv_into (cackbuf s) p\<rparr>)"
    "tally c d (s\<lparr>cinq := q, from_addr := a, cackbuf := recv_into (cackbuf s) p\<rparr>)"
    if "cphase s = CWaiting" for q a p
    by (rule put_ok_frame [OF assms(1)]; use len [OF that] in \<open>simp add: recv_into_def\<close>) (rule tally_frame [OF assms(2)]; simp)
  show ?thesis
    using assms fr tally_ack [OF fr(1) _ fr(2)] tally_timer [OF assms(1) _ assms(2)] tally_timer [OF fr2(1) _ fr2(2)]
    by (cases e) (simp_all add: Let_def split: list.split)
qed

lemma tally_run:
  assumes "put_ok c d req s" "tally c d s"
  shows "tally c d (csend_run c t es s)"
proof -
  have "put_ok c d req (csend_run c t es s) \<and> tally c d (csend_run c t es s)"
    using assms unfolding csend_run_def
    by (induction es arbitrary: s) (simp_all add: csend_step_ok tally_step del: csend_step.simps)
  then show ?thesis ..
qed


lemma csendfile_amount: "amount (csendfile c t name mode v s) = 0"
  by (simp add: csendfile_def csend_data_amount set_cdp_buf_def Let_def split: prod.split option.split)

text \<open>
  A finished put reports the bytes of its data packets, as a finished get does: in netascii mode the pairs of the
  line ends are counted, not the bytes of the file.
\<close>

theorem put_reports_bytes:
  assumes "length (request_pkt WRQ name mode) \<le> PKTSIZE" "bufs_ok sb" "length ab = PKTSIZE"
    and "encoded (mode = cbytes ''netascii'') file \<noteq> []" "length (encoded (mode = cbytes ''netascii'') file) < 2 ^ 63"
    and "s = client_put c t name mode v (client_start a sb ab (open_read file)) es" "cphase s = CFinished"
  shows "reported rate False (cbytes ''Sent'') start stop s =
    cbytes ''Sent '' @ decimal (length (encoded (mode = cbytes ''netascii'') file)) @ cbytes '' bytes in '' @
      print_tenths (tenths stop - tenths start) @ cbytes '' seconds'' @ [10]"
proof -
  let ?e = "encoded (mode = cbytes ''netascii'') file" and ?c = "mode_cfg c mode"
  let ?s = "csendfile ?c t name mode v (client_start a sb ab (open_read file))"
  note st = csendfile_ok(1,3) [OF assms(1-3), where c = ?c and d = "file" and t = t and v = v and a = a]
  have e: "encoded (convert ?c) file = ?e" by (simp add: mode_cfg_def)
  have "tally ?c ?e ?s" using st(2) by (simp add: tally_def csendfile_amount)
  then have "tally ?c ?e s" using tally_run [OF st(1) [unfolded e]] by (simp add: assms(6) client_put_def)
  moreover have "\<not> firsttrip s"
    using csend_run_ok [OF st(1), of t es] assms(6,7) by (auto simp: client_put_def put_ok_def)
  ultimately have "amount s = of_nat (length ?e)" using assms(7) by (simp add: tally_def)
  then have sint: "sint (amount s) = int (length ?e)" using sint_small [OF assms(5)] by simp
  with assms(4) have "amount s \<noteq> 0" by auto
  then show ?thesis by (simp add: reported_def printstats_def Let_def sint print_int_def cbytes_def)
qed

theorem put_reports_bytes_witness:
  "reported rate False (cbytes ''Sent'') (0, 0) (1, 200000)
    (client_put demo_ccfg demo_settings (cbytes ''x'') (cbytes ''octet'') (True, True, True)
      (client_start demo_addr subs_start (replicate PKTSIZE 0) (open_read [1, 2])) (cacks demo_addr (True, True, True) 2)) =
    cbytes ''Sent 2 bytes in 1.2 seconds'' @ [10]"
proof -
  have "nblocks [1, 2] = 1" by (simp add: nblocks_def size_defs)
  then have "cphase (client_put demo_ccfg demo_settings (cbytes ''x'') (cbytes ''octet'')
      (True, True, True) (client_start demo_addr subs_start (replicate PKTSIZE 0) (open_read [1, 2]))
      (cacks demo_addr (True, True, True) 2)) = CFinished"
    using lossless_client_put [OF demo_request_fits(1), where sb = subs_start and ab = "replicate PKTSIZE 0"
        and v = "(True, True, True)" and w = "(True, True, True)" and d = "[1, 2]"]
    by (simp add: demo_request_fits(2) encoded_def numeral_2_eq_2)
  from put_reports_bytes [OF demo_request_fits(1) _ _ _ _ refl this] show ?thesis
    by (simp add: demo_request_fits(2) encoded_def tenths_def print_tenths_def decimal.simps) (simp add: cbytes_def)
qed

end
