(* ===== verification/Tftpd_Request.thy ===== *)
theory Tftpd_Request
  imports Tftpd_Transfer Tftp_Text
begin

text \<open>
  The daemon's handling of a request: \<^verbatim>\<open>tftp\<close> (the two strings of the packet and the
  table of formats) and \<^verbatim>\<open>validate_access\<close> of \<^verbatim>\<open>tftpd/tftpd.c\<close>.  The packet lies in the
  static array \<^verbatim>\<open>buf\<close> of \<^verbatim>\<open>PKTSIZE\<close> bytes; a pointer into it is an index, and a read
  behind its last byte is the refusal \<open>Overrun\<close> (C leaves it undefined).

  The file system is a record of functions: what \<^verbatim>\<open>chdir\<close>, \<^verbatim>\<open>stat\<close>, \<^verbatim>\<open>open\<close> and \<^verbatim>\<open>fdopen\<close>
  answer.  \<open>os_stack\<close> is what the uninitialised \<^verbatim>\<open>struct stat\<close> of \<^verbatim>\<open>validate_access\<close> holds
  in its field \<^verbatim>\<open>st_mode\<close> before \<^verbatim>\<open>stat\<close> writes it.
\<close>

unbundle bit_operations_syntax

type_synonym mode_bits = "32 word"

definition S_IROTH :: mode_bits where "S_IROTH = 4"
definition S_IWOTH :: mode_bits where "S_IWOTH = 2"

text \<open>A name given to the file system: the working directory, if changed, and the path.\<close>

record access =
  acc_dir :: "path option"
  acc_name :: path

record os =
  os_chdir :: "path \<Rightarrow> bool"
  os_stat :: "access \<Rightarrow> errno + mode_bits"
  os_open :: "access \<Rightarrow> bool \<Rightarrow> errno + cfile"
  os_fdopen :: "access \<Rightarrow> errno option"
  os_stack :: mode_bits

record daemon =
  dirs :: "path list"
  secure_tftp :: bool
  suppress_naks :: bool

datatype refusal = NakExit int | QuietExit | Overrun

record request =
  rq_opcode :: u16
  rq_convert :: bool
  rq_access :: access
  rq_file :: cfile

subsection \<open>The strings of the packet\<close>

definition char_at :: "byte list \<Rightarrow> nat \<Rightarrow> byte option" where
  "char_at b i = (if i < length b then Some (b ! i) else None)"

function scan :: "byte list \<Rightarrow> nat \<Rightarrow> nat \<Rightarrow> nat" where
  "scan b len cp = (if cp < len \<and> b ! cp \<noteq> 0 then scan b len (Suc cp) else cp)"
  by auto
termination by (relation "measure (\<lambda>(b, len, cp). len - cp)") auto

declare scan.simps [simp del]

definition find_end :: "byte list \<Rightarrow> nat \<Rightarrow> nat \<Rightarrow> refusal + nat" where
  "find_end b len cp =
     (let e = scan b len cp
      in case char_at b e of
           None \<Rightarrow> Inl Overrun
         | Some c \<Rightarrow> if c \<noteq> 0 then Inl (NakExit EBADOP) else Inr e)"

fun lower_string :: "byte list \<Rightarrow> byte list" where
  "lower_string [] = []"
| "lower_string (c # cs) =
     (if c = 0 then c # cs else (if c_isupper c then c_tolower c else c) # lower_string cs)"

definition formats :: "(byte list \<times> bool) list" where
  "formats = [(cbytes ''netascii'', True), (cbytes ''octet'', False)]"

definition find_format :: "byte list \<Rightarrow> bool option" where
  "find_format m = map_option snd (find (\<lambda>(name, _). name = m) formats)"

subsection \<open>Access checks\<close>

text \<open>
  \<open>mem\<close> is the memory from the file name on: the name ends at the first NUL, but the loop
  that looks for \<^verbatim>\<open>/../\<close> starts behind the first character without asking whether it is
  the NUL.
\<close>

fun climb_scan :: "byte \<Rightarrow> byte list \<Rightarrow> bool" where
  "climb_scan p [] = False"
| "climb_scan p (c # cs) =
     (if c = 0 then False
      else if c = DOT \<and> prefix [SLASH, DOT, DOT, SLASH] (p # c # cs) then True
      else climb_scan c cs)"

definition choose_dir :: "daemon \<Rightarrow> os \<Rightarrow> byte list \<Rightarrow> (path option \<times> byte list) option" where
  "choose_dir d sys mem =
     (if take 1 mem \<noteq> [SLASH] \<or> secure_tftp d
      then (case dirs d of
              [] \<Rightarrow> None
            | dir # _ \<Rightarrow>
                if os_chdir sys dir then Some (Some dir, dropWhile (\<lambda>c. c = SLASH) mem) else None)
      else if \<not> list_ex (\<lambda>dir. prefix dir mem) (dirs d) \<and> dirs d \<noteq> [] then None
      else Some (None, mem))"

definition open_checked :: "os \<Rightarrow> access \<Rightarrow> u16 \<Rightarrow> mode_bits \<Rightarrow> int + access \<times> cfile" where
  "open_checked sys a op st_mode =
     (if op = RRQ \<and> st_mode AND S_IROTH = 0 then Inl EACCESS
      else if op \<noteq> RRQ \<and> st_mode AND S_IWOTH = 0 then Inl EACCESS
      else (case os_open sys a (op = RRQ) of
              Inl e \<Rightarrow> Inl (e + 100)
            | Inr file \<Rightarrow>
                (case os_fdopen sys a of Some e \<Rightarrow> Inl (e + 100) | None \<Rightarrow> Inr (a, file))))"

definition validate_access :: "daemon \<Rightarrow> os \<Rightarrow> byte list \<Rightarrow> u16 \<Rightarrow> int + access \<times> cfile" where
  "validate_access d sys mem op =
     (case choose_dir d sys mem of
        None \<Rightarrow> Inl EACCESS
      | Some (cwd, name) \<Rightarrow>
          if prefix [DOT, DOT, SLASH] name then Inl EACCESS
          else if climb_scan (name ! 0) (drop 1 name) then Inl EACCESS
          else let a = \<lparr>acc_dir = cwd, acc_name = cstr name\<rparr>
               in case os_stat sys a of
                    Inl e \<Rightarrow>
                      if op \<noteq> WRQ then Inl (if e = ENOENT then ENOTFOUND else EACCESS)
                      else open_checked sys a op (os_stack sys)
                  | Inr st_mode \<Rightarrow> open_checked sys a op st_mode)"

subsection \<open>The request\<close>

text \<open>
  \<open>b\<close> is the array \<^verbatim>\<open>buf\<close>, its opcode already in host order; \<open>len\<close> the length of the
  datagram.  The result is the accepted request and the array with the mode in lower case.
\<close>

definition tftp :: "cfg \<Rightarrow> daemon \<Rightarrow> os \<Rightarrow> byte list \<Rightarrow> nat \<Rightarrow> refusal + request \<times> byte list" where
  "tftp c d sys b len =
     (let op = th_opcode (host c) b in
      case find_end b len 2 of
        Inl r \<Rightarrow> Inl r
      | Inr e \<Rightarrow>
          (let mode = Suc e in
           case find_end b len mode of
             Inl r \<Rightarrow> Inl r
           | Inr _ \<Rightarrow>
               (let b1 = take mode b @ lower_string (drop mode b) in
                case find_format (cstr (drop mode b1)) of
                  None \<Rightarrow> Inl (NakExit EBADOP)
                | Some conv \<Rightarrow>
                    (case validate_access d sys (drop 2 b1) op of
                       Inl ecode \<Rightarrow>
                         if suppress_naks d \<and> b1 ! 2 \<noteq> SLASH \<and> ecode = ENOTFOUND
                         then Inl QuietExit else Inl (NakExit ecode)
                     | Inr (a, file) \<Rightarrow>
                         Inr (\<lparr>rq_opcode = op, rq_convert = conv, rq_access = a, rq_file = file\<rparr>, b1)))))"

subsection \<open>Scanning\<close>

lemma scan_skip:
  assumes "b = pre @ s @ rest" "length pre + length s \<le> len" "0 \<notin> set s"
  shows "scan b len (length pre) = scan b len (length pre + length s)"
  using assms
proof (induction s arbitrary: pre)
  case (Cons c s)
  then have "scan b len (length pre) = scan b len (length (pre @ [c]))"
    by (subst scan.simps) (simp add: nth_append)
  also have "\<dots> = scan b len (length (pre @ [c]) + length s)"
    using Cons.prems by (intro Cons.IH) simp_all
  finally show ?case by simp
qed simp

lemma find_end_string:
  assumes "b = pre @ s @ 0 # rest" "0 \<notin> set s" "length pre + length s \<le> len"
  shows "find_end b len (length pre) = Inr (length pre + length s)"
proof -
  have "scan b len (length pre) = scan b len (length pre + length s)"
    using assms by (intro scan_skip) simp_all
  also have "\<dots> = length pre + length s"
    using assms(1) by (subst scan.simps) (simp add: nth_append)
  finally show ?thesis
    using assms(1) by (simp add: find_end_def char_at_def nth_append)
qed

lemma scan_bounds: "cp \<le> scan b len cp \<and> scan b len cp \<le> max cp len"
proof (induction b len cp rule: scan.induct)
  case (1 b len cp)
  show ?case
  proof (cases "cp < len \<and> b ! cp \<noteq> 0")
    case True
    then have "scan b len cp = scan b len (Suc cp)" by (subst scan.simps) simp
    with True 1 show ?thesis by auto
  next
    case False
    then have "scan b len cp = cp" by (subst scan.simps) auto
    then show ?thesis by simp
  qed
qed

lemma find_end_bounds:
  "find_end b len cp = Inr e \<Longrightarrow> cp \<le> e \<and> e \<le> max cp len \<and> e < length b \<and> b ! e = 0"
  using scan_bounds [of cp b len]
  by (auto simp: find_end_def char_at_def Let_def split: if_splits)

lemma find_end_inside:
  "max cp len < length b \<Longrightarrow> find_end b len cp \<noteq> Inl Overrun"
  using scan_bounds [of cp b len]
  by (auto simp: find_end_def char_at_def Let_def)

lemma lower_string_append:
  "0 \<notin> set m \<Longrightarrow> lower_string (m @ 0 # rest) = map c_tolower m @ 0 # rest"
  by (induction m) (auto simp: c_tolower_def)

subsection \<open>What the access checks mean\<close>

text \<open>
  The checks on the name as a string: \<open>placed\<close> is where it is looked up, \<open>climbs\<close> what is
  refused whatever the file system says, \<open>access_spec\<close> the whole decision.
\<close>

definition placed :: "daemon \<Rightarrow> os \<Rightarrow> path \<Rightarrow> access option" where
  "placed d sys name =
     (if \<not> prefix [SLASH] name \<or> secure_tftp d
      then (case dirs d of
              [] \<Rightarrow> None
            | dir # _ \<Rightarrow>
                if os_chdir sys dir
                then Some \<lparr>acc_dir = Some dir, acc_name = dropWhile (\<lambda>c. c = SLASH) name\<rparr> else None)
      else if dirs d = [] \<or> (\<exists>dir\<in>set (dirs d). prefix dir name)
      then Some \<lparr>acc_dir = None, acc_name = name\<rparr> else None)"

definition access_spec :: "daemon \<Rightarrow> os \<Rightarrow> path \<Rightarrow> u16 \<Rightarrow> int + access \<times> cfile" where
  "access_spec d sys name op =
     (case placed d sys name of
        None \<Rightarrow> Inl EACCESS
      | Some a \<Rightarrow>
          if climbs (acc_name a) then Inl EACCESS
          else (case os_stat sys a of
                  Inl e \<Rightarrow>
                    if op = WRQ then open_checked sys a op (os_stack sys)
                    else Inl (if e = ENOENT then ENOTFOUND else EACCESS)
                | Inr st_mode \<Rightarrow> open_checked sys a op st_mode))"

definition nul_free :: "daemon \<Rightarrow> bool" where
  "nul_free d \<longleftrightarrow> (\<forall>dir\<in>set (dirs d). 0 \<notin> set dir)"

lemma prefix_string: "0 \<notin> set s \<Longrightarrow> prefix s (name @ 0 # t) \<longleftrightarrow> prefix s name"
  by (auto simp: prefix_append prefix_Cons)

lemma dropWhile_string:
  "dropWhile (\<lambda>c. c = SLASH) (name @ 0 # t) = dropWhile (\<lambda>c. c = SLASH) name @ 0 # t"
  by (induction name) auto

lemma climb_scan_string:
  "0 \<notin> set cs \<Longrightarrow> climb_scan p (cs @ 0 # t) \<longleftrightarrow> sublist [SLASH, DOT, DOT, SLASH] (p # cs)"
proof (induction cs arbitrary: p)
  case (Cons c cs)
  have "prefix [SLASH, DOT, DOT, SLASH] (p # (c # cs) @ 0 # t) \<longleftrightarrow>
      prefix [SLASH, DOT, DOT, SLASH] (p # c # cs)"
    using prefix_string [of "[SLASH, DOT, DOT, SLASH]" "p # c # cs" t] by simp
  then show ?case
    using Cons by (auto simp: sublist_Cons_right)
qed (auto simp: sublist_Cons_right)

lemma climb_scan_name:
  assumes "0 \<notin> set name" "0 \<notin> set m" "DOT \<notin> set m"
  shows "climb_scan ((name @ 0 # m @ 0 # rest) ! 0) (drop (Suc 0) (name @ 0 # m @ 0 # rest)) \<longleftrightarrow>
    sublist [SLASH, DOT, DOT, SLASH] name"
proof (cases name)
  case Nil
  have "\<not> sublist [SLASH, DOT, DOT, SLASH] (0 # m)"
    using assms(3) by (auto dest!: set_mono_sublist)
  with Nil assms(2) show ?thesis
    by (simp add: climb_scan_string)
next
  case (Cons c cs)
  with assms(1) show ?thesis by (simp add: climb_scan_string)
qed

lemma choose_dir_string:
  assumes "nul_free d"
  shows "choose_dir d sys (name @ 0 # t) =
    map_option (\<lambda>a. (acc_dir a, acc_name a @ 0 # t)) (placed d sys name)"
proof -
  have "list_ex (\<lambda>dir. prefix dir (name @ 0 # t)) (dirs d) \<longleftrightarrow> (\<exists>dir\<in>set (dirs d). prefix dir name)"
    using assms by (auto simp: nul_free_def list_ex_iff prefix_string)
  moreover have "take 1 (name @ 0 # t) = [SLASH] \<longleftrightarrow> prefix [SLASH] name"
    by (cases name) auto
  ultimately show ?thesis
    by (auto simp: choose_dir_def placed_def dropWhile_string split: list.split)
qed

lemma placed_name_subset: "placed d sys name = Some a \<Longrightarrow> set (acc_name a) \<subseteq> set name"
  by (auto simp: placed_def split: if_splits list.splits dest: set_dropWhileD)

lemma validate_access_spec:
  assumes "0 \<notin> set name" "0 \<notin> set m" "DOT \<notin> set m" "nul_free d"
  shows "validate_access d sys (name @ 0 # m @ 0 # rest) op = access_spec d sys name op"
proof (cases "placed d sys name")
  case None
  then show ?thesis
    by (simp add: validate_access_def access_spec_def choose_dir_string [OF assms(4)])
next
  case (Some a)
  with assms(1) have a: "0 \<notin> set (acc_name a)" using placed_name_subset by blast
  have p: "prefix [DOT, DOT, SLASH] (acc_name a @ 0 # m @ 0 # rest) \<longleftrightarrow> prefix [DOT, DOT, SLASH] (acc_name a)"
    by (rule prefix_string) simp
  have eta: "\<lparr>acc_dir = acc_dir a, acc_name = acc_name a\<rparr> = a" by simp
  show ?thesis
    unfolding validate_access_def access_spec_def choose_dir_string [OF assms(4)] Some climbs_def
      option.map option.case prod.case Let_def eta
    by (simp add: p climb_scan_name [OF a assms(2,3)] cstr_append_nul [OF a] eta
        del: drop_append split: sum.split)
qed

subsection \<open>A request of two strings\<close>

lemma find_format_mode:
  assumes "find_format m = Some conv"
  shows "m = cbytes (if conv then ''netascii'' else ''octet'')" "DOT \<notin> set m"
proof -
  show m: "m = cbytes (if conv then ''netascii'' else ''octet'')"
    using assms by (auto simp: find_format_def formats_def split: if_splits)
  have "DOT \<notin> set (cbytes ''netascii'')" "DOT \<notin> set (cbytes ''octet'')"
    by (simp_all add: cbytes_def DOT_def)
  with m show "DOT \<notin> set m" by auto
qed

definition parsed ::
  "daemon \<Rightarrow> os \<Rightarrow> u16 \<Rightarrow> path \<Rightarrow> byte list \<Rightarrow> refusal + request" where
  "parsed d sys op name mode =
     (case find_format (map c_tolower mode) of
        None \<Rightarrow> Inl (NakExit EBADOP)
      | Some conv \<Rightarrow>
          (case access_spec d sys name op of
             Inl e \<Rightarrow>
               Inl (if suppress_naks d \<and> \<not> prefix [SLASH] name \<and> e = ENOTFOUND
                    then QuietExit else NakExit e)
           | Inr (a, file) \<Rightarrow>
               Inr \<lparr>rq_opcode = op, rq_convert = conv, rq_access = a, rq_file = file\<rparr>))"

lemma tftp_strings:
  assumes b: "b = b0 # b1 # name @ 0 # mode @ 0 # rest" and nn: "0 \<notin> set name" "0 \<notin> set mode"
    and e1: "find_end b len 2 = Inr (2 + length name)"
    and e2: "find_end b len (Suc (2 + length name)) = Inr e" and d: "nul_free d"
  shows "tftp c d sys b len =
    map_sum id (\<lambda>rq. (rq, b0 # b1 # name @ 0 # map c_tolower mode @ 0 # rest))
      (parsed d sys (th_opcode (host c) b) name mode)"
proof -
  let ?m = "map c_tolower mode" and ?k = "2 + length name"
  have low: "take (Suc ?k) b @ lower_string (drop (Suc ?k) b) = b0 # b1 # name @ 0 # ?m @ 0 # rest"
    by (simp add: b lower_string_append nn)
  have m0: "0 \<notin> set ?m" using nn(2) by auto (metis c_tolower_nonzero)
  have mode: "cstr (drop (Suc ?k) (b0 # b1 # name @ 0 # ?m @ 0 # rest)) = ?m"
    by (simp add: cstr_append_nul [OF m0])
  have first: "(b0 # b1 # name @ 0 # ?m @ 0 # rest) ! 2 \<noteq> SLASH \<longleftrightarrow> \<not> prefix [SLASH] name"
    by (cases name) auto
  have va: "validate_access d sys (name @ 0 # ?m @ 0 # rest) op = access_spec d sys name op"
    if "find_format ?m = Some conv" for conv op
    by (rule validate_access_spec [OF nn(1) m0 find_format_mode(2) [OF that] d])
  show ?thesis
    unfolding tftp_def e1 e2 Let_def sum.case low mode first
    by (auto simp: parsed_def va split: option.split sum.split)
qed

lemma tftp_parses:
  assumes b: "b = b0 # b1 # name @ 0 # mode @ 0 # rest" and nn: "0 \<notin> set name" "0 \<notin> set mode"
    and len: "length name + length mode + 3 \<le> len" and d: "nul_free d"
  shows "tftp c d sys b len =
    map_sum id (\<lambda>rq. (rq, b0 # b1 # name @ 0 # map c_tolower mode @ 0 # rest))
      (parsed d sys (th_opcode (host c) b) name mode)"
proof (rule tftp_strings [OF b nn _ _ d])
  show "find_end b len 2 = Inr (2 + length name)"
    using find_end_string [of b "[b0, b1]" name "mode @ 0 # rest" len] b nn len
    by (simp add: numeral_2_eq_2)
  show "find_end b len (Suc (2 + length name)) = Inr (Suc (2 + length name) + length mode)"
    using find_end_string [of b "b0 # b1 # name @ [0]" mode rest len] b nn len by simp
qed

text \<open>Every accepted packet is of this shape.\<close>

lemma scan_nonzero: "cp \<le> i \<Longrightarrow> i < scan b len cp \<Longrightarrow> b ! i \<noteq> 0"
proof (induction b len cp rule: scan.induct)
  case (1 b len cp)
  show ?case
  proof (cases "cp < len \<and> b ! cp \<noteq> 0")
    case True
    then have "scan b len cp = scan b len (Suc cp)" by (subst scan.simps) simp
    with True 1 show ?thesis by (cases "i = cp") auto
  next
    case False
    then have "scan b len cp = cp" by (subst scan.simps) auto
    with 1 show ?thesis by simp
  qed
qed

lemma find_end_split:
  assumes "find_end b len cp = Inr e"
  obtains s rest where "drop cp b = s @ 0 # rest" "0 \<notin> set s" "e = cp + length s"
proof
  have e: "e = scan b len cp" and in_b: "e < length b" "b ! e = 0" "cp \<le> e"
    using assms find_end_bounds [OF assms]
    by (auto simp: find_end_def Let_def split: option.splits if_splits)
  then show "drop cp b = take (e - cp) (drop cp b) @ 0 # drop (Suc e) b"
    by (metis Cons_nth_drop_Suc append_take_drop_id drop_drop le_add_diff_inverse2)
  show "0 \<notin> set (take (e - cp) (drop cp b))"
    using scan_nonzero [of cp _ b len] in_b e by (force simp: in_set_conv_nth)
  show "e = cp + length (take (e - cp) (drop cp b))" using in_b by simp
qed

lemma scan_stop: "scan b len cp < len \<Longrightarrow> b ! scan b len cp = 0"
proof (induction b len cp rule: scan.induct)
  case (1 b len cp)
  show ?case
  proof (cases "cp < len \<and> b ! cp \<noteq> 0")
    case True
    then have "scan b len cp = scan b len (Suc cp)" by (subst scan.simps) simp
    with True 1 show ?thesis by simp
  next
    case False
    then have "scan b len cp = cp" by (subst scan.simps) auto
    with False 1 show ?thesis by simp
  qed
qed

lemma tftp_two_strings:
  assumes e: "find_end b len 2 = Inr e" "find_end b len (Suc e) = Inr e2"
    and d: "nul_free d" and len: "2 \<le> length b"
  obtains b0 b1 name mode rest where "b = b0 # b1 # name @ 0 # mode @ 0 # rest"
    "tftp c d sys b len = map_sum id (\<lambda>rq. (rq, b0 # b1 # name @ 0 # map c_tolower mode @ 0 # rest))
      (parsed d sys (th_opcode (host c) b) name mode)"
proof -
  obtain name r1 where n: "drop 2 b = name @ 0 # r1" "0 \<notin> set name" "e = 2 + length name"
    by (rule find_end_split [OF e(1)])
  obtain mode rest where m: "drop (Suc e) b = mode @ 0 # rest" "0 \<notin> set mode"
    by (rule find_end_split [OF e(2)])
  obtain b0 b1 where b01: "take 2 b = [b0, b1]"
    using len by (cases b; cases "tl b") auto
  have "drop (Suc e) b = drop (Suc (length name)) (drop 2 b)" using n(3) by simp
  with n m have "r1 = mode @ 0 # rest" by simp
  then have b: "b = b0 # b1 # name @ 0 # mode @ 0 # rest"
    using append_take_drop_id [of 2 b] b01 n(1) by simp
  from that [OF b tftp_strings [OF b n(2) m(2) e(1) [unfolded n(3)] e(2) [unfolded n(3)] d]]
  show thesis .
qed

lemma tftp_accepts:
  assumes t: "tftp c d sys b len = Inr (rq, b')" and d: "nul_free d" and len: "2 \<le> length b"
  obtains b0 b1 name mode rest where "b = b0 # b1 # name @ 0 # mode @ 0 # rest"
    "parsed d sys (th_opcode (host c) b) name mode = Inr rq"
    "b' = b0 # b1 # name @ 0 # map c_tolower mode @ 0 # rest"
proof -
  from t obtain e e2 where e: "find_end b len 2 = Inr e" "find_end b len (Suc e) = Inr e2"
    by (auto simp: tftp_def Let_def split: sum.splits)
  obtain b0 b1 name mode rest where b: "b = b0 # b1 # name @ 0 # mode @ 0 # rest"
    and p: "tftp c d sys b len = map_sum id (\<lambda>rq. (rq, b0 # b1 # name @ 0 # map c_tolower mode @ 0 # rest))
      (parsed d sys (th_opcode (host c) b) name mode)"
    by (rule tftp_two_strings [OF e d len])
  have "parsed d sys (th_opcode (host c) b) name mode = Inr rq"
    "b' = b0 # b1 # name @ 0 # map c_tolower mode @ 0 # rest"
    using t unfolding p by (cases "parsed d sys (th_opcode (host c) b) name mode"; simp)+
  with b that show thesis by blast
qed

subsection \<open>Error packets\<close>

lemma nak_packet:
  assumes "length (rbuf s) = PKTSIZE" "nak_code_msg errmsgs (strerror c) err = (code, msg)"
    and "length msg < SEGSIZE"
  shows "out (nak c True err s) = out s @ [error_pkt code msg]"
proof -
  let ?b1 = "put_header (host c) ERROR code (rbuf s)" and ?pad = "strncpy_pad SEGSIZE msg"
  have pad: "?pad = msg @ replicate (SEGSIZE - length msg) 0" "length ?pad = SEGSIZE"
    using assms(3) by (simp_all add: strncpy_pad_def)
  have "overlay ?b1 4 ?pad = hdr ERROR code @ msg @ replicate (SEGSIZE - length msg) 0"
    using assms(1) by (simp add: overlay_def wire_simps pad PKTSIZE_def TFTP_HEADER_def)
  moreover have "replicate (SEGSIZE - length msg) 0 = 0 # replicate (SEGSIZE - Suc (length msg)) (0 :: byte)"
    using assms(3) by (metis Suc_diff_Suc replicate_Suc)
  ultimately have "take (length msg + 5) ((overlay ?b1 4 ?pad)[4 + length msg := 0]) =
      hdr ERROR code @ msg @ [0]"
    by (simp add: list_update_append)
  then show ?thesis
    by (simp add: nak_def assms(2) transmit_def error_pkt_def Let_def)
qed

section \<open>Properties\<close>

lemma open_checked_Inr:
  assumes "open_checked sys a op m = Inr (a', f)"
  shows "a' = a \<and> os_open sys a (op = RRQ) = Inr f \<and> m AND (if op = RRQ then S_IROTH else S_IWOTH) \<noteq> 0"
  using assms by (auto simp: open_checked_def split: if_splits sum.splits option.splits)

lemma open_checked_Inl:
  assumes "open_checked sys a op m = Inl e"
  shows "e = EACCESS \<or> (\<exists>n. e = n + 100 \<and> (os_open sys a (op = RRQ) = Inl n \<or> os_fdopen sys a = Some n))"
  using assms by (auto simp: open_checked_def split: if_splits sum.splits option.splits)

definition stat_mode :: "os \<Rightarrow> access \<Rightarrow> mode_bits" where
  "stat_mode sys a = (case os_stat sys a of Inl _ \<Rightarrow> os_stack sys | Inr m \<Rightarrow> m)"

lemma access_spec_Inr:
  assumes "access_spec d sys name op = Inr (a, f)"
  shows "placed d sys name = Some a \<and> \<not> climbs (acc_name a) \<and>
    (op = WRQ \<or> \<not> isl (os_stat sys a)) \<and> open_checked sys a op (stat_mode sys a) = Inr (a, f)"
proof -
  obtain a' where p: "placed d sys name = Some a'" "\<not> climbs (acc_name a')"
    and o: "op = WRQ \<or> \<not> isl (os_stat sys a')" "open_checked sys a' op (stat_mode sys a') = Inr (a, f)"
    using assms by (auto simp: access_spec_def stat_mode_def split: option.splits if_splits sum.splits)
  with open_checked_Inr [OF o(2)] show ?thesis by simp
qed

lemma access_spec_Inl:
  assumes "access_spec d sys name op = Inl e"
  shows "e = EACCESS \<or> e = ENOTFOUND \<and> op \<noteq> WRQ \<or>
    (\<exists>a n. e = n + 100 \<and> (os_open sys a (op = RRQ) = Inl n \<or> os_fdopen sys a = Some n))"
  using assms
  by (auto simp: access_spec_def dest!: open_checked_Inl split: option.splits if_splits sum.splits)

lemma parsed_Inr:
  assumes "parsed d sys op name mode = Inr rq"
  shows "rq_opcode rq = op \<and> access_spec d sys name op = Inr (rq_access rq, rq_file rq) \<and>
    find_format (map c_tolower mode) = Some (rq_convert rq)"
  using assms by (auto simp: parsed_def split: option.splits sum.splits)

lemma placed_cases:
  assumes "placed d sys name = Some a" "dirs d \<noteq> []"
  shows "acc_dir a = Some (hd (dirs d)) \<or>
    acc_dir a = None \<and> \<not> secure_tftp d \<and> list_ex (\<lambda>dir. prefix dir (acc_name a)) (dirs d)"
  using assms by (auto simp: placed_def list_ex_iff split: if_splits list.splits)


definition demo_os :: "cfile \<Rightarrow> os" where
  "demo_os f = \<lparr>os_chdir = \<lambda>_. True, os_stat = \<lambda>_. Inr 420, os_open = \<lambda>_ _. Inr f,
     os_fdopen = \<lambda>_. None, os_stack = 0\<rparr>"

definition demo_daemon :: daemon where
  "demo_daemon = \<lparr>dirs = [cbytes ''/srv''], secure_tftp = False, suppress_naks = False\<rparr>"

definition demo_cfg :: cfg where
  "demo_cfg = \<lparr>host = Little, convert = False, strerror = \<lambda>_. cbytes ''error''\<rparr>"

lemma demo_nul_free [simp]: "nul_free demo_daemon" "dirs demo_daemon \<noteq> []"
  by (simp_all add: nul_free_def demo_daemon_def cbytes_def)

lemma demo_parsed:
  "parsed demo_daemon (demo_os f) RRQ (cbytes ''a/b'') (cbytes ''OCTET'') =
     Inr \<lparr>rq_opcode = RRQ, rq_convert = False,
       rq_access = \<lparr>acc_dir = Some (cbytes ''/srv''), acc_name = cbytes ''a/b''\<rparr>, rq_file = f\<rparr>"
  by (simp add: parsed_def find_format_def formats_def cbytes_def c_tolower_def c_isupper_def
      access_spec_def placed_def demo_daemon_def demo_os_def climbs_def SLASH_def DOT_def
      open_checked_def S_IROTH_def sublist_Cons_right)

lemma demo_request:
  "tftp demo_cfg demo_daemon (demo_os f) (1 # 0 # cbytes ''a/b'' @ 0 # cbytes ''OCTET'' @ [0]) 12 =
     Inr (\<lparr>rq_opcode = RRQ, rq_convert = False,
       rq_access = \<lparr>acc_dir = Some (cbytes ''/srv''), acc_name = cbytes ''a/b''\<rparr>, rq_file = f\<rparr>,
       1 # 0 # cbytes ''a/b'' @ 0 # map c_tolower (cbytes ''OCTET'') @ [0])"
proof -
  let ?b = "1 # 0 # cbytes ''a/b'' @ 0 # cbytes ''OCTET'' @ [0]"
  have "th_opcode (host demo_cfg) ?b = RRQ"
    by (simp add: demo_cfg_def header_defs load_short_def RRQ_def mk16_def)
  moreover have "0 \<notin> set (cbytes ''a/b'')" "0 \<notin> set (cbytes ''OCTET'')" by (simp_all add: cbytes_def)
  ultimately show ?thesis
    using tftp_parses [of ?b 1 0 "cbytes ''a/b''" "cbytes ''OCTET''" "[]" 12 demo_daemon demo_cfg "demo_os f"]
    by (simp add: demo_parsed)
qed


text \<open>
  C23: a request that is accepted is for a file everybody may read (write, for an upload),
  by the mode bits the file system reports.  The only exception are uploads to names
  \<^verbatim>\<open>stat\<close> fails on.
\<close>

theorem daemon_serves_public_files:
  assumes "tftp c d sys b len = Inr (rq, b')" "nul_free d" "2 \<le> length b"
  shows "case os_stat sys (rq_access rq) of
      Inr m \<Rightarrow> m AND (if rq_opcode rq = RRQ then S_IROTH else S_IWOTH) \<noteq> 0
    | Inl _ \<Rightarrow> rq_opcode rq = WRQ"
proof -
  obtain name mode where "parsed d sys (th_opcode (host c) b) name mode = Inr rq"
    by (rule tftp_accepts [OF assms])
  from parsed_Inr [OF this] have op: "rq_opcode rq = th_opcode (host c) b"
    and a: "access_spec d sys name (rq_opcode rq) = Inr (rq_access rq, rq_file rq)" by auto
  from access_spec_Inr [OF a] have "rq_opcode rq = WRQ \<or> \<not> isl (os_stat sys (rq_access rq))"
    and "stat_mode sys (rq_access rq) AND (if rq_opcode rq = RRQ then S_IROTH else S_IWOTH) \<noteq> 0"
    using open_checked_Inr by blast+
  then show ?thesis by (auto simp: stat_mode_def split: sum.splits)
qed

theorem daemon_serves_public_files_witness:
  "(420 :: mode_bits) AND S_IROTH \<noteq> 0"
  using daemon_serves_public_files [OF demo_request [of "open_read []"]]
  by (simp add: demo_os_def)

text \<open>
  An upload to a name \<^verbatim>\<open>stat\<close> fails on is decided by memory that was never written:
  with the same request and the same file system the daemon refuses it or creates the
  file, depending on what the stack holds.  The manual says that files may be written
  only if they already exist.
\<close>

theorem daemon_new_file_lottery:
  assumes "0 \<notin> set name" "nul_free d" "placed d sys name = Some a" "\<not> climbs (acc_name a)"
    and "os_stat sys a = Inl e" "os_open sys a False = Inr f" "os_fdopen sys a = None"
  shows "\<exists>j j'. validate_access d (sys\<lparr>os_stack := j\<rparr>) (name @ 0 # cbytes ''octet'' @ 0 # rest) WRQ = Inl EACCESS \<and>
    validate_access d (sys\<lparr>os_stack := j'\<rparr>) (name @ 0 # cbytes ''octet'' @ 0 # rest) WRQ = Inr (a, f)"
proof -
  have m: "0 \<notin> set (cbytes ''octet'')" "DOT \<notin> set (cbytes ''octet'')"
    by (simp_all add: cbytes_def DOT_def)
  have pl: "placed d (sys\<lparr>os_stack := j\<rparr>) name = Some a" for j
    unfolding assms(3) [symmetric] by (simp add: placed_def split: list.split)
  have "access_spec d (sys\<lparr>os_stack := 0\<rparr>) name WRQ = Inl EACCESS"
    "access_spec d (sys\<lparr>os_stack := S_IWOTH\<rparr>) name WRQ = Inr (a, f)"
    using assms(4-7) by (simp_all add: access_spec_def pl open_checked_def S_IWOTH_def RRQ_def WRQ_def)
  then show ?thesis
    unfolding validate_access_spec [OF assms(1) m assms(2)] by blast
qed

theorem daemon_new_file_lottery_witness:
  "\<exists>j j'. validate_access demo_daemon ((demo_os (open_trunc None))\<lparr>os_stat := \<lambda>_. Inl ENOENT, os_stack := j\<rparr>)
      (cbytes ''new'' @ 0 # cbytes ''octet'' @ [0]) WRQ = Inl EACCESS \<and>
    validate_access demo_daemon ((demo_os (open_trunc None))\<lparr>os_stat := \<lambda>_. Inl ENOENT, os_stack := j'\<rparr>)
      (cbytes ''new'' @ 0 # cbytes ''octet'' @ [0]) WRQ =
      Inr (\<lparr>acc_dir = Some (cbytes ''/srv''), acc_name = cbytes ''new''\<rparr>, open_trunc None)"
  by (rule daemon_new_file_lottery [where e = ENOENT])
    (simp_all add: demo_os_def demo_daemon_def placed_def cbytes_def climbs_def SLASH_def DOT_def
      nul_free_def sublist_Cons_right)

text \<open>
  For a datagram of at most 514 bytes the search for the two strings stays inside the
  buffer, whatever the buffer still holds from before.
\<close>

lemma daemon_request_in_bounds:
  assumes "length b = PKTSIZE" "len \<le> SEGSIZE + 2"
  shows "tftp c d sys b len \<noteq> Inl Overrun"
proof
  assume t: "tftp c d sys b len = Inl Overrun"
  have "find_end b len 2 \<noteq> Inl Overrun"
    using assms by (intro find_end_inside) (simp add: size_defs)
  moreover have "find_end b len (Suc e) \<noteq> Inl Overrun" if "find_end b len 2 = Inr e" for e
    using find_end_bounds [OF that] assms by (intro find_end_inside) (auto simp: size_defs max_def split: if_splits)
  ultimately show False
    using t by (simp add: tftp_def Let_def split: sum.splits option.splits if_splits prod.splits)
qed

text \<open>
  The bound is sharp for what \<^verbatim>\<open>recvfrom\<close> accepts: a datagram that fills the buffer
  and has no NUL behind the opcode, or its first one in the last byte, makes the daemon
  read behind the end of \<^verbatim>\<open>buf\<close>.
\<close>

lemma daemon_request_overruns:
  assumes "length b = PKTSIZE" "0 \<notin> set (butlast (drop 2 b))"
  shows "tftp c d sys b PKTSIZE = Inl Overrun"
proof -
  have nz: "b ! i \<noteq> 0" if "2 \<le> i" "i < 515" for i
  proof -
    have "butlast (drop 2 b) ! (i - 2) = b ! i" "i - 2 < length (butlast (drop 2 b))"
      using assms(1) that by (simp_all add: size_defs nth_butlast del: add_2_eq_Suc add_2_eq_Suc')
    then show ?thesis using assms(2) by (metis nth_mem)
  qed
  have s: "515 \<le> scan b PKTSIZE 2" "scan b PKTSIZE 2 \<le> 516"
    using scan_bounds [of 2 b PKTSIZE] nz scan_stop [of b PKTSIZE 2] by (force simp: size_defs)+
  then consider "scan b PKTSIZE 2 = 516" | "scan b PKTSIZE 2 = 515" by linarith
  then show ?thesis
  proof cases
    case 1
    with assms have "find_end b PKTSIZE 2 = Inl Overrun"
      by (simp add: find_end_def char_at_def size_defs)
    then show ?thesis by (simp add: tftp_def Let_def)
  next
    case 2
    then have "find_end b PKTSIZE 2 = Inr 515"
      using scan_stop [of b PKTSIZE 2] assms by (simp add: find_end_def char_at_def size_defs)
    moreover have "scan b PKTSIZE 516 = 516" by (subst scan.simps) (simp add: size_defs)
    ultimately show ?thesis
      using assms by (simp add: tftp_def Let_def find_end_def char_at_def size_defs)
  qed
qed

text \<open>
  C24: the search for the two strings of a request stays inside the buffer for datagrams of up to 514 bytes, whatever the
  buffer still holds from before; a datagram that fills the buffer and has no NUL behind the opcode, or its first one
  in the last byte, makes the daemon read behind the end.
\<close>

theorem daemon_request_bounds:
  assumes "length b = PKTSIZE"
  shows "(len \<le> SEGSIZE + 2 \<longrightarrow> tftp c d sys b len \<noteq> Inl Overrun) \<and>
    (0 \<notin> set (butlast (drop 2 b)) \<longrightarrow> tftp c d sys b PKTSIZE = Inl Overrun)"
  using daemon_request_in_bounds [OF assms] daemon_request_overruns [OF assms] by blast

theorem daemon_request_bounds_witness:
  "tftp demo_cfg demo_daemon (demo_os (open_trunc None)) (replicate 516 7) 514 \<noteq> Inl Overrun \<and>
   tftp demo_cfg demo_daemon (demo_os (open_trunc None)) (replicate 516 7) PKTSIZE = Inl Overrun"
  using daemon_request_bounds [of "replicate 516 7" 514 demo_cfg demo_daemon "demo_os (open_trunc None)"]
  by (auto simp: size_defs dest!: in_set_butlastD)

text \<open>
  C25: every refusal the client hears of is one of four: a malformed packet or an unknown
  mode, a violation of the access rules, a file that does not exist (never for an
  upload), or the error number of an open that failed.
\<close>

theorem daemon_refusals:
  assumes "tftp c d sys b len = Inl (NakExit e)" "nul_free d" "2 \<le> length b"
  shows "e = EBADOP \<or> e = EACCESS \<or> e = ENOTFOUND \<and> th_opcode (host c) b \<noteq> WRQ \<or>
    (\<exists>a n. e = n + 100 \<and> (os_open sys a (th_opcode (host c) b = RRQ) = Inl n \<or> os_fdopen sys a = Some n))"
proof (cases "e = EBADOP")
  case False
  with assms(1) obtain e1 e2 where "find_end b len 2 = Inr e1" "find_end b len (Suc e1) = Inr e2"
    by (auto simp: tftp_def find_end_def Let_def split: sum.splits option.splits if_splits)
  then obtain b0 b1 name mode rest where b: "b = b0 # b1 # name @ 0 # mode @ 0 # rest"
    and p: "tftp c d sys b len = map_sum id (\<lambda>rq. (rq, b0 # b1 # name @ 0 # map c_tolower mode @ 0 # rest))
      (parsed d sys (th_opcode (host c) b) name mode)"
    by (rule tftp_two_strings [OF _ _ assms(2,3)])
  from assms(1) p have "parsed d sys (th_opcode (host c) b) name mode = Inl (NakExit e)"
    by (cases "parsed d sys (th_opcode (host c) b) name mode") auto
  with False have "access_spec d sys name (th_opcode (host c) b) = Inl e"
    by (auto simp: parsed_def split: option.splits sum.splits if_splits)
  from access_spec_Inl [OF this] show ?thesis by blast
qed simp

theorem daemon_refusals_witness:
  "(124 :: int) = EBADOP \<or> 124 = EACCESS \<or> 124 = ENOTFOUND \<and> RRQ \<noteq> WRQ \<or>
   (\<exists>a n. 124 = n + 100 \<and>
      (os_open (demo_os (open_read [])\<lparr>os_open := \<lambda>_ _. Inl 24\<rparr>) a True = Inl n \<or>
       os_fdopen (demo_os (open_read [])\<lparr>os_open := \<lambda>_ _. Inl 24\<rparr>) a = Some n))"
proof -
  let ?b = "1 # 0 # cbytes ''a/b'' @ 0 # cbytes ''OCTET'' @ [0]"
    and ?sys = "demo_os (open_read [])\<lparr>os_open := \<lambda>_ _. Inl 24\<rparr>"
  have op: "th_opcode (host demo_cfg) ?b = RRQ"
    by (simp add: demo_cfg_def header_defs load_short_def RRQ_def mk16_def)
  have "parsed demo_daemon ?sys RRQ (cbytes ''a/b'') (cbytes ''OCTET'') = Inl (NakExit 124)"
    by (simp add: parsed_def find_format_def formats_def cbytes_def c_tolower_def c_isupper_def
        access_spec_def placed_def demo_daemon_def demo_os_def climbs_def SLASH_def DOT_def
        open_checked_def S_IROTH_def sublist_Cons_right)
  moreover have "0 \<notin> set (cbytes ''a/b'')" "0 \<notin> set (cbytes ''OCTET'')" by (simp_all add: cbytes_def)
  ultimately have "tftp demo_cfg demo_daemon ?sys ?b 12 = Inl (NakExit 124)"
    using tftp_parses [of ?b 1 0 "cbytes ''a/b''" "cbytes ''OCTET''" "[]" 12 demo_daemon demo_cfg ?sys] op
    by simp
  from daemon_refusals [OF this] op show ?thesis by simp
qed

text \<open>
  The error packet the daemon sends is well formed: opcode, code (0 for an error
  number of the system), the message and its terminating NUL, for every message shorter
  than a segment.
\<close>

theorem daemon_nak_packet:
  assumes "length (rbuf s) = PKTSIZE" "nak_code_msg errmsgs (strerror c) err = (code, msg)"
    and "length msg < SEGSIZE"
  shows "out (nak c True err s) = out s @ [error_pkt code msg]"
  by (rule nak_packet [OF assms])

theorem daemon_nak_packet_witness:
  "out (nak demo_cfg True EACCESS (srv.make (open_read [], subs_start) [] (replicate PKTSIZE 0) False 0 0 0 [] [] Waiting)) =
     [error_pkt 2 (cbytes ''Access violation'')]"
  using daemon_nak_packet [of "srv.make (open_read [], subs_start) [] (replicate PKTSIZE 0) False 0 0 0 [] [] Waiting"
      demo_cfg EACCESS 2 "cbytes ''Access violation''"]
  by (simp add: nak_code_msg_def errmsgs_def ecode_defs SEGSIZE_def srv.defs)

end
