(* ===== verification/Tftpd_Main.thy ===== *)
theory Tftpd_Main
  imports Tftpd_Request Tftpd_Recv
begin

text \<open>
  The daemon's \<^verbatim>\<open>main\<close> (\<^verbatim>\<open>tftpd/tftpd.c\<close>): the options, the loop that forks and drains
  the socket, dropping root privileges, the address replies are sent from, and the
  dispatch of the request into \<^verbatim>\<open>tftp\<close> and a transfer.  \<^verbatim>\<open>getopt\<close>, \<^verbatim>\<open>fork\<close> and the
  sockets answer through arguments of the definitions.
\<close>

subsection \<open>Options\<close>

definition default_dirs :: "path list" where "default_dirs = [cbytes ''/tftpboot'']"

text \<open>What \<^verbatim>\<open>getopt\<close> returns, one character after the other; \<open>Inl\<close> is the exit code.\<close>

fun get_options :: "string \<Rightarrow> daemon \<Rightarrow> int + daemon" where
  "get_options [] d = Inr d"
| "get_options (ch # chs) d =
     (if ch = CHR ''n'' then get_options chs (d\<lparr>suppress_naks := True\<rparr>)
      else if ch = CHR ''s'' then get_options chs (d\<lparr>secure_tftp := True\<rparr>)
      else Inl 1)"

definition daemon_args :: "string \<Rightarrow> path list \<Rightarrow> int + daemon" where
  "daemon_args opts args =
     map_sum id (\<lambda>d. if args \<noteq> [] then d\<lparr>dirs := args\<rparr> else d)
       (get_options opts \<lparr>dirs = default_dirs, secure_tftp = False, suppress_naks = False\<rparr>)"

subsection \<open>The fork loop\<close>

text \<open>
  An element of the list is a turn of the loop: what \<^verbatim>\<open>fork\<close> returns and the datagram
  \<^verbatim>\<open>recvfrom\<close> gets on the nonblocking socket if \<^verbatim>\<open>fork\<close> failed (\<open>None\<close>: it fails).  The
  loop uses \<^verbatim>\<open>i\<close> for its counter and for the result of \<^verbatim>\<open>recvfrom\<close>.  The result is the
  last \<^verbatim>\<open>pid\<close>, the buffer and the length of the request in it; \<open>None\<close> means that the
  loop is still running when the list ends.
\<close>

fun fork_loop ::
  "int \<Rightarrow> int \<Rightarrow> (int \<times> datagram option) list \<Rightarrow> byte list \<times> int \<Rightarrow> (int \<times> byte list \<times> int) option" where
  "fork_loop i pid [] (b, n) = (if i < 20 then None else Some (pid, b, n))"
| "fork_loop i pid ((p, r) # turns) (b, n) =
     (if \<not> i < 20 then Some (pid, b, n)
      else if p < 0
      then (let i' = (case r of None \<Rightarrow> -1 | Some d \<Rightarrow> recv_len d);
                b' = (case r of None \<Rightarrow> b | Some d \<Rightarrow> recv_into b d)
            in fork_loop (i' + 1) p turns (b', if i' > 0 then i' else n))
      else Some (p, b, n))"

subsection \<open>Privileges\<close>

record creds =
  ruid :: nat
  euid :: nat
  suid :: nat
  rgid :: nat
  egid :: nat
  sgid :: nat
  groups :: "nat list"

text \<open>What \<^verbatim>\<open>getpwnam\<close> finds, and the groups the group database has for the user.\<close>

record passwd =
  pw_uid :: nat
  pw_gid :: nat
  pw_groups :: "nat list"

text \<open>
  \<^verbatim>\<open>setuid\<close>, \<^verbatim>\<open>setgid\<close>, \<^verbatim>\<open>seteuid\<close> and \<^verbatim>\<open>initgroups\<close> as POSIX has them: the superuser changes all three ids
  (and the list of groups), others only the effective id, to one they have.  \<open>granted\<close> is false when the kernel refuses.
\<close>

definition sys_initgroups :: "bool \<Rightarrow> passwd \<Rightarrow> creds \<Rightarrow> creds" where
  "sys_initgroups granted p c = (if granted \<and> euid c = 0 then c\<lparr>groups := pw_gid p # pw_groups p\<rparr> else c)"

definition sys_setgid :: "bool \<Rightarrow> nat \<Rightarrow> creds \<Rightarrow> creds" where
  "sys_setgid granted g c =
     (if \<not> granted then c
      else if euid c = 0 then c\<lparr>rgid := g, egid := g, sgid := g\<rparr>
      else if g = rgid c \<or> g = sgid c then c\<lparr>egid := g\<rparr> else c)"

definition sys_setuid :: "bool \<Rightarrow> nat \<Rightarrow> creds \<Rightarrow> creds" where
  "sys_setuid granted u c =
     (if \<not> granted then c
      else if euid c = 0 then c\<lparr>ruid := u, euid := u, suid := u\<rparr>
      else if u = ruid c \<or> u = suid c then c\<lparr>euid := u\<rparr> else c)"

definition sys_seteuid :: "nat \<Rightarrow> creds \<Rightarrow> creds" where
  "sys_seteuid u c = (if euid c = 0 \<or> u = ruid c \<or> u = suid c then c\<lparr>euid := u\<rparr> else c)"

definition is_root :: "creds \<Rightarrow> bool" where "is_root c \<longleftrightarrow> ruid c = 0 \<or> euid c = 0"

text \<open>The first argument says which of \<^verbatim>\<open>initgroups\<close>, \<^verbatim>\<open>setgid\<close> and \<^verbatim>\<open>setuid\<close> the kernel grants; the code asks for none.\<close>

definition drop_root :: "bool \<times> bool \<times> bool \<Rightarrow> passwd option \<Rightarrow> creds \<Rightarrow> int + creds" where
  "drop_root granted nobody c =
     (if is_root c
      then let (g1, g2, g3) = granted;
               c1 = (case nobody of
                       Some p \<Rightarrow> sys_setuid g3 (pw_uid p) (sys_setgid g2 (pw_gid p) (sys_initgroups g1 p c))
                     | None \<Rightarrow> c);
               c2 = sys_seteuid 0 c1
           in if is_root c2 then Inl 1 else Inr c2
      else Inr c)"

lemmas creds_defs = drop_root_def is_root_def sys_setuid_def sys_seteuid_def sys_setgid_def sys_initgroups_def

subsection \<open>The reply address\<close>

definition inet_family :: "sockaddr \<Rightarrow> bool" where
  "inet_family a \<longleftrightarrow> family a = AF_INET \<or> family a = AF_INET6"

definition wildcard :: "sockaddr \<Rightarrow> bool" where
  "wildcard a \<longleftrightarrow> inet_family a \<and> list_all (\<lambda>b. b = 0) (address a)"

text \<open>
  The address the reply socket is bound to, from what \<^verbatim>\<open>getsockname\<close> says (\<open>None\<close>: it
  failed); \<open>None\<close> leaves it to the kernel.
\<close>

definition bind_address :: "sockaddr option \<Rightarrow> sockaddr option" where
  "bind_address sn =
     (case sn of
        None \<Rightarrow> None
      | Some a \<Rightarrow>
          if wildcard a then None
          else Some (if inet_family a then a\<lparr>port := 0\<rparr> else a))"

subsection \<open>Dispatch\<close>

text \<open>
  What becomes of a request: the process stops (with an exit code and the datagrams it
  sent), it reads behind its buffer, or a transfer has started.
\<close>

datatype served =
  Stop int "datagram list" | Crash | Sending cfg request srv | Receiving cfg request srv

definition serve :: "cfg \<Rightarrow> daemon \<Rightarrow> os \<Rightarrow> bool \<Rightarrow> byte list \<Rightarrow> nat \<Rightarrow> served" where
  "serve c d sys ok b len =
     (let b1 = set_th_opcode (host c) (ntohs (host c) (th_opcode (host c) b)) b;
          op = th_opcode (host c) b1
      in if op = RRQ \<or> op = WRQ
         then (case tftp c d sys b1 len of
                 Inl Overrun \<Rightarrow> Crash
               | Inl QuietExit \<Rightarrow> Stop 0 []
               | Inl (NakExit e) \<Rightarrow> Stop 1 (out (nak c ok e (start_srv (open_read []) b1)))
               | Inr (rq, b2) \<Rightarrow>
                   (let c' = c\<lparr>convert := rq_convert rq\<rparr>; s = start_srv (rq_file rq) b2
                    in if rq_opcode rq = WRQ then Receiving c' rq (recvfile c' ok s)
                       else Sending c' rq (sendfile c' ok s)))
         else Stop 1 [])"

section \<open>Properties\<close>

lemma store_short_front:
  "2 \<le> length xs \<Longrightarrow> \<exists>x y. store_short e xs 0 v = x # y # drop 2 xs"
  by (cases xs; cases "tl xs") (auto simp: store_short_def split: endian.split)

text \<open>The request packet in the buffer is served as the abstract parser says.\<close>

lemma serve_parsed:
  assumes len: "length (request_pkt op name mode) \<le> length b"
    and nn: "0 \<notin> set name" "0 \<notin> set mode" and d: "nul_free d" and op: "op = RRQ \<or> op = WRQ"
  shows "\<exists>b1 b2. length b1 = length b \<and> length b2 = length b \<and>
    serve c d sys ok (overlay b 0 (request_pkt op name mode)) (length (request_pkt op name mode)) =
    (case parsed d sys op name mode of
       Inl Overrun \<Rightarrow> Crash
     | Inl QuietExit \<Rightarrow> Stop 0 []
     | Inl (NakExit e) \<Rightarrow> Stop 1 (out (nak c ok e (start_srv (open_read []) b1)))
     | Inr rq \<Rightarrow>
         (let c' = c\<lparr>convert := rq_convert rq\<rparr>; s = start_srv (rq_file rq) b2
          in if op = WRQ then Receiving c' rq (recvfile c' ok s) else Sending c' rq (sendfile c' ok s)))"
proof -
  let ?p = "request_pkt op name mode" and ?b = "overlay b 0 (request_pkt op name mode)"
  define b1 where "b1 = set_th_opcode (host c) (ntohs (host c) (th_opcode (host c) ?b)) ?b"
  have b: "?b = hi_byte op # lo_byte op # name @ 0 # mode @ 0 # drop (length ?p) b"
    by (simp add: overlay_def request_pkt_def)
  then have op1: "th_opcode (host c) b1 = op"
    by (simp add: b1_def header_defs wire_simps) (simp add: net_short_def)
  obtain x y where b1: "b1 = x # y # name @ 0 # mode @ 0 # drop (length ?p) b"
    using store_short_front [of ?b "host c" "ntohs (host c) (th_opcode (host c) ?b)"] b
    by (auto simp: b1_def set_th_opcode_def)
  define b2 where "b2 = x # y # name @ 0 # map c_tolower mode @ 0 # drop (length ?p) b"
  have l: "length b1 = length b" "length b2 = length b"
    using len by (simp_all add: b1 b2_def wire_simps)
  have t: "tftp c d sys b1 (length ?p) = map_sum id (\<lambda>rq. (rq, b2)) (parsed d sys op name mode)"
    using tftp_parses [OF b1 nn _ d, of "length ?p" c sys] op1 by (simp add: wire_simps b2_def)
  have rq: "rq_opcode rq = op" if "parsed d sys op name mode = Inr rq" for rq
    using parsed_Inr [OF that] by blast
  show ?thesis
  proof (intro exI conjI)
    show "length b1 = length b" "length b2 = length b" by (fact l)+
    show "serve c d sys ok ?b (length ?p) = (case parsed d sys op name mode of
       Inl Overrun \<Rightarrow> Crash
     | Inl QuietExit \<Rightarrow> Stop 0 []
     | Inl (NakExit e) \<Rightarrow> Stop 1 (out (nak c ok e (start_srv (open_read []) b1)))
     | Inr rq \<Rightarrow>
         (let c' = c\<lparr>convert := rq_convert rq\<rparr>; s = start_srv (rq_file rq) b2
          in if op = WRQ then Receiving c' rq (recvfile c' ok s) else Sending c' rq (sendfile c' ok s)))"
      using op by (auto simp: serve_def b1_def [symmetric] op1 t Let_def rq
          split: sum.split refusal.split)
  qed
qed

lemma find_format_nul_free:
  assumes "find_format (map c_tolower mode) = Some conv"
  shows "0 \<notin> set mode"
proof
  assume "0 \<in> set mode"
  then have "c_tolower 0 \<in> set (map c_tolower mode)" by simp
  then have "0 \<in> set (map c_tolower mode)" by (simp add: c_tolower_def c_isupper_def)
  with find_format_mode(1) [OF assms] show False by (auto simp: cbytes_def split: if_splits)
qed

text \<open>
  C26: a read request for a file the access rules allow starts a transfer that sends the
  file's blocks in order, in the format the request names, in whatever case its mode is
  written.
\<close>

theorem daemon_serves_downloads:
  assumes "length (request_pkt RRQ name mode) \<le> PKTSIZE" "length b = PKTSIZE" "0 \<notin> set name" "nul_free d"
    and "find_format (map c_tolower mode) = Some conv"
    and "access_spec d sys name RRQ = Inr (a, open_read file)"
  shows "\<exists>rq s. serve c d sys ok (overlay b 0 (request_pkt RRQ name mode)) (length (request_pkt RRQ name mode)) =
      Sending (c\<lparr>convert := conv\<rparr>) rq s \<and> rq_access rq = a \<and>
    (\<forall>es. in_order (encoded conv file) (out (send_run (c\<lparr>convert := conv\<rparr>) es s)))"
proof -
  let ?rq = "\<lparr>rq_opcode = RRQ, rq_convert = conv, rq_access = a, rq_file = open_read file\<rparr>"
  have p: "parsed d sys RRQ name mode = Inr ?rq" using assms(5,6) by (simp add: parsed_def)
  obtain b2 where "serve c d sys ok (overlay b 0 (request_pkt RRQ name mode)) (length (request_pkt RRQ name mode)) =
      Sending (c\<lparr>convert := conv\<rparr>) ?rq (sendfile (c\<lparr>convert := conv\<rparr>) ok (start_srv (open_read file) b2))"
    using serve_parsed [OF assms(1) [folded assms(2)] assms(3) find_format_nul_free [OF assms(5)] assms(4),
        of c sys ok] p by (auto simp: Let_def)
  moreover have "in_order (encoded conv file) (out (send_run (c\<lparr>convert := conv\<rparr>) es
      (sendfile (c\<lparr>convert := conv\<rparr>) ok (start_srv (open_read file) b2))))" for es
    using send_ok_in_order [OF send_run_ok [OF sendfile_ok [where c = "c\<lparr>convert := conv\<rparr>"]]] by simp
  ultimately show ?thesis by fastforce
qed

theorem daemon_serves_downloads_witness:
  "\<exists>rq s. serve demo_cfg demo_daemon (demo_os (open_read [65])) True
      (overlay (replicate PKTSIZE 0) 0 (request_pkt RRQ (cbytes ''a/b'') (cbytes ''OCTET''))) 12 =
      Sending (demo_cfg\<lparr>convert := False\<rparr>) rq s \<and>
    rq_access rq = \<lparr>acc_dir = Some (cbytes ''/srv''), acc_name = cbytes ''a/b''\<rparr> \<and>
    (\<forall>es. in_order (encoded False [65]) (out (send_run (demo_cfg\<lparr>convert := False\<rparr>) es s)))"
proof -
  have "access_spec demo_daemon (demo_os (open_read [65])) (cbytes ''a/b'') RRQ =
      Inr (\<lparr>acc_dir = Some (cbytes ''/srv''), acc_name = cbytes ''a/b''\<rparr>, open_read [65])"
    using parsed_Inr [OF demo_parsed [of "open_read [65]"]] by simp
  moreover have "find_format (map c_tolower (cbytes ''OCTET'')) = Some False"
    using parsed_Inr [OF demo_parsed [of "open_read [65]"]] by simp
  ultimately show ?thesis
    using daemon_serves_downloads [of "cbytes ''a/b''" "cbytes ''OCTET''" "replicate PKTSIZE 0" demo_daemon False
        "demo_os (open_read [65])" "\<lparr>acc_dir = Some (cbytes ''/srv''), acc_name = cbytes ''a/b''\<rparr>" "[65]" demo_cfg True]
    by (simp add: wire_simps size_defs cbytes_def)
qed

text \<open>
  C27: a write request the access rules allow starts an upload, and when the daemon
  considers it complete, the file it opened holds what the client meant, decoded by the
  rules of the mode of the request.
\<close>

theorem daemon_serves_uploads:
  assumes "length (request_pkt WRQ name mode) \<le> PKTSIZE" "length b = PKTSIZE" "0 \<notin> set name" "nul_free d"
    and "find_format (map c_tolower mode) = Some conv"
    and "access_spec d sys name WRQ = Inr (a, open_trunc None)" "numbered (encoded conv file)"
  shows "\<exists>rq s. serve c d sys ok (overlay b 0 (request_pkt WRQ name mode)) (length (request_pkt WRQ name mode)) =
      Receiving (c\<lparr>convert := conv\<rparr>) rq s \<and> rq_access rq = a \<and>
    (\<forall>es. list_all (honest_event (encoded conv file)) es \<longrightarrow>
      phase (recv_run (c\<lparr>convert := conv\<rparr>) es s) \<in> {Dallying, Finished, Exited 0} \<longrightarrow>
      on_disk (recv_run (c\<lparr>convert := conv\<rparr>) es s) = file)"
proof -
  let ?rq = "\<lparr>rq_opcode = WRQ, rq_convert = conv, rq_access = a, rq_file = open_trunc None\<rparr>"
    and ?c = "c\<lparr>convert := conv\<rparr>"
  have p: "parsed d sys WRQ name mode = Inr ?rq" using assms(5,6) by (simp add: parsed_def)
  obtain b2 where s: "serve c d sys ok (overlay b 0 (request_pkt WRQ name mode)) (length (request_pkt WRQ name mode)) =
      Receiving ?c ?rq (recvfile ?c ok (start_srv (open_trunc None) b2))"
    using serve_parsed [OF assms(1) [folded assms(2)] assms(3) find_format_nul_free [OF assms(5)] assms(4),
        of c sys ok] p by (auto simp: Let_def)
  have "on_disk (recv_run ?c es (recvfile ?c ok (start_srv (open_trunc None) b2))) = file"
    if "list_all (honest_event (encoded conv file)) es"
      "phase (recv_run ?c es (recvfile ?c ok (start_srv (open_trunc None) b2))) \<in> {Dallying, Finished, Exited 0}" for es
    using uploads_ok [OF assms(7) that(1), of ?c ok b2] that(2)
    by (auto simp: recv_ok_def done_ok_def decoded_encoded uploads_def)
  with s show ?thesis by fastforce
qed

theorem daemon_serves_uploads_witness:
  "\<exists>rq s. serve demo_cfg demo_daemon (demo_os (open_trunc None)\<lparr>os_stat := \<lambda>_. Inr 438\<rparr>) True
      (overlay (replicate PKTSIZE 0) 0 (request_pkt WRQ (cbytes ''up'') (cbytes ''netascii''))) 14 =
      Receiving (demo_cfg\<lparr>convert := True\<rparr>) rq s \<and>
    rq_access rq = \<lparr>acc_dir = Some (cbytes ''/srv''), acc_name = cbytes ''up''\<rparr> \<and>
    (\<forall>es. list_all (honest_event (encoded True [65])) es \<longrightarrow>
      phase (recv_run (demo_cfg\<lparr>convert := True\<rparr>) es s) \<in> {Dallying, Finished, Exited 0} \<longrightarrow>
      on_disk (recv_run (demo_cfg\<lparr>convert := True\<rparr>) es s) = [65])"
proof -
  let ?sys = "demo_os (open_trunc None)\<lparr>os_stat := \<lambda>_. Inr 438\<rparr>"
  have "access_spec demo_daemon ?sys (cbytes ''up'') WRQ =
      Inr (\<lparr>acc_dir = Some (cbytes ''/srv''), acc_name = cbytes ''up''\<rparr>, open_trunc None)"
    by (simp add: access_spec_def placed_def demo_daemon_def demo_os_def climbs_def SLASH_def DOT_def
        cbytes_def open_checked_def S_IWOTH_def RRQ_def WRQ_def sublist_Cons_right)
  moreover have "find_format (map c_tolower (cbytes ''netascii'')) = Some True"
    by (simp add: find_format_def formats_def cbytes_def c_tolower_def c_isupper_def)
  ultimately show ?thesis
    using daemon_serves_uploads [of "cbytes ''up''" "cbytes ''netascii''" "replicate PKTSIZE 0" demo_daemon True
        ?sys "\<lparr>acc_dir = Some (cbytes ''/srv''), acc_name = cbytes ''up''\<rparr>" "[65]" demo_cfg True]
    by (simp add: wire_simps size_defs cbytes_def encoded_def numbered_def nblocks_def)
qed

text \<open>
  A well-formed request that is refused gets exactly one error packet with the code
  of the refusal and its message, and the process exits with 1.
\<close>

theorem daemon_refuses_aloud:
  assumes "length (request_pkt op name mode) \<le> PKTSIZE" "length b = PKTSIZE" "0 \<notin> set name" "0 \<notin> set mode"
    and "nul_free d" "op = RRQ \<or> op = WRQ" "parsed d sys op name mode = Inl (NakExit e)"
    and "nak_code_msg errmsgs (strerror c) e = (code, msg)" "length msg < SEGSIZE"
  shows "serve c d sys True (overlay b 0 (request_pkt op name mode)) (length (request_pkt op name mode)) =
    Stop 1 [error_pkt code msg]"
proof -
  obtain b1 where "length b1 = length b" and
    "serve c d sys True (overlay b 0 (request_pkt op name mode)) (length (request_pkt op name mode)) =
      Stop 1 (out (nak c True e (start_srv (open_read []) b1)))"
    using serve_parsed [OF assms(1) [folded assms(2)] assms(3-6), of c sys True] assms(7) by auto
  then show ?thesis
    using nak_packet [of "start_srv (open_read []) b1" c e, OF _ assms(8,9)] assms(2)
    by (simp add: start_srv_def)
qed

theorem daemon_refuses_aloud_witness:
  "serve demo_cfg demo_daemon (demo_os (open_read [])) True
     (overlay (replicate PKTSIZE 0) 0 (request_pkt RRQ (cbytes ''../x'') (cbytes ''octet''))) 13 =
   Stop 1 [error_pkt 2 (cbytes ''Access violation'')]"
proof -
  have "parsed demo_daemon (demo_os (open_read [])) RRQ (cbytes ''../x'') (cbytes ''octet'') = Inl (NakExit EACCESS)"
    by (simp add: parsed_def find_format_def formats_def cbytes_def c_tolower_def c_isupper_def
        access_spec_def placed_def demo_daemon_def demo_os_def climbs_def SLASH_def DOT_def)
  then show ?thesis
    using daemon_refuses_aloud [of RRQ "cbytes ''../x''" "cbytes ''octet''" "replicate PKTSIZE 0" demo_daemon
        "demo_os (open_read [])" EACCESS demo_cfg 2 "cbytes ''Access violation''"]
    by (simp add: wire_simps size_defs cbytes_def nak_code_msg_def errmsgs_def ecode_defs)
qed

text \<open>
  The loop around \<^verbatim>\<open>fork\<close> is meant to give up after 19 tries, but it uses its counter
  for the result of \<^verbatim>\<open>recvfrom\<close>: while \<^verbatim>\<open>fork\<close> fails and nothing is queued, it never
  ends, and a queued request of 19 bytes or more ends it at once, with the request lost.
\<close>

theorem daemon_fork_retries:
  "fork_loop 1 (-1) (replicate k (-1, None)) st = None \<and>
   fork_loop 1 (-1) [(-1, Some (request_pkt RRQ (replicate 10 c) (cbytes ''octet'')))] st =
     Some (-1, recv_into (fst st) (request_pkt RRQ (replicate 10 c) (cbytes ''octet'')), 19)"
proof
  have "fork_loop i (-1) (replicate k (-1, None)) st = None" if "i < 20" for i
    using that by (induction k arbitrary: i; cases st) auto
  then show "fork_loop 1 (-1) (replicate k (-1, None)) st = None" by simp
  show "fork_loop 1 (-1) [(-1, Some (request_pkt RRQ (replicate 10 c) (cbytes ''octet'')))] st =
     Some (-1, recv_into (fst st) (request_pkt RRQ (replicate 10 c) (cbytes ''octet'')), 19)"
    by (cases st) (simp add: recv_len_def wire_simps size_defs)
qed

text \<open>
  A daemon that was started by root and goes on has given up root for good: none of
  its three user ids is 0, and neither \<^verbatim>\<open>setuid\<close> nor \<^verbatim>\<open>seteuid\<close> brings it back.
\<close>

theorem daemon_drops_root:
  assumes "drop_root granted nobody c = Inr c'" "is_root c"
  shows "ruid c' \<noteq> 0 \<and> euid c' \<noteq> 0 \<and> suid c' \<noteq> 0 \<and> sys_seteuid 0 c' = c' \<and> sys_setuid g 0 c' = c'"
  using assms by (auto simp: creds_defs Let_def split: if_splits option.splits prod.splits)

text \<open>Its groups are those of the user nobody, if the calls that set them are granted.\<close>

theorem daemon_drops_groups:
  assumes "drop_root (True, True, g) nobody c = Inr c'" "is_root c"
  shows "\<exists>p. nobody = Some p \<and> ruid c' = pw_uid p \<and> rgid c' = pw_gid p \<and> egid c' = pw_gid p \<and> sgid c' = pw_gid p \<and>
    groups c' = pw_gid p # pw_groups p"
  using assms by (auto simp: creds_defs Let_def split: if_splits option.splits)

end
