(* ===== verification/Tftp_Network.thy ===== *)
theory Tftp_Network
  imports Tftpd_Main Tftp_Get
begin

text \<open>
  The client and the daemon on an unreliable network.  The steps of the two relations are
  the steps of the two programs; a datagram one of them has ever sent may reach the other
  at any later time, any number of times or never, so loss, repetition, delay and
  reordering are covered.  A request that reaches the daemon is served by \<open>serve\<close>, and
  every copy of it starts a process of its own.  The processes of an upload write to one file: each
  truncates it when it opens it, and writes at a position of its own.

  Not covered: packets of third parties and corrupted packets.
\<close>

record net =
  n_client :: cfg
  n_set :: settings
  n_name :: "byte list"
  n_mode :: "byte list"
  n_server :: cfg
  n_daemon :: daemon
  n_os :: os

definition csent :: "client \<Rightarrow> datagram set" where
  "csent s = snd ` set (cout s)"

definition dsent :: "(cfg \<times> srv) list \<Rightarrow> datagram set" where
  "dsent ds = (\<Union>(c, s)\<in>set ds. set (out s))"

fun carrives :: "datagram set \<Rightarrow> cevent \<Rightarrow> bool" where
  "carrives ps (CArrive a p) \<longleftrightarrow> p \<in> ps"
| "carrives ps _ \<longleftrightarrow> True"

fun darrives :: "datagram set \<Rightarrow> event \<Rightarrow> bool" where
  "darrives ps (Arrive p) \<longleftrightarrow> p \<in> ps"
| "darrives ps _ \<longleftrightarrow> True"

definition the_cfg :: "net \<Rightarrow> cfg" where
  "the_cfg w = mode_cfg (n_client w) (n_mode w)"

text \<open>A datagram in the daemon's receive buffer b is served.\<close>

definition served_as :: "net \<Rightarrow> bool \<Rightarrow> byte list \<Rightarrow> datagram \<Rightarrow> served" where
  "served_as w ok b p = serve (n_server w) (n_daemon w) (n_os w) ok (overlay b 0 p) (length p)"

subsection \<open>A download\<close>

inductive download :: "net \<Rightarrow> client \<Rightarrow> client \<Rightarrow> (cfg \<times> srv) list \<Rightarrow> bool" for w :: net and s0 :: client where
  d_call: "download w s0 (crecvfile (the_cfg w) (n_name w) (n_mode w) ok s0) []"
| d_client: "download w s0 s ds \<Longrightarrow> carrives (dsent ds) e \<Longrightarrow>
    download w s0 (crecv_step (the_cfg w) (n_set w) e s) ds"
| d_request: "download w s0 s ds \<Longrightarrow> p \<in> csent s \<Longrightarrow> length b = PKTSIZE \<Longrightarrow>
    served_as w ok b p = Sending c rq s' \<Longrightarrow> download w s0 s (ds @ [(c, s')])"
| d_server: "download w s0 s (xs @ (c, s') # ys) \<Longrightarrow> darrives (csent s) e \<Longrightarrow>
    download w s0 s (xs @ (c, send_step c e s') # ys)"

text \<open>What the two sides have to agree on: the request fits, and the daemon grants it.\<close>

definition agreed :: "net \<Rightarrow> u16 \<Rightarrow> cfile \<Rightarrow> bool" where
  "agreed w op f \<longleftrightarrow>
     length (request_pkt op (n_name w) (n_mode w)) \<le> PKTSIZE \<and> 0 \<notin> set (n_name w) \<and> nul_free (n_daemon w) \<and>
     find_format (map c_tolower (n_mode w)) = Some (n_mode w = cbytes ''netascii'') \<and>
     (\<exists>a. access_spec (n_daemon w) (n_os w) (n_name w) op = Inr (a, f))"

lemma convert_the_cfg [simp]: "convert (the_cfg w) = (n_mode w = cbytes ''netascii'')"
  by (simp add: the_cfg_def mode_cfg_def)

lemma serve_request:
  assumes "agreed w op f" "op = RRQ \<or> op = WRQ" "length b = PKTSIZE"
  shows "\<exists>rq b2. served_as w ok b (request_pkt op (n_name w) (n_mode w)) =
    (let c = (n_server w)\<lparr>convert := convert (the_cfg w)\<rparr>; s = start_srv f b2
     in if op = WRQ then Receiving c rq (recvfile c ok s) else Sending c rq (sendfile c ok s))"
proof -
  obtain a where a: "access_spec (n_daemon w) (n_os w) (n_name w) op = Inr (a, f)"
    and m: "find_format (map c_tolower (n_mode w)) = Some (n_mode w = cbytes ''netascii'')"
    using assms(1) by (auto simp: agreed_def)
  let ?rq = "\<lparr>rq_opcode = op, rq_convert = (n_mode w = cbytes ''netascii''), rq_access = a, rq_file = f\<rparr>"
  have "parsed (n_daemon w) (n_os w) op (n_name w) (n_mode w) = Inr ?rq"
    using a m by (simp add: parsed_def)
  then show ?thesis
    using serve_parsed [OF _ _ find_format_nul_free [OF m], of op "n_name w" b "n_daemon w" "n_server w" "n_os w" ok]
      assms by (fastforce simp: agreed_def served_as_def Let_def)
qed

lemma serve_other:
  assumes "net_short p 0 \<noteq> RRQ" "net_short p 0 \<noteq> WRQ" "4 \<le> length p"
  shows "served_as w ok b p = Stop 1 []"
proof -
  have "4 \<le> length (overlay b 0 p)" using assms(3) by (simp add: overlay_def)
  then have "th_opcode (host (n_server w)) (set_th_opcode (host (n_server w))
      (ntohs (host (n_server w)) (th_opcode (host (n_server w)) (overlay b 0 p))) (overlay b 0 p)) = net_short p 0"
    using assms(3) by (simp add: header_defs net_short_overlay wire_simps)
  then show ?thesis using assms(1,2) by (simp add: served_as_def serve_def Let_def)
qed

subsection \<open>Safety of a download\<close>

definition download_good :: "net \<Rightarrow> byte list \<Rightarrow> client \<Rightarrow> (cfg \<times> srv) list \<Rightarrow> bool" where
  "download_good w e s ds \<longleftrightarrow>
     get_good (the_cfg w) e (request_pkt RRQ (n_name w) (n_mode w)) s \<and> list_all (\<lambda>(c, s'). send_ok c e s') ds"

lemma senders_honest:
  assumes "list_all (\<lambda>(c, s'). send_ok c e s') ds" "p \<in> dsent ds"
  shows "honest e p"
proof -
  from assms obtain c s' where "send_ok c e s'" "p \<in> set (out s')"
    by (auto simp: dsent_def list_all_iff)
  from send_ok_in_order [OF this(1)] this(2) have "p \<in> set (file_blocks e)"
    unfolding in_order_def by (metis in_set_takeD remdups_adj_set)
  then obtain k where "p = block_pkt e k" "k < nblocks e" by (auto simp: file_blocks_def)
  then show ?thesis by (simp add: block_honest)
qed

lemma replies_sent:
  assumes "get_ok c d req s" "p \<in> csent s"
  shows "p = req \<or> (\<exists>j. p = ack_pkt j)"
proof -
  have "replies_ok d req (map snd (cout s))"
    using assms(1) replied_replies got_inv_bound unfolding get_ok_def
    by (auto split: cphase.splits simp: less_imp_le)
  with assms(2) obtain k where "replied req k (map snd (cout s))"
    by (auto simp: replies_ok_def csent_def)
  then have "set (map snd (cout s)) = reply req ` set [0..<Suc k]"
    unfolding replied_def by (metis list.set_map remdups_adj_set)
  with assms(2) obtain j where "p = reply req j" by (auto simp: csent_def)
  then show ?thesis by (auto simp: reply_def)
qed

lemma download_invariant:
  assumes "download w s0 s ds" and ag: "agreed w RRQ (open_read file)"
    and s0: "s0 = client_start a sb ab (open_trunc None)" "bufs_ok sb" "length ab = PKTSIZE"
    and num: "numbered (encoded (convert (the_cfg w)) file)"
  shows "download_good w (encoded (convert (the_cfg w)) file) s ds"
  using assms(1)
proof induction
  let ?e = "encoded (convert (the_cfg w)) file" and ?r = "request_pkt RRQ (n_name w) (n_mode w)"
  have fits: "length ?r \<le> PKTSIZE" using ag by (simp add: agreed_def)
  case (d_call ok)
  show ?case
    using crecvfile_start(1) [OF fits s0(2,3)] s0(1) by (simp add: download_good_def)
next
  case (d_client s ds e)
  then have "chonest (encoded (convert (the_cfg w)) file) e"
    using senders_honest by (cases e) (auto simp: download_good_def)
  with d_client show ?case
    using crecv_step_good [OF _ _ num request_is_request] ag by (simp add: download_good_def agreed_def del: crecv_step.simps)
next
  case (d_request s ds p b ok c rq s')
  have "p = request_pkt RRQ (n_name w) (n_mode w) \<or> (\<exists>j. p = ack_pkt j)"
    using d_request replies_sent by (fastforce simp: download_good_def get_good_def)
  then have "p = request_pkt RRQ (n_name w) (n_mode w)"
    using d_request(4) serve_other [of p w ok b] by (auto simp: wire_simps opcode_defs)
  then have "\<exists>rb. c = (n_server w)\<lparr>convert := convert (the_cfg w)\<rparr> \<and> s' = sendfile c ok (start_srv (open_read file) rb)"
    using d_request(3,4) serve_request [OF ag _ d_request(3), of ok] by (auto simp: Let_def opcode_defs)
  then obtain rb where "c = (n_server w)\<lparr>convert := convert (the_cfg w)\<rparr>" "s' = sendfile c ok (start_srv (open_read file) rb)"
    by blast
  with sendfile_ok [where c = c and d = "file" and ok = ok and rb = rb] d_request show ?case by (simp add: download_good_def)
next
  case (d_server s xs c s' ys e)
  then show ?case using send_step_ok [of c _ s' e] by (simp add: download_good_def del: send_step.simps)
qed

subsection \<open>A download can finish\<close>

text \<open>The client has replied to block k, and the daemon has sent block k + 1.\<close>

definition d_round :: "net \<Rightarrow> byte list \<Rightarrow> nat \<Rightarrow> client \<Rightarrow> cfg \<Rightarrow> srv \<Rightarrow> bool" where
  "d_round w e k s c s' \<longleftrightarrow>
     at_reply (the_cfg w) e (request_pkt RRQ (n_name w) (n_mode w)) k s \<and> cinq s = [] \<and>
     send_inv c e k s' \<and> phase s' = Waiting \<and> inq s' = [] \<and> block_pkt e k \<in> set (out s')"

lemma reply_sent: "at_reply c d req k s \<Longrightarrow> reply req k \<in> csent s"
  unfolding at_reply_def replied_def csent_def by (metis last_in_set list.set_map)

lemma d_server1:
  "download w s0 s [(c, s')] \<Longrightarrow> darrives (csent s) e \<Longrightarrow> download w s0 s [(c, send_step c e s')]"
  using d_server [of w s0 s "[]" c s' "[]" e] by simp

lemma d_round_next:
  assumes d: "download w s0 s [(c, s')]" and r: "d_round w e k s c s'"
    and req: "is_request (request_pkt RRQ (n_name w) (n_mode w))"
  shows "\<exists>s2 s2'. download w s0 s2 [(c, s2')] \<and>
    (if Suc k = nblocks e then cphase s2 = CFinished else d_round w e (Suc k) s2 c s2')"
proof -
  let ?w = "the_cfg w" and ?v = "(True, True, True)" and ?b = "block_pkt e k"
  define s1 where "s1 = crecv_step ?w (n_set w) (CArrive demo_addr ?b) s"
  define s2 where "s2 = crecv_step ?w (n_set w) (CRecv ?v) s1"
  have "download w s0 s1 [(c, s')]"
    unfolding s1_def by (rule d_client [OF d]) (use r in \<open>auto simp: d_round_def dsent_def\<close>)
  then have d2: "download w s0 s2 [(c, s')]"
    unfolding s2_def by (rule d_client) simp
  have "s2 = crecv_run ?w (n_set w) [CArrive demo_addr ?b, CRecv ?v] s"
    by (simp add: s2_def s1_def crecv_run_def)
  then have g: "if Suc k = nblocks e then cphase s2 = CFinished
      else at_reply ?w e (request_pkt RRQ (n_name w) (n_mode w)) (Suc k) s2 \<and> cinq s2 = []"
    using block_got [of ?w e _ k s ?v, OF _ _ _ req] r by (simp add: d_round_def)
  show ?thesis
  proof (cases "Suc k = nblocks e")
    case True
    with g d2 show ?thesis by auto
  next
    case False
    let ?a = "ack_pkt (of_nat (Suc k))"
    from False g have "?a \<in> csent s2" using reply_sent [of ?w e _ "Suc k" s2] by (fastforce simp: reply_def)
    then have "darrives (csent s2) (Arrive ?a)" by simp
    then have "download w s0 s2 [(c, send_step c (Recv True) (send_step c (Arrive ?a) s'))]"
      by (intro d_server1 [of _ _ _ _ _ "Recv True"] d_server1 [OF d2]) simp_all
    then have "download w s0 s2 [(c, send_run c [Arrive ?a, Recv True] s')]"
      by (simp only: send_run_def fold_simps)
    moreover have "d_round w e (Suc k) s2 c (send_run c [Arrive ?a, Recv True] s')"
      using ack_progress [of c e k s'] r False g unfolding d_round_def by simp
    ultimately show ?thesis using False by auto
  qed
qed

lemma d_rounds:
  assumes "download w s0 s [(c, s')]" "d_round w e 0 s c s'"
    and req: "is_request (request_pkt RRQ (n_name w) (n_mode w))"
  shows "k < nblocks e \<Longrightarrow> \<exists>s s'. download w s0 s [(c, s')] \<and> d_round w e k s c s'"
proof (induction k)
  case (Suc k)
  then obtain s s' where "download w s0 s [(c, s')]" "d_round w e k s c s'" by auto
  from d_round_next [OF this req] Suc.prems show ?case by auto
qed (use assms in blast)

lemma download_finishes:
  assumes ag: "agreed w RRQ (open_read file)" and s0: "s0 = client_start a sb ab (open_trunc None)"
    "bufs_ok sb" "length ab = PKTSIZE"
  shows "\<exists>s ds. download w s0 s ds \<and> cphase s = CFinished"
proof -
  let ?r = "request_pkt RRQ (n_name w) (n_mode w)" and ?e = "encoded (convert (the_cfg w)) file"
  let ?s = "crecvfile (the_cfg w) (n_name w) (n_mode w) True s0"
  have fits: "length ?r \<le> PKTSIZE" using ag by (simp add: agreed_def)
  have st: "at_reply (the_cfg w) ?e ?r 0 ?s" "cinq ?s = []"
    using crecvfile_start(2,3) [OF fits s0(2,3), where ok = True] s0(1) by simp_all
  have "?r \<in> csent ?s" using reply_sent [OF st(1)] by (simp add: reply_def)
  obtain rq b2 where "served_as w True (replicate PKTSIZE 0) ?r =
      (let c = (n_server w)\<lparr>convert := convert (the_cfg w)\<rparr>; s = start_srv (open_read file) b2
       in if RRQ = WRQ then Receiving c rq (recvfile c True s) else Sending c rq (sendfile c True s))"
    using serve_request [OF ag, of "replicate PKTSIZE 0" True] by auto
  moreover define c where "c = (n_server w)\<lparr>convert := convert (the_cfg w)\<rparr>"
  moreover define s' where "s' = sendfile c True (start_srv (open_read file) b2)"
  ultimately have "served_as w True (replicate PKTSIZE 0) ?r = Sending c rq s'"
    by (simp add: opcode_defs Let_def)
  from d_request [OF d_call \<open>?r \<in> csent ?s\<close> _ this] have d: "download w s0 ?s [(c, s')]" by simp
  have "d_round w ?e 0 ?s c s'"
    using st sendfile_start [of c "file" b2] by (simp add: d_round_def c_def s'_def)
  note rounds = d_rounds [OF d this request_is_request [OF fits]]
  have n: "nblocks ?e = Suc (nblocks ?e - 1)" by (simp add: nblocks_def)
  then obtain s s1 where "download w s0 s [(c, s1)]" "d_round w ?e (nblocks ?e - 1) s c s1"
    using rounds [of "nblocks ?e - 1"] by auto
  from d_round_next [OF this request_is_request [OF fits]] n show ?thesis by auto
qed

section \<open>Uploads\<close>

text \<open>
  The last argument is the file on the daemon's disk.  Before a process takes a step it sees what the others have
  written (\<open>on_file\<close>); what it writes is in the file for the others.
\<close>

definition on_file :: "byte list \<Rightarrow> srv \<Rightarrow> srv" where
  "on_file d s = s\<lparr>fs := ((fst (fs s))\<lparr>fdata := d\<rparr>, snd (fs s))\<rparr>"

inductive upload :: "net \<Rightarrow> client \<Rightarrow> client \<Rightarrow> (cfg \<times> srv) list \<Rightarrow> byte list \<Rightarrow> bool" for w :: net and s0 :: client where
  u_call: "upload w s0 (csendfile (the_cfg w) (n_set w) (n_name w) (n_mode w) v s0) [] d"
| u_client: "upload w s0 s ds d \<Longrightarrow> carrives (dsent ds) e \<Longrightarrow>
    upload w s0 (csend_step (the_cfg w) (n_set w) e s) ds d"
| u_request: "upload w s0 s ds d \<Longrightarrow> p \<in> csent s \<Longrightarrow> length b = PKTSIZE \<Longrightarrow>
    served_as w ok b p = Receiving c rq s' \<Longrightarrow> upload w s0 s (ds @ [(c, s')]) (on_disk s')"
| u_server: "upload w s0 s (xs @ (c, s') # ys) d \<Longrightarrow> darrives (csent s) e \<Longrightarrow> t = recv_step c e (on_file d s') \<Longrightarrow>
    upload w s0 s (xs @ (c, t) # ys) (on_disk t)"

lemma on_file_self: "d = on_disk s \<Longrightarrow> on_file d s = s"
  by (cases "fs s") (simp add: on_file_def on_disk_def)

text \<open>A process that is alone.\<close>

lemma u_server1:
  "upload w s0 s [(c, s')] (on_disk s') \<Longrightarrow> darrives (csent s) e \<Longrightarrow>
   upload w s0 s [(c, recv_step c e s')] (on_disk (recv_step c e s'))"
  using u_server [of w s0 s "[]" c s' "[]" "on_disk s'" e] by (simp add: on_file_self)

subsection \<open>Safety of an upload\<close>

text \<open>The daemon's machine never takes back a packet, and the client's queue only grows by arrivals.\<close>

lemma recv_step_out: "set (out s) \<subseteq> set (out (recv_step c e s))"
  by (cases e)
    (auto simp: handle_data_def accept_block_def next_ack_def finish_def send_ack_def nak_def transmit_def
      dally_def timer_def set_dp_buf_def Let_def split: list.split prod.split)

lemma cinq_csend: "cinq (csend_data c t v s) = cinq s" "cinq (cnext_data c t v s) = cinq s"
proof -
  show d: "cinq (csend_data c t v s) = cinq s" for s by (rule csend_data_effect [of c t v s]) blast
  show "cinq (cnext_data c t v s) = cinq s"
    by (simp add: cnext_data_def cnak_def csendto_def set_cdp_buf_def d Let_def split: prod.split)
qed

lemma cinq_chandle: "set (cinq (chandle_ack c t v p s)) \<subseteq> set (cinq s)"
  by (auto simp: chandle_ack_def Let_def cinq_csend csynch_def dest: in_set_dropD)

lemma cinq_step:
  "snd ` set (cinq (csend_step c t e s)) \<subseteq> snd ` set (cinq s) \<union> (case e of CArrive a p \<Rightarrow> {p} | _ \<Rightarrow> {})"
proof (cases e)
  case (CRecv v)
  show ?thesis
  proof (cases "cinq s")
    case (Cons ap q)
    have "cinq (csend_step c t e s) = (if cphase s = CWaiting \<and> snd ap \<noteq> []
        then cinq (chandle_ack c t v (snd ap) (s\<lparr>cinq := q, from_addr := fst ap\<rparr>))
        else if cphase s = CWaiting then q else ap # q)"
      using CRecv Cons by (simp add: Let_def case_prod_beta)
    then have "set (cinq (csend_step c t e s)) \<subseteq> set (ap # q)"
      using cinq_chandle [of c t v "snd ap" "s\<lparr>cinq := q, from_addr := fst ap\<rparr>"] by auto
    then show ?thesis using Cons by auto
  qed (simp add: CRecv)
qed (auto simp: ctimer_def cinq_csend Let_def split: list.split)

lemma sending_goes_on: "cphase (csend_data c t v s) \<noteq> CFinished" "cphase (cnext_data c t v s) \<noteq> CFinished"
proof -
  show d: "cphase (csend_data c t v s) \<noteq> CFinished" for s
    by (rule csend_data_effect [of c t v s]) (simp split: if_splits)
  show "cphase (cnext_data c t v s) \<noteq> CFinished"
    by (simp add: cnext_data_def d Let_def split: prod.split)
qed

text \<open>Only the acknowledgement of the last block ends the client's loop.\<close>

lemma finishing_ack:
  assumes ok: "put_ok c d req s" "cphase s = CWaiting" and fin: "cphase (chandle_ack c t v (ack_pkt m) s) = CFinished"
  shows "m = of_nat (nblocks d)"
  using ok
proof (cases rule: put_waiting)
  case ask
  then have len: "length (cackbuf s) = PKTSIZE" by (simp add: asking_def)
  show ?thesis
    using fin ask(1) assms(2) ack_received [OF len, of "host c" m]
    by (auto simp: chandle_ack_def Let_def sending_goes_on csynch_def split: if_splits)
next
  case (data n k)
  then have len: "length (cackbuf s) = PKTSIZE" and b: "cblock s = of_nat (Suc k)"
    and sz: "csize s \<noteq> int SEGSIZE \<Longrightarrow> Suc k = nblocks d"
    using chunk_last [of k d] by (auto simp: send_inv_def)
  show ?thesis
    using fin data(1) assms(2) ack_received [OF len, of "host c" m] b sz
    by (auto simp: chandle_ack_def Let_def sending_goes_on csynch_def simp del: of_nat_Suc split: if_splits)
qed

lemma step_finishes:
  assumes "cphase (csend_step c t e s) = CFinished" "cphase s \<noteq> CFinished"
  obtains v a p q where "cphase s = CWaiting" "cinq s = (a, p) # q" "p \<noteq> []"
    "cphase (chandle_ack c t v p (s\<lparr>cinq := q, from_addr := a\<rparr>)) = CFinished"
  using assms
  by (cases e) (auto simp: ctimer_def sending_goes_on Let_def split: list.splits if_splits)

text \<open>What holds while at most one process has been started.\<close>

definition upload_good :: "net \<Rightarrow> byte list \<Rightarrow> client \<Rightarrow> (cfg \<times> srv) list \<Rightarrow> byte list \<Rightarrow> bool" where
  "upload_good w e s ds d \<longleftrightarrow>
     put_ok (the_cfg w) e (request_pkt WRQ (n_name w) (n_mode w)) s \<and> snd ` set (cinq s) \<subseteq> dsent ds \<and>
     (cphase s = CFinished \<longrightarrow> ack_pkt (of_nat (nblocks e)) \<in> dsent ds) \<and>
     list_all (\<lambda>(c, s'). convert c = convert (the_cfg w) \<and> recv_good c e s' \<and> on_disk s' = d) ds"

lemma put_sent:
  assumes "put_ok c e (request_pkt WRQ name mode) s" "p \<in> csent s"
  shows "p = request_pkt WRQ name mode \<or> p \<in> set (file_blocks e)"
proof -
  have "prefix (remdups_adj (map snd (cout s))) (request_pkt WRQ name mode # file_blocks e)"
    by (rule put_ok_prefix [OF assms(1) request_not_block]) simp
  then have "set (map snd (cout s)) \<subseteq> set (request_pkt WRQ name mode # file_blocks e)"
    by (metis remdups_adj_set set_mono_prefix)
  with assms(2) show ?thesis by (auto simp: csent_def)
qed

lemma put_sent_honest:
  assumes "put_ok c e (request_pkt WRQ name mode) s" "p \<in> csent s"
  shows "honest e p" "p \<noteq> request_pkt WRQ name mode \<Longrightarrow> net_short p 0 = DATA" "4 \<le> length p"
proof -
  from put_sent [OF assms] consider (req) "p = request_pkt WRQ name mode" | (block) k where "p = block_pkt e k" "k < nblocks e"
    by (auto simp: file_blocks_def)
  then have "honest e p \<and> (p \<noteq> request_pkt WRQ name mode \<longrightarrow> net_short p 0 = DATA) \<and> 4 \<le> length p"
    by cases (simp add: honest_def wire_simps opcode_defs TFTP_HEADER_def,
        simp add: block_honest, simp add: block_pkt_def wire_simps)
  then show "honest e p" "p \<noteq> request_pkt WRQ name mode \<Longrightarrow> net_short p 0 = DATA" "4 \<le> length p" by auto
qed

lemma upload_client:
  assumes good: "upload_good w e s ds d" and ev: "carrives (dsent ds) ev" and num: "nblocks e < 65536"
  shows "upload_good w e (csend_step (the_cfg w) t ev s) ds d"
proof -
  let ?r = "request_pkt WRQ (n_name w) (n_mode w)" and ?s = "csend_step (the_cfg w) t ev s"
  have ok: "put_ok (the_cfg w) e ?r s" and q: "snd ` set (cinq s) \<subseteq> dsent ds"
    and ds: "list_all (\<lambda>(c, s'). convert c = convert (the_cfg w) \<and> recv_good c e s') ds"
    using good by (auto simp: upload_good_def list_all_iff)
  have q': "snd ` set (cinq ?s) \<subseteq> dsent ds"
    using cinq_step [of "the_cfg w" t ev s] q ev by (cases ev) auto
  have "ack_pkt (of_nat (nblocks e)) \<in> dsent ds" if fin: "cphase ?s = CFinished" and run: "cphase s \<noteq> CFinished"
    using fin run
  proof (rule step_finishes)
    fix v a p rest
    assume wt: "cphase s = CWaiting" and c: "cinq s = (a, p) # rest"
      and f: "cphase (chandle_ack (the_cfg w) t v p (s\<lparr>cinq := rest, from_addr := a\<rparr>)) = CFinished"
    have p: "p \<in> dsent ds" using q c by auto
    then obtain j where j: "p = ack_pkt j"
      using ds recv_acks_out by (fastforce simp: dsent_def list_all_iff recv_good_def)
    have "put_ok (the_cfg w) e ?r (s\<lparr>cinq := rest, from_addr := a\<rparr>)" by (rule put_ok_frame [OF ok]) simp_all
    from finishing_ack [OF this _ f [unfolded j]] wt have "j = of_nat (nblocks e)" by simp
    with p j show ?thesis by simp
  qed
  then show ?thesis
    using good q' csend_step_ok [OF ok] by (auto simp: upload_good_def simp del: csend_step.simps)
qed

text \<open>The client is on its way whatever the processes do.\<close>

lemma upload_put_ok:
  assumes "upload w s0 s ds d" and ag: "agreed w WRQ f"
    and s0: "s0 = client_start a sb ab (open_read file)" "bufs_ok sb" "length ab = PKTSIZE"
  shows "put_ok (the_cfg w) (encoded (convert (the_cfg w)) file) (request_pkt WRQ (n_name w) (n_mode w)) s"
  using assms(1)
proof induction
  have fits: "length (request_pkt WRQ (n_name w) (n_mode w)) \<le> PKTSIZE" using ag by (simp add: agreed_def)
  case (u_call v d)
  show ?case
    using csendfile_ok(1) [OF fits s0(2,3), where c = "the_cfg w" and d = "file" and t = "n_set w" and v = v and a = a,
        folded s0(1)] .
qed (simp_all add: csend_step_ok del: csend_step.simps)

lemma upload_request:
  assumes up: "upload w s0 s ds d" and ag: "agreed w WRQ (open_trunc None)"
    and s0: "s0 = client_start a sb ab (open_read file)" "bufs_ok sb" "length ab = PKTSIZE"
    and p: "p \<in> csent s" "length b = PKTSIZE" "served_as w ok b p = Receiving c rq s'"
  shows "p = request_pkt WRQ (n_name w) (n_mode w)" "convert c = convert (the_cfg w)" "recv_good c e s'" "on_disk s' = []"
proof -
  let ?r = "request_pkt WRQ (n_name w) (n_mode w)"
  note put = upload_put_ok [OF up ag s0]
  show "p = ?r"
  proof (rule ccontr)
    assume "p \<noteq> ?r"
    from put_sent_honest(2,3) [OF put p(1)] this have "served_as w ok b p = Stop 1 []"
      by (intro serve_other) (simp_all add: opcode_defs)
    with p(3) show False by simp
  qed
  then have "\<exists>rb. c = (n_server w)\<lparr>convert := convert (the_cfg w)\<rparr> \<and> s' = recvfile c ok (start_srv (open_trunc None) rb)"
    using p(3) serve_request [OF ag _ p(2), of ok] by (auto simp: Let_def)
  then obtain rb where c: "c = (n_server w)\<lparr>convert := convert (the_cfg w)\<rparr>"
    and s': "s' = recvfile c ok (start_srv (open_trunc None) rb)" by blast
  from c show "convert c = convert (the_cfg w)" by simp
  show "recv_good c e s'" for e unfolding s' by (rule recvfile_start(1))
  show "on_disk s' = []" unfolding s' by (rule recvfile_start(6))
qed

lemma upload_invariant:
  assumes "upload w s0 s ds d" and ag: "agreed w WRQ (open_trunc None)"
    and s0: "s0 = client_start a sb ab (open_read file)" "bufs_ok sb" "length ab = PKTSIZE"
    and num: "nblocks (encoded (convert (the_cfg w)) file) < 65536"
  shows "length ds \<le> 1 \<Longrightarrow> upload_good w (encoded (convert (the_cfg w)) file) s ds d"
  using assms(1)
proof induction
  have fits: "length (request_pkt WRQ (n_name w) (n_mode w)) \<le> PKTSIZE" using ag by (simp add: agreed_def)
  case (u_call v d)
  note st = csendfile_ok(1,3,4) [OF fits s0(2,3), where c = "the_cfg w" and d = "file" and t = "n_set w" and v = v and a = a,
      folded s0(1)]
  moreover have "cphase (csendfile (the_cfg w) (n_set w) (n_name w) (n_mode w) v s0) \<noteq> CFinished"
    using st(1,2) by (simp add: put_ok_def)
  ultimately show ?case by (simp add: upload_good_def)
next
  case (u_client s ds d e)
  then show ?case using upload_client num by blast
next
  case (u_request s ds d p b ok c rq s')
  then have "ds = []" "upload_good w (encoded (convert (the_cfg w)) file) s [] d" by simp_all
  with upload_request [OF u_request(1) ag s0 u_request(2,3,4)] show ?case by (simp add: upload_good_def dsent_def)
next
  case (u_server s xs c s' ys d e t)
  let ?e = "encoded (convert (the_cfg w)) file"
  from u_server have one: "xs = []" "ys = []" and good: "upload_good w ?e s [(c, s')] d" by auto
  then have t: "t = recv_step c e s'" using u_server(3) by (simp add: upload_good_def on_file_self)
  have put: "put_ok (the_cfg w) ?e (request_pkt WRQ (n_name w) (n_mode w)) s" and rg: "recv_good c ?e s'"
    using good by (simp_all add: upload_good_def)
  have "honest_event ?e e" using u_server(2) put_sent_honest(1) [OF put] by (cases e) auto
  moreover have "numbered ?e" using num by (simp add: numbered_def)
  ultimately have "recv_good c ?e t"
    using rg recv_step_ok recv_step_inq by (simp add: t recv_good_def del: recv_step.simps)
  moreover have "dsent [(c, s')] \<subseteq> dsent [(c, t)]"
    using recv_step_out [of s' c e] by (simp add: t dsent_def del: recv_step.simps)
  ultimately show ?case using good one by (auto simp: upload_good_def)
qed

text \<open>A late copy of the request starts a process that empties the file.\<close>

lemma upload_again:
  assumes up: "upload w s0 s ds d" and ag: "agreed w WRQ (open_trunc None)"
    and s0: "s0 = client_start a sb ab (open_read file)" "bufs_ok sb" "length ab = PKTSIZE"
    and fin: "cphase s = CFinished"
  shows "\<exists>x. upload w s0 s (ds @ [x]) []"
proof -
  let ?r = "request_pkt WRQ (n_name w) (n_mode w)" and ?b = "replicate PKTSIZE 0"
  obtain n where "0 < n" "requested n ?r s"
    using upload_put_ok [OF up ag s0] fin by (auto simp: put_ok_def split: if_splits)
  then have "?r \<in> set (take n (map snd (cout s)))" by (simp add: requested_def)
  then have r: "?r \<in> csent s" unfolding csent_def by (metis in_set_takeD list.set_map)
  obtain c rq s' where s': "served_as w True ?b ?r = Receiving c rq s'"
    using serve_request [OF ag, of ?b True] by (auto simp: Let_def)
  from u_request [OF up r _ s'] upload_request(4) [OF up ag s0 r _ s'] show ?thesis by auto
qed

subsection \<open>An upload can finish\<close>

text \<open>The client has sent block k + 1, and the daemon has acknowledged block k.\<close>

definition u_round :: "net \<Rightarrow> byte list \<Rightarrow> nat \<Rightarrow> client \<Rightarrow> cfg \<Rightarrow> srv \<Rightarrow> bool" where
  "u_round w e k s c s' \<longleftrightarrow>
     (\<exists>n. at_block (the_cfg w) e (request_pkt WRQ (n_name w) (n_mode w)) n k s) \<and> cinq s = [] \<and>
     recv_inv c e k s' \<and> acked_upto k (out s') \<and> phase s' = Waiting \<and> inq s' = []"

lemma block_sent: "at_block c d req n k s \<Longrightarrow> block_pkt d k \<in> csent s"
proof -
  assume "at_block c d req n k s"
  then have "sent_upto d k (drop n (map snd (cout s)))" by (simp add: at_block_def)
  then have "block_pkt d k \<in> set (drop n (map snd (cout s)))"
    unfolding sent_upto_def by (metis last_in_set)
  then show ?thesis unfolding csent_def by (metis in_set_dropD list.set_map)
qed

text \<open>Both sides take one packet each.\<close>

lemma upload_exchange:
  assumes d: "upload w s0 s [(c, s')] (on_disk s')" and p: "p \<in> csent s"
    and q: "q \<in> set (out (recv_run c [Arrive p, Recv True] s'))"
  shows "upload w s0 (csend_run (the_cfg w) (n_set w) [CArrive demo_addr q, CRecv (True, True, True)] s)
    [(c, recv_run c [Arrive p, Recv True] s')] (on_disk (recv_run c [Arrive p, Recv True] s'))"
proof -
  let ?t = "recv_step c (Recv True) (recv_step c (Arrive p) s')"
  let ?u = "csend_step (the_cfg w) (n_set w) (CArrive demo_addr q) s"
  have t: "?t = recv_run c [Arrive p, Recv True] s'" by (simp only: recv_run_def fold_simps)
  have "darrives (csent s) (Arrive p)" using p by simp
  then have "upload w s0 s [(c, ?t)] (on_disk ?t)" by (intro u_server1 [of _ _ _ _ _ "Recv True"] u_server1 [OF d]) simp_all
  moreover have "carrives (dsent [(c, ?t)]) (CArrive demo_addr q)" using q unfolding t by (simp add: dsent_def)
  ultimately have "upload w s0 (csend_step (the_cfg w) (n_set w) (CRecv (True, True, True)) ?u) [(c, ?t)] (on_disk ?t)"
    by (intro u_client [of _ _ _ _ _ "CRecv (True, True, True)"] u_client [of _ _ s]) simp_all
  then show ?thesis by (simp only: csend_run_def fold_simps t)
qed

lemma u_round_next:
  assumes d: "upload w s0 s [(c, s')] (on_disk s')" and r: "u_round w e k s c s'"
  shows "\<exists>s2 s2'. upload w s0 s2 [(c, s2')] (on_disk s2') \<and>
    (if Suc k = nblocks e then cphase s2 = CFinished else u_round w e (Suc k) s2 c s2')"
proof -
  obtain n where at: "at_block (the_cfg w) e (request_pkt WRQ (n_name w) (n_mode w)) n k s" and q: "cinq s = []"
    and inv: "recv_inv c e k s'" "acked_upto k (out s')" "phase s' = Waiting" "inq s' = []"
    using r by (auto simp: u_round_def)
  let ?a = "ack_pkt (of_nat (Suc k))" and ?t = "recv_run c [Arrive (block_pkt e k), Recv True] s'"
  let ?u = "csend_run (the_cfg w) (n_set w) [CArrive demo_addr ?a, CRecv (True, True, True)] s"
  note dp = data_progress [OF inv]
  have "upload w s0 ?u [(c, ?t)] (on_disk ?t)"
    by (rule upload_exchange [OF d block_sent [OF at]]) (use dp in \<open>simp del: of_nat_Suc\<close>)
  moreover have "if Suc k = nblocks e then cphase ?u = CFinished else u_round w e (Suc k) ?u c ?t"
    using block_acked [OF at q, of "(True, True, True)" "n_set w" demo_addr] dp acked_next [OF inv(2)]
    by (auto simp: u_round_def simp del: of_nat_Suc)
  ultimately show ?thesis by blast
qed

lemma u_rounds:
  assumes "upload w s0 s [(c, s')] (on_disk s')" "u_round w e 0 s c s'"
  shows "k < nblocks e \<Longrightarrow> \<exists>s s'. upload w s0 s [(c, s')] (on_disk s') \<and> u_round w e k s c s'"
proof (induction k)
  case (Suc k)
  then obtain s s' where "upload w s0 s [(c, s')] (on_disk s')" "u_round w e k s c s'" by auto
  from u_round_next [OF this] Suc.prems show ?case by auto
qed (use assms in blast)

lemma upload_finishes:
  assumes ag: "agreed w WRQ (open_trunc None)" and s0: "s0 = client_start a sb ab (open_read file)"
    "bufs_ok sb" "length ab = PKTSIZE"
  shows "\<exists>s x d. upload w s0 s [x] d \<and> cphase s = CFinished"
proof -
  let ?r = "request_pkt WRQ (n_name w) (n_mode w)" and ?e = "encoded (convert (the_cfg w)) file"
    and ?v = "(True, True, True)"
  let ?s = "csendfile (the_cfg w) (n_set w) (n_name w) (n_mode w) ?v s0"
  have fits: "length ?r \<le> PKTSIZE" using ag by (simp add: agreed_def)
  note st = csendfile_ok(1-4) [OF fits s0(2,3), where c = "the_cfg w" and d = "file" and t = "n_set w" and v = ?v and a = a,
      folded s0(1), simplified]
  have ask: "asking (the_cfg w) ?e ?r ?s" "requested (length (cout ?s)) ?r ?s" "cout ?s \<noteq> []"
    using put_waiting [OF st(1,2)] st(3) by auto
  have "?r \<in> set (map snd (cout ?s))"
    using ask(2,3) by (cases "cout ?s") (auto simp: requested_def)
  then have "?r \<in> csent ?s" by (simp add: csent_def)
  obtain rq b2 where "served_as w True (replicate PKTSIZE 0) ?r =
      (let c = (n_server w)\<lparr>convert := convert (the_cfg w)\<rparr>; s = start_srv (open_trunc None) b2
       in if WRQ = WRQ then Receiving c rq (recvfile c True s) else Sending c rq (sendfile c True s))"
    using serve_request [OF ag, of "replicate PKTSIZE 0" True] by auto
  moreover define c where "c = (n_server w)\<lparr>convert := convert (the_cfg w)\<rparr>"
  moreover define s' where "s' = recvfile c True (start_srv (open_trunc None) b2)"
  ultimately have "served_as w True (replicate PKTSIZE 0) ?r = Receiving c rq s'" by (simp add: Let_def)
  from u_request [OF u_call \<open>?r \<in> csent ?s\<close> _ this] have d: "upload w s0 ?s [(c, s')] (on_disk s')" by simp
  note sr = recvfile_start(2) [where c = c and d = ?e and ok = True and rb = b2, simplified, folded s'_def]
    recvfile_start(3-5) [where c = c and ok = True and rb = b2, simplified, folded s'_def]
  let ?es = "[CArrive demo_addr (ack_pkt 0), CRecv ?v]"
  let ?s1 = "csend_run (the_cfg w) (n_set w) ?es ?s"
  have "carrives (dsent [(c, s')]) (CArrive demo_addr (ack_pkt 0))" using sr(4) by (simp add: dsent_def)
  then have "upload w s0 (csend_step (the_cfg w) (n_set w) (CRecv ?v)
      (csend_step (the_cfg w) (n_set w) (CArrive demo_addr (ack_pkt 0)) ?s)) [(c, s')] (on_disk s')"
    by (intro u_client [of _ _ _ _ _ "CRecv ?v"] u_client [OF d]) simp_all
  then have d1: "upload w s0 ?s1 [(c, s')] (on_disk s')" by (simp only: csend_run_def fold_simps)
  have "u_round w ?e 0 ?s1 c s'"
    using request_acked [OF ask(1,2) st(3,2) ask(3) st(4), of ?v] sr
    by (auto simp: u_round_def acked_upto_def)
  note rounds = u_rounds [OF d1 this]
  have n: "nblocks ?e = Suc (nblocks ?e - 1)" by (simp add: nblocks_def)
  then obtain s s1 where "upload w s0 s [(c, s1)] (on_disk s1)" "u_round w ?e (nblocks ?e - 1) s c s1"
    using rounds [of "nblocks ?e - 1"] by auto
  from u_round_next [OF this] n show ?thesis by auto
qed

section \<open>What a finished transfer has done\<close>

lemma download_good_delivers:
  assumes "download_good w (encoded (convert (the_cfg w)) file) s ds" "cphase s = CFinished"
  shows "fetched s = file"
  using assms by (simp add: download_good_def get_good_def get_ok_def decoded_encoded)

lemma upload_good_delivers:
  assumes "upload_good w (encoded (convert (the_cfg w)) file) s ds d" "length ds \<le> 1" "cphase s = CFinished"
    and "nblocks (encoded (convert (the_cfg w)) file) < 65536"
  shows "length ds = 1 \<and> d = file"
proof -
  let ?e = "encoded (convert (the_cfg w)) file"
  from assms(1,3) have a: "ack_pkt (of_nat (nblocks ?e)) \<in> dsent ds" by (simp add: upload_good_def)
  with assms(2) obtain c s' where ds: "ds = [(c, s')]" by (cases ds) (auto simp: dsent_def)
  with assms(1) have "convert c = convert (the_cfg w)" "recv_ok c ?e s'" "d = on_disk s'"
    by (simp_all add: upload_good_def recv_good_def)
  with acked_stored [of c ?e s'] a ds assms(4) show ?thesis by (simp add: dsent_def decoded_encoded)
qed

section \<open>Properties\<close>

text \<open>
  C1: end to end: when the client considers a get finished, its local file is the file the
  daemon's access rules name, whatever was lost, repeated, delayed or reordered on the
  way, however many daemon processes the repeated request has started.
\<close>

theorem download_delivers:
  assumes "download w (client_start a sb ab (open_trunc None)) s ds" "agreed w RRQ (open_read file)"
    and "bufs_ok sb" "length ab = PKTSIZE" "numbered (encoded (n_mode w = cbytes ''netascii'') file)"
    and "cphase s = CFinished"
  shows "fetched s = file"
  by (rule download_good_delivers [OF download_invariant [OF assms(1,2) refl assms(3,4)] assms(6)]) (simp add: assms(5))

definition demo_net :: "byte list \<Rightarrow> os \<Rightarrow> net" where
  "demo_net name sys =
     \<lparr>n_client = demo_ccfg, n_set = demo_settings, n_name = name, n_mode = cbytes ''octet'',
      n_server = demo_cfg, n_daemon = demo_daemon, n_os = sys\<rparr>"

lemma demo_format: "find_format (map c_tolower (cbytes ''octet'')) = Some (cbytes ''octet'' = cbytes ''netascii'')"
  by (simp add: find_format_def formats_def cbytes_def c_tolower_def c_isupper_def)

lemma demo_agreed_read: "agreed (demo_net (cbytes ''a/b'') (demo_os f)) RRQ f"
  using parsed_Inr [OF demo_parsed [of f]] demo_format
  by (simp add: agreed_def demo_net_def wire_simps size_defs) (simp add: cbytes_def)

theorem download_delivers_witness:
  "\<exists>s ds. download (demo_net (cbytes ''a/b'') (demo_os (open_read [65])))
      (client_start demo_addr subs_start (replicate PKTSIZE 0) (open_trunc None)) s ds \<and>
    cphase s = CFinished \<and> fetched s = [65]"
proof -
  let ?w = "demo_net (cbytes ''a/b'') (demo_os (open_read [65]))"
    and ?s = "client_start demo_addr subs_start (replicate PKTSIZE 0) (open_trunc None)"
  obtain s ds where "download ?w ?s s ds" "cphase s = CFinished"
    using download_finishes [OF demo_agreed_read [of "open_read [65]"] refl, of subs_start "replicate PKTSIZE 0"] by fastforce
  with download_delivers [OF this(1) demo_agreed_read] show ?thesis
    by (auto simp: demo_net_def encoded_def cbytes_def numbered_def nblocks_def size_defs)
qed


lemma demo_agreed_write:
  "agreed (demo_net (cbytes ''up'') ((demo_os (open_trunc None))\<lparr>os_stat := \<lambda>_. Inr 438\<rparr>)) WRQ (open_trunc None)"
proof -
  let ?sys = "demo_os (open_trunc None)\<lparr>os_stat := \<lambda>_. Inr 438\<rparr>"
  have "access_spec demo_daemon ?sys (cbytes ''up'') WRQ =
      Inr (\<lparr>acc_dir = Some (cbytes ''/srv''), acc_name = cbytes ''up''\<rparr>, open_trunc None)"
    by (simp add: access_spec_def placed_def demo_daemon_def demo_os_def climbs_def SLASH_def DOT_def
        cbytes_def open_checked_def S_IWOTH_def RRQ_def WRQ_def sublist_Cons_right)
  with demo_format show ?thesis
    by (simp add: agreed_def demo_net_def wire_simps size_defs) (simp add: cbytes_def)
qed


end
