(* ===== verification/Tftp_Session.thy ===== *)
theory Tftp_Session
  imports Tftp_Network Tftp_Command Tftp_Calls
begin

text \<open>
  From the command line to the disk: the transfers a session of the client starts (\<open>Tftp_Command\<close>), carried out by
  \<^verbatim>\<open>sendfile\<close> and \<^verbatim>\<open>recvfile\<close> over a network with a daemon at its other end (\<open>Tftp_Network\<close>).  What the user types
  meets the conditions of the transfers: a name without NUL that fits into the request, and a mode the daemon knows.
  The transfers come one after the other (\<open>Tftp_Calls\<close>): each finds the buffers, and perhaps the socket, of the one before.
\<close>

text \<open>The network of a transfer, and its request.\<close>

fun asking :: "net \<Rightarrow> transfer \<Rightarrow> net" where
  "asking w (Put local remote m a) = w\<lparr>n_name := remote, n_mode := m\<rparr>"
| "asking w (Get remote local m a) = w\<lparr>n_name := remote, n_mode := m\<rparr>"

fun op_of :: "transfer \<Rightarrow> u16" where
  "op_of (Put local remote m a) = WRQ"
| "op_of (Get remote local m a) = RRQ"

definition granted :: "net \<Rightarrow> transfer \<Rightarrow> cfile \<Rightarrow> bool" where
  "granted w tf f \<longleftrightarrow> (\<exists>a. access_spec (n_daemon w) (n_os w) (n_name (asking w tf)) (op_of tf) = Inr (a, f))"

lemma known_format:
  "known_mode m \<Longrightarrow> find_format (map c_tolower m) = Some (m = cbytes ''netascii'')"
  by (auto simp: known_mode_def find_format_def formats_def cbytes_def c_tolower_def c_isupper_def)

lemma transfer_agreed:
  assumes "transfer_ok tf" "nul_free (n_daemon w)" "granted w tf f"
  shows "agreed (asking w tf) (op_of tf) f"
  using assms transfer_fits known_format
  by (cases tf) (auto simp: agreed_def granted_def name_ok_def)

section \<open>The calls of a session\<close>

text \<open>
  One transfer of a session: the network it meets, the contents of the local file if it is a put, whether its socket is new, the
  client when it begins and when it ends (or where it is now), the daemon's processes, and the file on the daemon's disk if it is a put.
\<close>

record call =
  call_net :: net
  call_tf :: transfer
  call_local :: "byte list"
  call_fresh :: bool
  call_begin :: client
  call_end :: client
  call_procs :: "(cfg \<times> srv) list"
  call_disk :: "byte list"

fun peer_of :: "transfer \<Rightarrow> sockaddr" where
  "peer_of (Put local remote m a) = a"
| "peer_of (Get remote local m a) = a"

definition opened :: "call \<Rightarrow> cfile" where
  "opened x = (case call_tf x of Put _ _ _ _ \<Rightarrow> open_read (call_local x) | Get _ _ _ _ \<Rightarrow> open_trunc None)"

lemma opened_end [simp]: "opened (x\<lparr>call_end := s\<rparr>) = opened x"
  by (cases "call_tf x") (simp_all add: opened_def)

text \<open>
  The first call of a session finds empty buffers and a new socket.  A later one finds what the last has left: a new
  socket if that came to its end, or if the command opened one (\<^verbatim>\<open>connect\<close>, or a host before the name); else the old one.
\<close>

inductive begins :: "client option \<Rightarrow> call \<Rightarrow> bool" where
  first: "call_fresh x \<Longrightarrow> call_begin x = client_start (peer_of (call_tf x)) subs_start (replicate PKTSIZE 0) (opened x) \<Longrightarrow>
    begins None x"
| later: "cphase s \<noteq> CWaiting \<Longrightarrow> next_call created bound (peer_of (call_tf x)) (opened x) s = Inr (call_begin x) \<Longrightarrow>
    (call_fresh x \<longleftrightarrow> cphase s \<noteq> CTimedOut) \<Longrightarrow> begins (Some s) x"
| reopened: "cphase s \<noteq> CWaiting \<Longrightarrow> call_fresh x \<Longrightarrow>
    call_begin x = client_start (peer_of (call_tf x)) (snd (cfs s)) (cackbuf s) (opened x) \<Longrightarrow> begins (Some s) x"

text \<open>
  On a new socket a call meets what the daemon's processes send to it.  On the socket of the call before it may meet anything.
\<close>

definition carried_out :: "call \<Rightarrow> bool" where
  "carried_out x \<longleftrightarrow>
     (let w = asking (call_net x) (call_tf x) in
      case call_tf x of
        Get _ _ _ _ \<Rightarrow>
          if call_fresh x then download w (call_begin x) (call_end x) (call_procs x)
          else \<exists>ok es. call_end x = client_get (n_client w) (n_set w) (n_name w) (n_mode w) ok (call_begin x) es
      | Put _ _ _ _ \<Rightarrow>
          if call_fresh x then upload w (call_begin x) (call_end x) (call_procs x) (call_disk x)
          else \<exists>v es. call_end x = client_put (n_client w) (n_set w) (n_name w) (n_mode w) v (call_begin x) es)"

text \<open>The calls made so far; the user may interrupt the last one.\<close>

inductive calls :: "call list \<Rightarrow> bool" where
  none: "calls []"
| one_more: "calls xs \<Longrightarrow> begins (if xs = [] then None else Some (call_end (last xs))) x \<Longrightarrow> carried_out x \<Longrightarrow> calls (xs @ [x])"
| interrupted: "calls (xs @ [x]) \<Longrightarrow> calls (xs @ [x\<lparr>call_end := intr (call_end x)\<rparr>])"

inductive_cases begins_first: "begins None x"
inductive_cases begins_later: "begins (Some s) x"

subsection \<open>What every call finds\<close>

lemma download_mem: "download w s0 s ds \<Longrightarrow> call_mem s0 \<Longrightarrow> call_mem s"
  by (induction rule: download.induct) (simp_all add: call_mem_crecvfile call_mem_crecv_step del: crecv_step.simps)

lemma upload_mem: "upload w s0 s ds d \<Longrightarrow> call_mem s0 \<Longrightarrow> call_mem s"
  by (induction rule: upload.induct) (simp_all add: call_mem_csendfile call_mem_csend_step del: csend_step.simps)

lemma carried_out_mem: "carried_out x \<Longrightarrow> call_mem (call_begin x) \<Longrightarrow> call_mem (call_end x)"
  by (auto simp: carried_out_def Let_def call_mem_runs split: transfer.splits if_splits dest: download_mem upload_mem)

text \<open>A call on a new socket starts like one that is the first.\<close>

definition well_begun :: "call \<Rightarrow> bool" where
  "well_begun x \<longleftrightarrow> call_mem (call_begin x) \<and> (call_fresh x \<longrightarrow>
     (\<exists>sb ab. call_begin x = client_start (peer_of (call_tf x)) sb ab (opened x) \<and> bufs_ok sb \<and> length ab = PKTSIZE))"

lemma begins_well:
  assumes "begins p x" "p = None \<or> call_mem (the p)"
  shows "well_begun x"
  using assms
proof cases
  case first
  then show ?thesis by (auto simp: well_begun_def call_mem_def client_start_def bufs_ok_start)
next
  case (later s created bound)
  with assms(2) have m: "call_mem s" by simp
  have "call_mem (call_begin x)" using call_mem_next [OF m] later by blast
  moreover have "call_begin x = client_start (peer_of (call_tf x)) (snd (cfs s)) (cackbuf s) (opened x)" if "call_fresh x"
    using later that by (auto simp: next_call_def initsock_def client_start_def split: if_splits)
  ultimately show ?thesis using m by (auto simp: well_begun_def call_mem_def)
next
  case (reopened s)
  with assms(2) show ?thesis by (auto simp: well_begun_def call_mem_def client_start_def)
qed

lemma calls_good:
  assumes "calls xs" "x \<in> set xs"
  shows "well_begun x \<and> call_mem (call_end x) \<and> (carried_out x \<or> cphase (call_end x) = CTimedOut)"
  using assms
proof (induction arbitrary: x)
  case (one_more xs y)
  from one_more.IH [of "last xs"] have "xs = [] \<or> call_mem (call_end (last xs))" by (cases "xs = []") auto
  with begins_well [OF one_more.hyps(2)] have "well_begun y" by auto
  with carried_out_mem [OF one_more.hyps(3)] have "call_mem (call_end y)" by (simp add: well_begun_def)
  with \<open>well_begun y\<close> one_more show ?case by auto
next
  case (interrupted xs y)
  have same: "y\<lparr>call_end := call_end y\<rparr> = y" by simp
  from interrupted.IH [of y] have "call_mem (intr (call_end y))" "well_begun (y\<lparr>call_end := intr (call_end y)\<rparr>)"
    by (simp_all add: intr_def call_mem_def well_begun_def)
  moreover have "carried_out (y\<lparr>call_end := intr (call_end y)\<rparr>) \<or> cphase (intr (call_end y)) = CTimedOut"
    using interrupted.IH [of y] by (cases "cphase (call_end y) = CWaiting") (simp_all add: intr_def same)
  ultimately show ?case using interrupted by auto
qed simp

lemma calls_fresh:
  assumes "calls xs" "xs = ys @ x # zs" "ys = [] \<or> cphase (call_end (last ys)) \<noteq> CTimedOut"
  shows "call_fresh x"
  using assms
proof (induction arbitrary: ys x zs)
  case (one_more us y)
  show ?case
  proof (cases zs rule: rev_cases)
    case Nil
    with one_more.prems have "us = ys" "y = x" by simp_all
    with one_more.hyps(2) one_more.prems(2) show ?thesis
      by (cases "ys = []") (auto elim!: begins_first begins_later)
  next
    case (snoc zs' z)
    with one_more.prems have "us = ys @ x # zs'" by simp
    from one_more.IH [OF this one_more.prems(2)] show ?thesis .
  qed
next
  case (interrupted us y)
  show ?case
  proof (cases zs rule: rev_cases)
    case Nil
    with interrupted.prems have "us = ys" "x = y\<lparr>call_end := intr (call_end y)\<rparr>" by simp_all
    with interrupted.IH [of ys y "[]"] interrupted.prems(2) show ?thesis by simp
  next
    case (snoc zs' z)
    with interrupted.prems have "us = ys @ x # zs'" by simp
    with interrupted.IH [of ys x "zs' @ [y]"] interrupted.prems(2) show ?thesis by simp
  qed
qed simp

section \<open>Properties\<close>

text \<open>
  C3: whatever the user types: a transfer of the session that the client considers finished has left the file where it belongs, the
  daemon's in the local file for a get, the local one on the daemon's disk for a put, if the daemon's access rules grant the
  name and, for a put, its request has started no second process.  The transfer must have a socket of its own: it is the first,
  or the one before came to its end by itself (neither timed out nor interrupted), or its command opened a new one.
\<close>

theorem session_transfers_deliver:
  assumes "calls (ys @ x # zs)" "prefix (map call_tf (ys @ x # zs)) (fst (session w n (shell_start inp)))"
    and "ys = [] \<or> cphase (call_end (last ys)) \<noteq> CTimedOut \<or> call_fresh x"
    and "cphase (call_end x) = CFinished" "nul_free (n_daemon (call_net x))"
    and "nblocks (encoded (n_mode (asking (call_net x) (call_tf x)) = cbytes ''netascii'') file) < 65536"
  shows "case call_tf x of
      Get remote local m a \<Rightarrow> granted (call_net x) (call_tf x) (open_read file) \<longrightarrow> fetched (call_end x) = file
    | Put local remote m a \<Rightarrow> granted (call_net x) (call_tf x) (open_trunc None) \<longrightarrow> call_local x = file \<longrightarrow>
        length (call_procs x) \<le> 1 \<longrightarrow> call_disk x = file"
proof -
  have fresh: "call_fresh x" using assms(1,3) calls_fresh [OF assms(1) refl] by blast
  have "call_tf x \<in> set (fst (session w n (shell_start inp)))"
    using set_mono_prefix [OF assms(2)] by simp
  note ag = transfer_agreed [OF session_transfer_ok [OF this] assms(5)]
  from calls_good [OF assms(1), of x] fresh assms(4) obtain sb ab
    where b: "call_begin x = client_start (peer_of (call_tf x)) sb ab (opened x)" "bufs_ok sb" "length ab = PKTSIZE"
      and c: "carried_out x" by (auto simp: well_begun_def)
  have n: "nblocks (encoded (convert (the_cfg (asking (call_net x) (call_tf x)))) file) < 65536" using assms(6) by simp
  show ?thesis
  proof (cases "call_tf x")
    case (Get remote local m a)
    have num: "numbered (encoded (convert (the_cfg (asking (call_net x) (call_tf x)))) file)" using n by (simp add: numbered_def)
    have "download (asking (call_net x) (call_tf x)) (client_start (peer_of (call_tf x)) sb ab (open_trunc None)) (call_end x) (call_procs x)"
      using c fresh b(1) by (simp add: carried_out_def Get opened_def)
    from download_good_delivers [OF download_invariant [OF this _ refl b(2,3) num] assms(4)] ag [of "open_read file"]
    show ?thesis by (simp add: Get)
  next
    case (Put local remote m a)
    have "upload (asking (call_net x) (call_tf x)) (client_start (peer_of (call_tf x)) sb ab (open_read (call_local x)))
        (call_end x) (call_procs x) (call_disk x)"
      using c fresh b(1) by (simp add: carried_out_def Put opened_def)
    from upload_good_delivers [OF upload_invariant [OF this _ refl b(2,3)] _ assms(4)] ag [of "open_trunc None"] n
    show ?thesis by (auto simp: Put)
  qed
qed

text \<open>Two gets in a row.\<close>

definition two_gets :: "byte list" where
  "two_gets = cbytes ''con h'' @ 10 # cbytes ''get a/b'' @ 10 # cbytes ''get a/b'' @ [10]"

definition demo_get :: transfer where
  "demo_get = Get (cbytes ''a/b'') (cbytes ''b'') (cbytes ''netascii'') demo_addr"

lemma demo_two_gets: "fst (session demo_world 3 (shell_start two_gets)) = [demo_get, demo_get]"
  by code_simp

text \<open>A get of the demonstration file that finishes.\<close>

lemma demo_call:
  assumes "bufs_ok sb" "length ab = PKTSIZE"
  obtains x where "call_tf x = demo_get" "call_net x = demo_net [] (demo_os (open_read [65]))" "call_fresh x"
    "call_begin x = client_start demo_addr sb ab (open_trunc None)" "opened x = open_trunc None" "carried_out x"
    "cphase (call_end x) = CFinished"
proof -
  let ?net = "demo_net [] (demo_os (open_read [65]))" and ?s = "client_start demo_addr sb ab (open_trunc None)"
  have "demo_get \<in> set (fst (session demo_world 3 (shell_start two_gets)))" by (simp add: demo_two_gets)
  moreover have "nul_free (n_daemon ?net)" "granted ?net demo_get (open_read [65])"
    using demo_agreed_read [of "open_read [65]"] by (auto simp: agreed_def granted_def demo_net_def demo_get_def)
  ultimately have "agreed (asking ?net demo_get) RRQ (open_read [65])"
    using transfer_agreed [OF session_transfer_ok] by (fastforce simp: demo_get_def)
  from download_finishes [OF this refl assms, of demo_addr] obtain s ds
    where "download (asking ?net demo_get) ?s s ds" "cphase s = CFinished" by blast
  then show ?thesis
    by (intro that [of "\<lparr>call_net = ?net, call_tf = demo_get, call_local = [], call_fresh = True, call_begin = ?s, call_end = s,
          call_procs = ds, call_disk = []\<rparr>"]) (simp_all add: carried_out_def opened_def demo_get_def)
qed

theorem session_transfers_deliver_witness:
  "\<exists>x y. calls [x, y] \<and> map call_tf [x, y] = fst (session demo_world 3 (shell_start two_gets)) \<and>
    cphase (call_end x) = CFinished \<and> cphase (call_end y) = CFinished \<and> fetched (call_end y) = [65]"
proof -
  obtain x where x: "call_tf x = demo_get" "call_fresh x" "opened x = open_trunc None" "carried_out x" "cphase (call_end x) = CFinished"
    "call_begin x = client_start demo_addr subs_start (replicate PKTSIZE 0) (open_trunc None)"
    by (rule demo_call [OF bufs_ok_start, of "replicate PKTSIZE 0"]) simp_all
  have p: "peer_of demo_get = demo_addr" by (simp add: demo_get_def)
  have c1: "calls [x]" using one_more [OF none, of x] first [of x] x p by simp
  then have m: "call_mem (call_end x)" using calls_good by simp
  obtain y where y: "call_tf y = demo_get" "call_net y = demo_net [] (demo_os (open_read [65]))" "call_fresh y" "opened y = open_trunc None"
    "carried_out y" "cphase (call_end y) = CFinished"
    "call_begin y = client_start demo_addr (snd (cfs (call_end x))) (cackbuf (call_end x)) (open_trunc None)"
    using m by (auto simp: call_mem_def intro: demo_call [of "snd (cfs (call_end x))" "cackbuf (call_end x)"])
  have "begins (Some (call_end x)) y"
    using later [of "call_end x" True True y] next_call_fresh [of "call_end x"] x(5) y p by simp
  then have c2: "calls ([x] @ y # [])" using one_more [OF c1, of y] y(5) by simp
  have g: "granted (call_net y) (call_tf y) (open_read [65])"
    using demo_agreed_read [of "open_read [65]"] y(1,2) by (auto simp: agreed_def granted_def demo_net_def demo_get_def)
  have "nblocks (encoded (n_mode (asking (call_net y) (call_tf y)) = cbytes ''netascii'') [65]) < 65536"
    by (simp add: encoded_def nblocks_def size_defs)
  from session_transfers_deliver [OF c2 _ _ y(6) _ this, of demo_world 3 two_gets] x y g
  have "fetched (call_end y) = [65]" by (simp add: demo_two_gets demo_get_def y(2) demo_net_def)
  with c2 x y show ?thesis by (intro exI [of _ x] exI [of _ y]) (simp add: demo_two_gets)
qed

end
