(* ===== verification/Tftpd_Daemon.thy ===== *)
theory Tftpd_Daemon
  imports Tftpd_Main
begin

text \<open>
  The daemon's \<^verbatim>\<open>main\<close> from its start to the dispatch of the request, with every exit: what the
  system calls answer is the record \<open>startup\<close>.  The parts (options, fork loop, privileges, reply address,
  dispatch) are those of \<open>Tftpd_Main\<close>.
\<close>

record startup =
  getopts :: string
  operands :: "path list"
  ioctl_ok :: bool
  received :: "datagram option"
  forks :: "(int \<times> datagram option) list"
  ids :: creds
  nobody :: "passwd option"
  ids_granted :: "bool \<times> bool \<times> bool"
  sockname :: "sockaddr option"
  socket_ok :: bool
  bind_ok :: "sockaddr \<Rightarrow> bool"

text \<open>
  How \<^verbatim>\<open>main\<close> goes on: it exits, it is still trying to fork, or it serves the request with the user ids and
  the reply address it has then (\<open>None\<close>: whatever the kernel takes).
\<close>

datatype boot = Exit int | Forking | Serving creds "sockaddr option" served

definition open_peer :: "startup \<Rightarrow> int + sockaddr option" where
  "open_peer st =
     (if \<not> socket_ok st then Inl 1
      else case bind_address (sockname st) of
             None \<Rightarrow> Inr None
           | Some a \<Rightarrow> if bind_ok st a then Inr (Some a) else Inl 1)"

definition daemon_main :: "startup \<Rightarrow> cfg \<Rightarrow> os \<Rightarrow> bool \<Rightarrow> boot" where
  "daemon_main st c sys ok =
     (case daemon_args (getopts st) (operands st) of
        Inl e \<Rightarrow> Exit e
      | Inr d \<Rightarrow>
          if \<not> ioctl_ok st then Exit 1
          else (case received st of
                  None \<Rightarrow> Exit 1
                | Some p \<Rightarrow>
                    (case fork_loop 1 (-1) (forks st) (recv_into (replicate PKTSIZE 0) p, recv_len p) of
                       None \<Rightarrow> Forking
                     | Some (pid, b, n) \<Rightarrow>
                         if pid < 0 then Exit 1
                         else if pid \<noteq> 0 then Exit 0
                         else (case drop_root (ids_granted st) (nobody st) (ids st) of
                                 Inl e \<Rightarrow> Exit e
                               | Inr cr \<Rightarrow>
                                   (case open_peer st of
                                      Inl e \<Rightarrow> Exit e
                                    | Inr a \<Rightarrow> Serving cr a (serve c d sys ok b (nat n)))))))"

section \<open>The request in the buffer\<close>

text \<open>The buffer begins with one of the datagrams, the length is its length.\<close>

definition holds_one :: "datagram set \<Rightarrow> byte list \<times> int \<Rightarrow> bool" where
  "holds_one ds st \<longleftrightarrow> length (fst st) = PKTSIZE \<and> (\<exists>p\<in>ds. prefix (take PKTSIZE p) (fst st) \<and> snd st = recv_len p)"

lemma holds_received:
  "length b = PKTSIZE \<Longrightarrow> p \<in> ds \<Longrightarrow> holds_one ds (recv_into b p, recv_len p)"
  by (auto simp: holds_one_def recv_into_def overlay_def intro!: bexI [of _ p])

lemma fork_loop_holds:
  assumes "holds_one ds (b, n)" "\<forall>d. Some d \<in> snd ` set turns \<longrightarrow> d \<in> ds" "fork_loop i pid turns (b, n) = Some (pid', b', n')"
  shows "holds_one ds (b', n')"
  using assms
proof (induction turns arbitrary: i pid b n)
  case (Cons t turns)
  obtain p r where t: "t = (p, r)" by (cases t)
  have keep: "holds_one ds (recv_into b d, if recv_len d > 0 then recv_len d else n)" if "r = Some d" for d
  proof (cases "d = []")
    case True
    with Cons.prems(1) show ?thesis by (simp add: recv_into_def recv_len_def)
  next
    case False
    have "d \<in> ds" using Cons.prems(2) that t by auto
    from holds_received [OF _ this] False Cons.prems(1) show ?thesis
      by (simp add: holds_one_def recv_len_def size_defs)
  qed
  have sub: "\<forall>d. Some d \<in> snd ` set turns \<longrightarrow> d \<in> ds" using Cons.prems(2) by auto
  show ?case
  proof (cases r)
    case None
    then show ?thesis using Cons.IH [OF Cons.prems(1) sub] Cons.prems(1,3) t by (auto simp: Let_def split: if_splits)
  next
    case (Some d)
    then show ?thesis using Cons.IH [OF keep [OF Some] sub] Cons.prems(1,3) t by (auto simp: Let_def split: if_splits)
  qed
qed (auto split: if_splits)

lemma drop_root_Inr:
  "drop_root g u c = Inr c' \<Longrightarrow> \<not> is_root c' \<and> (is_root c \<longrightarrow> sys_seteuid 0 c' = c' \<and> sys_setuid h 0 c' = c')"
  by (auto simp: creds_defs Let_def split: if_splits prod.splits)

text \<open>A process id that is not negative is what \<^verbatim>\<open>fork\<close> returned in the first turn it did not fail.\<close>

lemma fork_loop_returns:
  assumes "fork_loop i pid turns st = Some (p, b, n)" "0 \<le> p" "pid < 0"
  shows "\<exists>xs r ys. turns = xs @ (p, r) # ys \<and> (\<forall>t\<in>set xs. fst t < 0)"
  using assms
proof (induction turns arbitrary: i pid st)
  case Nil
  then show ?case by (cases st) (auto split: if_splits)
next
  case (Cons t turns)
  obtain q r where t: "t = (q, r)" by (cases t)
  show ?case
  proof (cases "i < 20 \<and> q < 0")
    case True
    with Cons.prems t obtain i' st' where "fork_loop i' q turns st' = Some (p, b, n)" by (cases st) (auto simp: Let_def)
    from Cons.IH [OF this Cons.prems(2)] True t obtain xs r' ys
      where "turns = xs @ (p, r') # ys" "\<forall>t\<in>set xs. fst t < 0" by auto
    with True t show ?thesis by (intro exI [of _ "t # xs"] exI [of _ r'] exI [of _ ys]) simp
  next
    case False
    with Cons.prems t have "q = p" by (cases st) (auto split: if_splits)
    with t show ?thesis by (intro exI [of _ "[]"] exI [of _ r] exI [of _ turns]) simp
  qed
qed

section \<open>Properties\<close>

text \<open>
  C28: a daemon that comes as far as serving is a child (the first \<^verbatim>\<open>fork\<close> that did not fail returned 0 to it) without root.
  One that root started cannot become root again, and has the groups of nobody if \<^verbatim>\<open>initgroups\<close> and \<^verbatim>\<open>setgid\<close> were granted.
  It answers from a port of its own, on the address of its socket if that is an internet address and not the wildcard; and what it
  serves, by the rules of its command line, is one of the datagrams it received: the one \<^verbatim>\<open>inetd\<close> started it for or one that came
  while \<^verbatim>\<open>fork\<close> failed.
\<close>

theorem daemon_main_serves:
  assumes "daemon_main st c sys ok = Serving cr a r"
  shows "(\<exists>xs q ys. forks st = xs @ (0, q) # ys \<and> (\<forall>t\<in>set xs. fst t < 0)) \<and>
    \<not> is_root cr \<and> (is_root (ids st) \<longrightarrow> sys_seteuid 0 cr = cr \<and> sys_setuid g 0 cr = cr) \<and>
    (is_root (ids st) \<and> ids_granted st = (True, True, True) \<longrightarrow>
      (\<exists>p. nobody st = Some p \<and> ruid cr = pw_uid p \<and> egid cr = pw_gid p \<and> groups cr = pw_gid p # pw_groups p)) \<and>
    (case a of
       None \<Rightarrow> sockname st = None \<or> wildcard (the (sockname st))
     | Some sn \<Rightarrow> (\<exists>s. sockname st = Some s \<and> address sn = address s) \<and> \<not> wildcard sn \<and> (inet_family sn \<longrightarrow> port sn = 0)) \<and>
    (\<exists>d p b. daemon_args (getopts st) (operands st) = Inr d \<and> Some p \<in> insert (received st) (snd ` set (forks st)) \<and>
      prefix (take PKTSIZE p) b \<and> length b = PKTSIZE \<and> r = serve c d sys ok b (min PKTSIZE (length p)))"
proof -
  from assms obtain d p b n where d: "daemon_args (getopts st) (operands st) = Inr d" and p: "received st = Some p"
    and f: "fork_loop 1 (-1) (forks st) (recv_into (replicate PKTSIZE 0) p, recv_len p) = Some (0, b, n)"
    and cr: "drop_root (ids_granted st) (nobody st) (ids st) = Inr cr" and a: "open_peer st = Inr a"
    and r: "r = serve c d sys ok b (nat n)"
    by (auto simp: daemon_main_def split: sum.splits option.splits if_splits)
  let ?ds = "{q. Some q \<in> insert (received st) (snd ` set (forks st))}"
  have "holds_one ?ds (b, n)"
    by (rule fork_loop_holds [OF holds_received _ f]) (use p in auto)
  then obtain q where q: "q \<in> ?ds" "prefix (take PKTSIZE q) b" "n = recv_len q" "length b = PKTSIZE"
    unfolding holds_one_def by fastforce
  then have "nat n = min PKTSIZE (length q)" by (simp add: recv_len_def min.commute)
  with d q r have served: "\<exists>d p b. daemon_args (getopts st) (operands st) = Inr d \<and>
      Some p \<in> insert (received st) (snd ` set (forks st)) \<and> prefix (take PKTSIZE p) b \<and> length b = PKTSIZE \<and>
      r = serve c d sys ok b (min PKTSIZE (length p))"
    by (intro exI [of _ d] exI [of _ q] exI [of _ b]) simp
  have addr: "case a of
       None \<Rightarrow> sockname st = None \<or> wildcard (the (sockname st))
     | Some sn \<Rightarrow> (\<exists>s. sockname st = Some s \<and> address sn = address s) \<and> \<not> wildcard sn \<and> (inet_family sn \<longrightarrow> port sn = 0)"
    using a by (auto simp: open_peer_def bind_address_def wildcard_def inet_family_def split: option.splits if_splits)
  have groups: "\<exists>p. nobody st = Some p \<and> ruid cr = pw_uid p \<and> egid cr = pw_gid p \<and> groups cr = pw_gid p # pw_groups p"
    if "is_root (ids st) \<and> ids_granted st = (True, True, True)"
    using daemon_drops_groups [of True "nobody st" "ids st" cr] cr that by auto
  show ?thesis using fork_loop_returns [OF f] drop_root_Inr [OF cr, of g] groups addr served by (intro conjI) simp_all
qed

definition demo_startup :: startup where
  "demo_startup =
     \<lparr>getopts = ''s'', operands = [cbytes ''/srv''], ioctl_ok = True,
      received = Some (request_pkt RRQ (cbytes ''a'') (cbytes ''octet'')), forks = [(0, None)],
      ids = \<lparr>ruid = 0, euid = 0, suid = 0, rgid = 0, egid = 0, sgid = 0, groups = [0]\<rparr>,
      nobody = Some \<lparr>pw_uid = 65534, pw_gid = 65533, pw_groups = []\<rparr>, ids_granted = (True, True, True),
      sockname = None, socket_ok = True, bind_ok = (\<lambda>_. True)\<rparr>"

definition nobody_ids :: creds where
  "nobody_ids = \<lparr>ruid = 65534, euid = 65534, suid = 65534, rgid = 65533, egid = 65533, sgid = 65533, groups = [65533]\<rparr>"

theorem daemon_main_serves_witness:
  "\<exists>b. prefix (request_pkt RRQ (cbytes ''a'') (cbytes ''octet'')) b \<and>
    daemon_main demo_startup demo_cfg (demo_os (open_read [65])) True =
      Serving nobody_ids None
        (serve demo_cfg \<lparr>dirs = [cbytes ''/srv''], secure_tftp = True, suppress_naks = False\<rparr> (demo_os (open_read [65])) True b 10)"
proof -
  let ?p = "request_pkt RRQ (cbytes ''a'') (cbytes ''octet'')"
  have l: "length ?p = 10" by (simp add: wire_simps cbytes_def)
  have d: "daemon_args ''s'' [cbytes ''/srv''] = Inr \<lparr>dirs = [cbytes ''/srv''], secure_tftp = True, suppress_naks = False\<rparr>"
    by (simp add: daemon_args_def)
  obtain r where m: "daemon_main demo_startup demo_cfg (demo_os (open_read [65])) True = Serving nobody_ids None r"
    by (auto simp: daemon_main_def demo_startup_def nobody_ids_def d creds_defs open_peer_def bind_address_def)
  from daemon_main_serves [OF m] obtain b where "prefix (take PKTSIZE ?p) b"
    "r = serve demo_cfg \<lparr>dirs = [cbytes ''/srv''], secure_tftp = True, suppress_naks = False\<rparr> (demo_os (open_read [65])) True b (min PKTSIZE 10)"
    by (auto simp: demo_startup_def d l)
  then show ?thesis using m l by (auto simp: size_defs)
qed

end
