(* ===== verification/Tftpd_Live.thy ===== *)
theory Tftpd_Live
  imports Tftpd_Recv
begin

text \<open>
  The transfers of the daemon on a network that loses and disturbs: between the packets \<^verbatim>\<open>sendfile\<close> and \<^verbatim>\<open>recvfile\<close>
  wait for the alarm may go off and other datagrams may be received, and the transfer still ends with the whole file
  sent or stored.  Both are interpretations of the locale \<open>lossy_transfer\<close>.
\<close>

section \<open>Troubles\<close>

datatype trouble = Loss | Stray datagram

fun events_of :: "trouble \<Rightarrow> event list" where
  "events_of Loss = [Alarm True]"
| "events_of (Stray p) = [Arrive p, Recv True]"

text \<open>
  A datagram that disturbs nobody who waits for packet \<open>Suc k\<close> of the kind \<open>opc\<close>: neither that packet nor an error packet.
\<close>

fun harmless :: "u16 \<Rightarrow> nat \<Rightarrow> trouble \<Rightarrow> bool" where
  "harmless opc k Loss = False"
| "harmless opc k (Stray p) \<longleftrightarrow>
     TFTP_HEADER \<le> length p \<and> net_short p 0 \<noteq> ERROR \<and> \<not> (net_short p 0 = opc \<and> net_short p 2 = of_nat (Suc k))"

definition tolerable :: "u16 \<Rightarrow> nat \<Rightarrow> trouble list \<Rightarrow> bool" where
  "tolerable opc k ts \<longleftrightarrow> length (filter (\<lambda>t. t = Loss) ts) \<le> 4 \<and> (\<forall>t\<in>set ts. t = Loss \<or> harmless opc k t)"

definition awaited :: "(nat \<Rightarrow> datagram) \<Rightarrow> nat \<Rightarrow> event list" where
  "awaited pkt k = [Arrive (pkt k), Recv True]"

section \<open>sendfile\<close>

definition in_block :: "cfg \<Rightarrow> byte list \<Rightarrow> nat \<Rightarrow> nat \<Rightarrow> srv \<Rightarrow> bool" where
  "in_block c d k n s \<longleftrightarrow>
     send_inv c d k s \<and> sent_upto d k (out s) \<and> phase s = Waiting \<and> inq s = [] \<and> timeout s = int n"

lemma header_stray:
  assumes "TFTP_HEADER \<le> length p" "length b = PKTSIZE"
  shows "th_opcode e (ntoh_header e (recv_into b p)) = net_short p 0" "th_block e (ntoh_header e (recv_into b p)) = net_short p 2"
proof -
  have "net_short (take PKTSIZE p) i = net_short p i" if "i \<le> 2" for i
    using that by (intro net_short_prefix) (simp_all add: size_defs)
  with assms show "th_opcode e (ntoh_header e (recv_into b p)) = net_short p 0"
    "th_block e (ntoh_header e (recv_into b p)) = net_short p 2"
    by (simp_all add: recv_into_def wire_simps net_short_overlay size_defs)
qed

lemma resend_in_block:
  assumes "in_block c d k n s"
  shows "in_block c d k n (send_data c True s)"
  using assms send_data_inv [of c d k s True] sent_again [of d k "out s"] by (simp add: in_block_def)

lemma in_block_frame:
  assumes "in_block c d k n s" "length a = PKTSIZE"
  shows "in_block c d k m (s\<lparr>ackbuf := a, timeout := int m\<rparr>)" "in_block c d k n (s\<lparr>ackbuf := a\<rparr>)"
proof -
  have s: "send_inv c d k s" using assms(1) by (simp add: in_block_def)
  then have "length (ackbuf s) = PKTSIZE" by (simp add: send_inv_def)
  with assms(2) have "send_inv c d k (s\<lparr>ackbuf := a, timeout := int m\<rparr>)" "send_inv c d k (s\<lparr>ackbuf := a\<rparr>)"
    by (auto intro!: send_inv_frame [OF s])
  with assms(1) show "in_block c d k m (s\<lparr>ackbuf := a, timeout := int m\<rparr>)" "in_block c d k n (s\<lparr>ackbuf := a\<rparr>)"
    by (simp_all add: in_block_def)
qed

lemma loss_in_block:
  assumes "in_block c d k n s" "n < 4"
  shows "in_block c d k (Suc n) (send_run c (events_of Loss) s)"
proof -
  have s: "length (ackbuf s) = PKTSIZE" "phase s = Waiting" "timeout s = int n"
    using assms(1) by (simp_all add: in_block_def send_inv_def)
  have "s\<lparr>ackbuf := ackbuf s, timeout := int (Suc n)\<rparr> = s\<lparr>timeout := int (Suc n)\<rparr>" by simp
  with resend_in_block [OF in_block_frame(1) [OF assms(1) s(1)], of "Suc n"] s assms(2) show ?thesis
    by (simp add: send_run_def timer_def Let_def rexmtval_def maxtimeout_def TIMEOUT_def add.commute)
qed

lemma stray_in_block:
  assumes "in_block c d k n s" "harmless ACK k (Stray p)"
  shows "in_block c d k n (send_run c (events_of (Stray p)) s)"
proof -
  have p: "TFTP_HEADER \<le> length p" "net_short p 0 \<noteq> ERROR" "\<not> (net_short p 0 = ACK \<and> net_short p 2 = of_nat (Suc k))"
    using assms(2) by simp_all
  have s: "length (ackbuf s) = PKTSIZE" "phase s = Waiting" "inq s = []" "block s = of_nat (Suc k)"
    using assms(1) by (simp_all add: in_block_def send_inv_def)
  define a where "a = ntoh_header (host c) (recv_into (ackbuf s) p)"
  have a: "length a = PKTSIZE" "th_opcode (host c) a = net_short p 0" "th_block (host c) a = net_short p 2"
    using s(1) header_stray [OF p(1) s(1)] by (simp_all add: a_def recv_into_def)
  note stay = in_block_frame(2) [OF assms(1) a(1)]
  have q: "s\<lparr>inq := [], ackbuf := x\<rparr> = s\<lparr>ackbuf := x\<rparr>" "s\<lparr>inq := []\<rparr> = s" "s\<lparr>ackbuf := x, inq := []\<rparr> = s\<lparr>ackbuf := x\<rparr>" for x
    using s(3) by simp_all
  have "send_run c (events_of (Stray p)) s = handle_ack c True p (s\<lparr>inq := []\<rparr>)"
    using s(2,3) by (simp add: send_run_def)
  also have "\<dots> = handle_ack c True p s" by (simp only: q(2))
  also have "\<dots> = s\<lparr>ackbuf := a\<rparr> \<or> \<dots> = s\<lparr>ackbuf := a, inq := []\<rparr> \<or> \<dots> = send_data c True (s\<lparr>ackbuf := a, inq := []\<rparr>)"
    using s(3,4) p(2,3) a(2,3) by (simp add: handle_ack_def a_def [symmetric] Let_def del: of_nat_Suc)
  finally show ?thesis using stay resend_in_block [OF stay] unfolding q by auto
qed

lemma block_ends:
  assumes "in_block c d k m s"
  defines "t \<equiv> send_run c [Arrive (ack_pkt (of_nat (Suc k))), Recv True] s"
  shows "if Suc k = nblocks d then phase t = Finished \<and> remdups_adj (out t) = file_blocks d else in_block c d (Suc k) 0 t"
proof -
  have s: "send_inv c d k s" "phase s = Waiting" "inq s = []" "sent_upto d k (out s)" using assms(1) by (simp_all add: in_block_def)
  note p = ack_progress [OF s(1-3), folded t_def]
  have less: "Suc k \<noteq> nblocks d \<Longrightarrow> Suc k < nblocks d" using send_inv_bound [OF s(1)] by simp
  have "timeout t = 0" if "Suc k \<noteq> nblocks d"
  proof -
    have full: "sz s = int SEGSIZE"
      using that s(1) chunk_last [of k d] by (auto simp: send_inv_def)
    have b: "block s = of_nat (Suc k)" "length (ackbuf s) = PKTSIZE" using s(1) by (simp_all add: send_inv_def)
    note ar = ack_received [OF b(2), of "host c" "of_nat (Suc k)"]
    obtain u where u: "t = next_data c True u" "source_inv (convert c) (fs u)"
      using s(1-3) b ar full by (simp add: t_def send_run_def handle_ack_def Let_def send_inv_def del: of_nat_Suc)
    obtain n i f b where r: "readit (convert c) (fs u) = (n, i, f, b)" by (metis prod_cases4)
    then have "0 \<le> n" using dbuf_in.take_count [OF u(2)] by (simp add: take_block_def)
    with r show ?thesis unfolding u(1) by (simp add: next_data_def Let_def send_data_def transmit_def set_dp_buf_def)
  qed
  with p s(4) sent_next [OF s(4) less] less show ?thesis
    by (auto simp: in_block_def sent_upto_def split: if_splits)
qed

lemma block_ends_cases:
  assumes "in_block c d k m s"
  shows "Suc k \<noteq> nblocks d \<Longrightarrow> in_block c d (Suc k) 0 (send_run c (awaited (\<lambda>k. ack_pkt (of_nat (Suc k))) k) s)"
    "Suc k = nblocks d \<Longrightarrow> phase (send_run c (awaited (\<lambda>k. ack_pkt (of_nat (Suc k))) k) s) = Finished \<and>
      remdups_adj (out (send_run c (awaited (\<lambda>k. ack_pkt (of_nat (Suc k))) k) s)) = file_blocks d"
  using block_ends [OF assms] by (simp_all add: awaited_def del: of_nat_Suc)

interpretation lossy_send: lossy_transfer "in_block c d" "send_run c" events_of "\<lambda>t. t = Loss" "harmless ACK"
  "awaited (\<lambda>k. ack_pkt (of_nat (Suc k)))" "\<lambda>s. phase s = Finished \<and> remdups_adj (out s) = file_blocks d" "nblocks d" 5 for c d
proof (unfold_locales, goal_cases)
  case (3 k n s t)
  then show ?case using loss_in_block [of c d k n s] by simp
next
  case (4 k n s t)
  then show ?case using stray_in_block [of c d k n s] by (cases t) simp_all
next
  case (5 k n s)
  then show ?case by (intro block_ends_cases(1))
next
  case (6 k n s)
  then show ?case by (intro block_ends_cases(2))
qed (simp_all add: send_run_def)

section \<open>recvfile\<close>

definition in_upload :: "cfg \<Rightarrow> byte list \<Rightarrow> nat \<Rightarrow> nat \<Rightarrow> srv \<Rightarrow> bool" where
  "in_upload c d k n s \<longleftrightarrow>
     recv_inv c d k s \<and> acked_upto k (out s) \<and> phase s = Waiting \<and> inq s = [] \<and> timeout s = int n"

lemma reack_in_upload:
  assumes "in_upload c d k n s"
  shows "in_upload c d k n (send_ack c True s)"
  using assms send_ack_inv [of c d k s True] acked_again [of k "out s"]
  by (auto simp: in_upload_def send_ack_def transmit_def)

lemma in_upload_frame:
  assumes "in_upload c d k n s"
  shows "in_upload c d k m (s\<lparr>timeout := int m\<rparr>)" "length b = PKTSIZE \<Longrightarrow> in_upload c d k n (set_dp_buf b s)"
  using assms recv_inv_frame [of c d k s "s\<lparr>timeout := int m\<rparr>"] recv_inv_set_dp [of c d k s b]
  by (auto simp: in_upload_def set_dp_buf_def)

lemma loss_in_upload:
  assumes "in_upload c d k n s" "n < 4"
  shows "in_upload c d k (Suc n) (recv_run c (events_of Loss) s)"
  using assms(2) assms(1) [unfolded in_upload_def] reack_in_upload [OF in_upload_frame(1) [OF assms(1)], of "Suc n"]
  by (simp add: recv_run_def timer_def Let_def rexmtval_def maxtimeout_def TIMEOUT_def add.commute)

lemma stray_in_upload:
  assumes "in_upload c d k n s" "harmless DATA k (Stray p)"
  shows "in_upload c d k n (recv_run c (events_of (Stray p)) s)"
proof -
  have p: "TFTP_HEADER \<le> length p" "net_short p 0 \<noteq> ERROR" "\<not> (net_short p 0 = DATA \<and> net_short p 2 = of_nat (Suc k))"
    using assms(2) by simp_all
  have s: "length (dp_buf s) = PKTSIZE" "phase s = Waiting" "inq s = []" "block s = of_nat (Suc k)"
    using assms(1) recv_inv_dp_len [of c d k s] by (simp add: in_upload_def)
      (use assms(1) in \<open>simp_all add: in_upload_def recv_inv_def\<close>)
  define b where "b = ntoh_header (host c) (recv_into (dp_buf s) p)"
  let ?t = "set_dp_buf b s"
  have b: "length b = PKTSIZE" "th_opcode (host c) b = net_short p 0" "th_block (host c) b = net_short p 2"
    using s(1) header_stray [OF p(1) s(1)] by (simp_all add: b_def)
  note stay = in_upload_frame(2) [OF assms(1) b(1)]
  have q: "s\<lparr>inq := []\<rparr> = s" "?t\<lparr>inq := []\<rparr> = ?t" "inq ?t = []" "block ?t = block s"
    using s(3) by (simp_all add: set_dp_buf_def)
  have "recv_run c (events_of (Stray p)) s = handle_data c True p (s\<lparr>inq := []\<rparr>)"
    using s(2,3) by (simp add: recv_run_def)
  also have "\<dots> = handle_data c True p s" by (simp only: q(1))
  also have "\<dots> = ?t \<or> \<dots> = send_ack c True ?t"
    using q(3,4) s(4) p(2,3) b(2,3) by (simp add: handle_data_def b_def [symmetric] Let_def del: of_nat_Suc) (simp add: q(2))
  finally show ?thesis using stay reack_in_upload [OF stay] by auto
qed

lemma accept_resets: "phase (accept_block c True n s) = Waiting \<Longrightarrow> timeout (accept_block c True n s) = 0"
  by (auto simp: accept_block_def next_ack_def send_ack_def finish_def transmit_def Let_def split: prod.splits if_splits)

lemma upload_goes_on:
  assumes "in_upload c d k n s"
  shows "Suc k \<noteq> nblocks d \<Longrightarrow> in_upload c d (Suc k) 0 (recv_run c (awaited (block_pkt d) k) s)"
    "Suc k = nblocks d \<Longrightarrow> phase (recv_run c (awaited (block_pkt d) k) s) = Dallying \<and>
      on_disk (recv_run c (awaited (block_pkt d) k) s) = decoded (convert c) d"
proof -
  let ?t = "recv_run c (awaited (block_pkt d) k) s"
  have s: "recv_inv c d k s" "acked_upto k (out s)" "phase s = Waiting" "inq s = []"
    using assms by (simp_all add: in_upload_def)
  note pr = data_progress [OF s, folded awaited_def [of "block_pkt d" k]]
  have "\<exists>u m. ?t = accept_block c True m u"
    using s(3,4) pr data_received(1,2) [OF recv_inv_dp_len [OF s(1)] recv_inv_bound [OF s(1)], of "host c"] s(1)
    by (auto simp: awaited_def recv_run_def handle_data_def Let_def recv_inv_def set_dp_buf_def dp_buf_def simp del: of_nat_Suc)
  then have "phase ?t = Waiting \<Longrightarrow> timeout ?t = 0" using accept_resets by fastforce
  with pr acked_next [OF s(2)]
  show "Suc k \<noteq> nblocks d \<Longrightarrow> in_upload c d (Suc k) 0 ?t"
    "Suc k = nblocks d \<Longrightarrow> phase ?t = Dallying \<and> on_disk ?t = decoded (convert c) d"
    by (auto simp: in_upload_def recv_ok_def done_ok_def simp del: of_nat_Suc)
qed

interpretation lossy_recv: lossy_transfer "in_upload c d" "recv_run c" events_of "\<lambda>t. t = Loss" "harmless DATA"
  "awaited (block_pkt d)" "\<lambda>s. phase s = Dallying \<and> on_disk s = decoded (convert c) d" "nblocks d" 5 for c d
proof (unfold_locales, goal_cases)
  case (3 k n s t)
  then show ?case using loss_in_upload [of c d k n s] by simp
next
  case (4 k n s t)
  then show ?case using stray_in_upload [of c d k n s] by (cases t) simp_all
next
  case (5 k n s)
  then show ?case by (intro upload_goes_on(1))
next
  case (6 k n s)
  then show ?case by (intro upload_goes_on(2))
qed (simp_all add: recv_run_def)

section \<open>Properties\<close>

lemma tolerable_bearable:
  "lossy_send.bearable k ts \<longleftrightarrow> tolerable ACK k ts" "lossy_recv.bearable k ts \<longleftrightarrow> tolerable DATA k ts"
  by (auto simp: lossy_send.bearable_def lossy_recv.bearable_def tolerable_def)

text \<open>
  C7: losses do not stop a download: when every block is acknowledged after at most four alarms, and whatever stray datagrams
  come between (but error packets), sendfile ends with every block of the file sent in order.
\<close>

theorem daemon_send_survives:
  assumes "e = encoded (convert c) d" "\<forall>k<nblocks e. tolerable ACK k (ts k)"
    and "s = send_run c (rounds events_of (awaited (\<lambda>k. ack_pkt (of_nat (Suc k)))) ts (nblocks e))
      (sendfile c True (start_srv (open_read d) rb))"
  shows "phase s = Finished \<and> remdups_adj (out s) = file_blocks e"
proof -
  have "take (Suc 0) (file_blocks e) = [block_pkt e 0]" by (subst take_file_blocks) (simp_all add: nblocks_def)
  then have "in_block c e 0 0 (sendfile c True (start_srv (open_read d) rb))"
    using sendfile_start [of c d rb, folded assms(1)] by (simp add: in_block_def sent_upto_def)
  from lossy_send.survives [OF this] assms(2,3) show ?thesis by (simp add: tolerable_bearable nblocks_def)
qed

text \<open>Two alarms, a stray datagram and a repeated acknowledgement before the only block is acknowledged.\<close>

theorem daemon_send_survives_witness:
  "remdups_adj (out (send_run \<lparr>host = Little, convert = False, strerror = \<lambda>_. []\<rparr>
      [Alarm True, Arrive [0, 1, 0, 0], Recv True, Alarm True, Arrive (ack_pkt 0), Recv True, Arrive (ack_pkt 1), Recv True]
      (sendfile \<lparr>host = Little, convert = False, strerror = \<lambda>_. []\<rparr> True (start_srv (open_read [65]) [])))) =
    [data_pkt 1 [65]]"
proof -
  let ?c = "\<lparr>host = Little, convert = False, strerror = \<lambda>_. []\<rparr>" and ?ts = "\<lambda>_. [Loss, Stray [0, 1, 0, 0], Loss, Stray (ack_pkt 0)]"
  have n: "nblocks [65 :: byte] = 1" by (simp add: nblocks_def size_defs)
  have "tolerable ACK 0 (?ts 0)" by code_simp
  with daemon_send_survives [of "[65]" ?c "[65]" ?ts _ "[]", OF _ _ refl] n show ?thesis
    by (simp add: encoded_def awaited_def rounds_def file_blocks_def block_pkt_def chunk_def size_defs)
qed

text \<open>
  C13: losses do not stop an upload either: when every block arrives after at most four alarms, and whatever stray datagrams come
  between (but error packets), recvfile has stored what the client meant when it has answered the last block.
\<close>

theorem daemon_recv_survives:
  assumes "e = encoded (convert c) d" "\<forall>k<nblocks e. tolerable DATA k (ts k)"
    and "s = recv_run c (rounds events_of (awaited (block_pkt e)) ts (nblocks e)) (recvfile c True (start_srv (open_trunc None) rb))"
  shows "phase s = Dallying \<and> on_disk s = d"
proof -
  have "in_upload c e 0 0 (recvfile c True (start_srv (open_trunc None) rb))"
    using recvfile_start(2) [where ok = True and c = c and d = e and rb = rb] recvfile_start(3-5) [where ok = True and c = c and rb = rb]
    by (simp add: in_upload_def acked_upto_def) (simp add: recvfile_def next_ack_def send_ack_def transmit_def split: prod.split)
  from lossy_recv.survives [OF this] assms show ?thesis by (simp add: tolerable_bearable nblocks_def decoded_encoded)
qed

text \<open>Four alarms, a stray datagram and a block of a later number before the only block arrives.\<close>

theorem daemon_recv_survives_witness:
  "on_disk (recv_run \<lparr>host = Big, convert = True, strerror = \<lambda>_. []\<rparr>
      [Alarm True, Alarm True, Arrive [0, 1, 0, 0], Recv True, Alarm True, Arrive (data_pkt 7 [66]), Recv True, Alarm True,
       Arrive (data_pkt 1 [65, CR, LF]), Recv True]
      (recvfile \<lparr>host = Big, convert = True, strerror = \<lambda>_. []\<rparr> True (start_srv (open_trunc None) []))) = [65, LF]"
proof -
  let ?c = "\<lparr>host = Big, convert = True, strerror = \<lambda>_. []\<rparr>"
    and ?ts = "\<lambda>_. [Loss, Loss, Stray [0, 1, 0, 0], Loss, Stray (data_pkt 7 [66]), Loss]"
  have e: "encoded True [65, LF] = [65, CR, LF]" by (simp add: encoded_def LF_def CR_def)
  have n: "nblocks [65, CR, LF] = 1" by (simp add: nblocks_def size_defs)
  have "tolerable DATA 0 (?ts 0)" by code_simp
  with daemon_recv_survives [of "[65, CR, LF]" ?c "[65, LF]" ?ts _ "[]", OF _ _ refl] n e show ?thesis
    by (simp add: awaited_def rounds_def block_pkt_def chunk_def size_defs)
qed

end
