(* ===== verification/Async_Options.thy ===== *)
theory Async_Options
  imports Tftp_Wire Tftp_Text
begin

text \<open>
  The option negotiation of the C++ server, \<^verbatim>\<open>tftpd_options.cpp\<close>: the global variables are
  the record \<open>opts\<close>, an entry of the table \<^verbatim>\<open>options\<close> is a name and a function on the value
  and the variables (\<open>None\<close> where the C++ function returns false, before it has changed
  anything), and \<^verbatim>\<open>do_opt\<close> appends to the bytes written to the acknowledgement so far.
\<close>

unbundle bit_operations_syntax

type_synonym u64 = "64 word"

definition min_blksize_rfc :: u64 where "min_blksize_rfc = 8"
definition default_blksize :: u64 where "default_blksize = of_nat SEGSIZE"
definition max_blksize :: u64 where "max_blksize = of_nat MAXSEGSIZE"
definition max_timeout :: u64 where "max_timeout = 255"
definition MS_1K :: u64 where "MS_1K = 1000"
definition tsize_ok :: bool where "tsize_ok = True"

record opts =
  g_timeout :: u64
  g_segsize :: u64
  g_tsize :: u64
  blksize_set :: bool

type_synonym setter = "u64 \<Rightarrow> opts \<Rightarrow> (u64 \<times> opts) option"

definition init_opt :: opts where
  "init_opt = \<lparr>g_timeout = MS_1K, g_segsize = default_blksize, g_tsize = 0, blksize_set = False\<rparr>"

definition set_blksize :: setter where
  "set_blksize v s =
     (if blksize_set s then None
      else if v < min_blksize_rfc then None
      else let sz = (if v > max_blksize then max_blksize else v)
           in Some (sz, s\<lparr>g_segsize := sz, blksize_set := True\<rparr>))"

text \<open>The loop that finds the highest bit.\<close>

lemma unat_half: "unat (drop_bit 1 w) = unat (w :: u64) div 2"
  by (simp only: unat_drop_bit_eq) (simp add: drop_bit_eq_div)

function pow2_loop :: "u64 \<Rightarrow> u64 \<Rightarrow> u64" where
  "pow2_loop sz sz1 =
     (let sz' = drop_bit 1 sz in if sz' \<noteq> 0 then pow2_loop sz' (push_bit 1 sz1) else sz1)"
  by auto
termination
proof (relation "measure (\<lambda>(sz, _). unat sz)", goal_cases)
  case (2 sz sz1 sz')
  then have n: "unat sz' = unat sz div 2" by (simp only: unat_half)
  with 2 have "0 < unat sz div 2" by (metis unat_gt_0)
  then have "unat sz div 2 < unat sz" by simp
  with n show ?case by simp
qed simp

declare pow2_loop.simps [simp del]

definition set_blksize2 :: setter where
  "set_blksize2 v s =
     (if blksize_set s then None
      else if v < min_blksize_rfc then None
      else let sz = (if v > max_blksize then max_blksize
                     else if v AND (v - 1) \<noteq> 0 then pow2_loop v 1 else v)
           in Some (sz, s\<lparr>g_segsize := sz, blksize_set := True\<rparr>))"

definition set_tsize :: setter where
  "set_tsize v s =
     (if \<not> tsize_ok then None
      else if v = 0 then Some (g_tsize s, s) else Some (v, s\<lparr>g_tsize := v\<rparr>))"

definition set_timeout :: setter where
  "set_timeout v s = (if v < 1 \<or> v > max_timeout then None else Some (v, s\<lparr>g_timeout := v * MS_1K\<rparr>))"

definition set_utimeout :: setter where
  "set_utimeout v s =
     (if v < MS_1K \<or> v > max_timeout * MS_1K * MS_1K then None else Some (v, s\<lparr>g_timeout := v div MS_1K\<rparr>))"

definition options :: "(str \<times> setter) list" where
  "options =
     [(cbytes ''blksize'', set_blksize), (cbytes ''blksize2'', set_blksize2), (cbytes ''tsize'', set_tsize),
      (cbytes ''timeout'', set_timeout), (cbytes ''utimeout'', set_utimeout)]"

text \<open>The search of the table: \<^verbatim>\<open>strcasecmp\<close> compares without regard to case.\<close>

definition find_option :: "str \<Rightarrow> setter option" where
  "find_option opt = map_of options (map c_tolower opt)"

text \<open>
  \<^verbatim>\<open>strtoumax(s, &end, 10)\<close>: the value (a leading minus negates it), what is left of the
  string, and whether the number is out of range.
\<close>

definition c_strtoumax :: "str \<Rightarrow> u64 \<times> str \<times> bool" where
  "c_strtoumax s =
     (let r = dropWhile c_isspace s;
          neg = (take 1 r = [45]);
          r1 = (if take 1 r = [45] \<or> take 1 r = [43] then drop 1 r else r);
          ds = takeWhile c_isdigit r1;
          m = fold (\<lambda>c n. n * 10 + (uint c - 48)) ds 0
      in if ds = [] then (0, s, False)
         else if m \<ge> 2 ^ 64 then (- 1, drop (length ds) r1, True)
         else (if neg then - of_int m else of_int m, drop (length ds) r1, False))"

definition enc_opt :: "str \<Rightarrow> u64 \<Rightarrow> byte list" where
  "enc_opt opt v = opt @ 0 # decimal (unat v) @ [0]"

text \<open>\<open>None\<close>: the copy goes behind the end of the packet buffer.\<close>

definition do_opt :: "str \<Rightarrow> str \<Rightarrow> opts \<times> byte list \<Rightarrow> (opts \<times> byte list) option" where
  "do_opt opt val st =
     (let (s, ack) = st in
      if opt = [] \<or> val = [] then Some st
      else let (v, vend, range) = c_strtoumax val in
      if vend \<noteq> [] \<or> range then Some st
      else case find_option opt of
             None \<Rightarrow> Some st
           | Some fnc \<Rightarrow>
               (case fnc v s of
                  None \<Rightarrow> Some st
                | Some (v', s') \<Rightarrow>
                    let ack' = ack @ enc_opt opt v'
                    in if PKTSIZE < length ack' then None else Some (s', ack')))"

section \<open>Powers of two\<close>

lemma pow2_loop_spec:
  assumes "sz \<noteq> 0"
  shows "\<exists>k. pow2_loop sz sz1 = push_bit k sz1 \<and> 2 ^ k \<le> unat sz \<and> unat sz < 2 ^ Suc k"
  using assms
proof (induction sz sz1 rule: pow2_loop.induct)
  case (1 sz sz1)
  have h: "unat (drop_bit 1 sz) = unat sz div 2" by (rule unat_half)
  show ?case
  proof (cases "drop_bit 1 sz = 0")
    case True
    then have "unat sz div 2 = 0" unfolding h [symmetric] by simp
    moreover have "unat sz \<noteq> 0" using "1.prems" by (simp add: unat_eq_zero)
    ultimately have "unat sz = 1" by linarith
    with True show ?thesis by (subst pow2_loop.simps) (auto intro!: exI [of _ 0])
  next
    case False
    from "1.IH" [OF refl False False] obtain k where
      k: "pow2_loop (drop_bit 1 sz) (push_bit 1 sz1) = push_bit k (push_bit 1 sz1)"
      "2 ^ k \<le> unat (drop_bit 1 sz)" "unat (drop_bit 1 sz) < 2 ^ Suc k"
      by blast
    have "pow2_loop sz sz1 = push_bit (Suc k) sz1"
      using False k(1) by (subst pow2_loop.simps) (simp add: Let_def push_bit_push_bit)
    moreover have "2 ^ Suc k \<le> unat sz" "unat sz < 2 ^ Suc (Suc k)" using k(2,3) unfolding h by simp_all
    ultimately show ?thesis by blast
  qed
qed

lemma bit_highest: "2 ^ k \<le> unat v \<Longrightarrow> unat v < 2 ^ Suc k \<Longrightarrow> bit (v :: u64) k"
proof -
  assume a: "2 ^ k \<le> unat v" "unat v < 2 ^ Suc k"
  then have "unat v div 2 ^ k = 1" by (intro div_nat_eqI) simp_all
  then have "bit (unat v) k" by (simp add: bit_iff_odd)
  then show ?thesis by (simp add: bit_unsigned_iff)
qed

lemma and_pred_pow2:
  assumes "v \<noteq> 0" "v AND (v - 1) = (0 :: u64)"
  shows "\<exists>k. unat v = 2 ^ k"
proof (rule ccontr)
  assume no: "\<not> ?thesis"
  obtain k where k: "2 ^ k \<le> unat v" "unat v < 2 ^ Suc k"
    using pow2_loop_spec [OF assms(1), of 1] by blast
  have "unat (v - 1) = unat v - 1" using assms(1) by (rule unat_minus_one)
  moreover have "unat v \<noteq> 2 ^ k" using no by blast
  ultimately have "2 ^ k \<le> unat (v - 1)" "unat (v - 1) < 2 ^ Suc k" using k by linarith+
  with bit_highest [of k] k have "bit (v AND (v - 1)) k" by (simp add: bit_and_iff)
  with assms(2) show False by simp
qed

section \<open>Negotiation\<close>

text \<open>
  What \<^verbatim>\<open>do_opt\<close> means for a list of options: each is accepted with a value or ignored, and
  the accepted ones are answered.
\<close>

definition accept_opt :: "str \<times> str \<Rightarrow> opts \<Rightarrow> (u64 \<times> opts) option" where
  "accept_opt ov s =
     (let (opt, val) = ov; (v, vend, range) = c_strtoumax val
      in if opt = [] \<or> val = [] \<or> vend \<noteq> [] \<or> range then None
         else case find_option opt of None \<Rightarrow> None | Some f \<Rightarrow> f v s)"

fun negotiate :: "(str \<times> str) list \<Rightarrow> opts \<Rightarrow> opts \<times> (str \<times> u64) list" where
  "negotiate [] s = (s, [])"
| "negotiate (ov # ovs) s =
     (case accept_opt ov s of
        None \<Rightarrow> negotiate ovs s
      | Some (v, s') \<Rightarrow> (let (s2, acc) = negotiate ovs s' in (s2, (fst ov, v) # acc)))"

definition enc_opts :: "(str \<times> u64) list \<Rightarrow> byte list" where
  "enc_opts acc = concat (map (\<lambda>(opt, v). enc_opt opt v) acc)"

fun do_opts :: "(str \<times> str) list \<Rightarrow> opts \<times> byte list \<Rightarrow> (opts \<times> byte list) option" where
  "do_opts [] st = Some st"
| "do_opts ((opt, val) # ovs) st =
     (case do_opt opt val st of None \<Rightarrow> None | Some st' \<Rightarrow> do_opts ovs st')"

lemma do_opt_accept:
  "do_opt opt val (s, ack) =
    (case accept_opt (opt, val) s of
       None \<Rightarrow> Some (s, ack)
     | Some (v, s') \<Rightarrow>
         if PKTSIZE < length (ack @ enc_opt opt v) then None else Some (s', ack @ enc_opt opt v))"
  by (auto simp: do_opt_def accept_opt_def Let_def split: prod.split option.split)

lemma do_opts_negotiate:
  assumes "length ack \<le> PKTSIZE"
  shows "do_opts ovs (s, ack) =
    (let (s', acc) = negotiate ovs s
     in if PKTSIZE < length (ack @ enc_opts acc) then None else Some (s', ack @ enc_opts acc))"
  using assms
proof (induction ovs arbitrary: s ack)
  case Nil
  then show ?case by (simp add: enc_opts_def)
next
  case (Cons ov ovs)
  obtain opt val where ov: "ov = (opt, val)" by (cases ov)
  show ?case
  proof (cases "accept_opt ov s")
    case None
    with ov Cons show ?thesis by (simp add: do_opt_accept)
  next
    case (Some vs)
    obtain v s' where vs: "vs = (v, s')" by (cases vs)
    obtain s2 acc where n: "negotiate ovs s' = (s2, acc)" by (cases "negotiate ovs s'")
    show ?thesis
      using Some ov vs n Cons.IH [of "ack @ enc_opt opt v" s']
      by (auto simp: do_opt_accept enc_opts_def)
  qed
qed

subsection \<open>What the client reads back\<close>

fun dec_from :: "str \<Rightarrow> byte list \<Rightarrow> str list" where
  "dec_from w [] = []"
| "dec_from w (c # cs) = (if c = 0 then w # dec_from [] cs else dec_from (w @ [c]) cs)"

definition dec_strings :: "byte list \<Rightarrow> str list" where "dec_strings = dec_from []"

lemma dec_strings_cons: "0 \<notin> set w \<Longrightarrow> dec_strings (w @ 0 # rest) = w # dec_strings rest"
proof -
  have "0 \<notin> set w \<Longrightarrow> dec_from u (w @ 0 # rest) = (u @ w) # dec_from [] rest" for u
    by (induction w arbitrary: u) auto
  then show "0 \<notin> set w \<Longrightarrow> dec_strings (w @ 0 # rest) = w # dec_strings rest" by (simp add: dec_strings_def)
qed

lemma dec_strings_nil [simp]: "dec_strings [] = []"
  by (simp add: dec_strings_def)

lemma decimal_no_nul: "0 \<notin> set (decimal n)"
  using decimal_digits [of n] by (auto simp: c_isdigit_def)

lemma dec_enc_opts:
  "\<forall>(opt, v)\<in>set acc. 0 \<notin> set opt \<Longrightarrow>
   dec_strings (enc_opts acc) = concat (map (\<lambda>(opt, v). [opt, decimal (unat v)]) acc)"
  by (induction acc) (auto simp: enc_opts_def enc_opt_def dec_strings_cons decimal_no_nul)

subsection \<open>The segment size in effect\<close>

definition is_size :: "str \<Rightarrow> bool" where
  "is_size opt \<longleftrightarrow> map c_tolower opt = cbytes ''blksize'' \<or> map c_tolower opt = cbytes ''blksize2''"

definition sizes :: "(str \<times> u64) list \<Rightarrow> u64 list" where
  "sizes acc = map snd (filter (\<lambda>(opt, _). is_size opt) acc)"

lemma size_bounds: "min_blksize_rfc \<le> v \<Longrightarrow> v \<le> max_blksize \<Longrightarrow> 8 \<le> unat v \<and> unat v \<le> MAXSEGSIZE"
  by (simp add: min_blksize_rfc_def max_blksize_def MAXSEGSIZE_def word_le_nat_alt)

lemma set_blksize_spec:
  "set_blksize v s = Some (v', s') \<Longrightarrow>
   \<not> blksize_set s \<and> s' = s\<lparr>g_segsize := v', blksize_set := True\<rparr> \<and> min_blksize_rfc \<le> v \<and>
   v' = (if v > max_blksize then max_blksize else v)"
  by (auto simp: set_blksize_def Let_def split: if_splits)

lemma pow2_loop_one:
  assumes "v \<noteq> 0"
  shows "\<exists>k. unat (pow2_loop v 1) = 2 ^ k \<and> 2 ^ k \<le> unat v \<and> unat v < 2 ^ Suc k"
proof -
  obtain k where k: "pow2_loop v 1 = push_bit k 1" "2 ^ k \<le> unat v" "unat v < 2 ^ Suc k"
    using pow2_loop_spec [OF assms] by blast
  have "(2 :: nat) ^ k < 2 ^ 64" using k(2) unsigned_less [where 'a = nat, of v] by simp
  then have "unat (of_nat (2 ^ k) :: u64) = 2 ^ k" by (subst unat_of_nat) simp
  then have "unat (push_bit k 1 :: u64) = 2 ^ k" by (simp add: push_bit_eq_mult)
  with k show ?thesis by auto
qed

text \<open>\<^verbatim>\<open>blksize2\<close> rounds down to a power of two, except for values above the maximum.\<close>

lemma set_blksize2_spec:
  assumes "set_blksize2 v s = Some (v', s')"
  shows "\<not> blksize_set s \<and> s' = s\<lparr>g_segsize := v', blksize_set := True\<rparr> \<and> min_blksize_rfc \<le> v \<and>
    (if v > max_blksize then v' = max_blksize
     else \<exists>k. unat v' = 2 ^ k \<and> 2 ^ k \<le> unat v \<and> unat v < 2 ^ Suc k)"
proof -
  have v: "\<not> blksize_set s" "min_blksize_rfc \<le> v"
    "v' = (if v > max_blksize then max_blksize else if v AND (v - 1) \<noteq> 0 then pow2_loop v 1 else v)"
    "s' = s\<lparr>g_segsize := v', blksize_set := True\<rparr>"
    using assms by (auto simp: set_blksize2_def Let_def split: if_splits)
  have nz: "v \<noteq> 0" using v(2) by (auto simp: min_blksize_rfc_def)
  have "\<exists>k. unat v = 2 ^ k \<and> 2 ^ k \<le> unat v \<and> unat v < 2 ^ Suc k" if "v AND (v - 1) = 0"
    using and_pred_pow2 [OF nz that] by auto
  with v pow2_loop_one [OF nz] show ?thesis by auto
qed

lemma find_option_cases:
  assumes "find_option opt = Some f"
  shows "is_size opt \<and> (f = set_blksize \<or> f = set_blksize2) \<or>
    \<not> is_size opt \<and> (f = set_tsize \<or> f = set_timeout \<or> f = set_utimeout)"
  using assms
  by (auto simp: find_option_def options_def is_size_def cbytes_def split: if_splits)

lemma other_options:
  assumes "f = set_tsize \<or> f = set_timeout \<or> f = set_utimeout" "f v s = Some (v', s')"
  shows "g_segsize s' = g_segsize s \<and> blksize_set s' = blksize_set s"
  using assms
  by (auto simp: set_tsize_def set_timeout_def set_utimeout_def split: if_splits)

lemma size_options:
  assumes "f = set_blksize \<or> f = set_blksize2" "f v s = Some (v', s')"
  shows "\<not> blksize_set s \<and> blksize_set s' \<and> g_segsize s' = v' \<and> 8 \<le> unat v' \<and> unat v' \<le> MAXSEGSIZE \<and> v' \<le> v"
proof -
  have b: "8 \<le> unat max_blksize \<and> unat max_blksize \<le> MAXSEGSIZE"
    by (simp add: max_blksize_def MAXSEGSIZE_def)
  have "8 \<le> unat v' \<and> unat v' \<le> MAXSEGSIZE \<and> v' \<le> v"
    if k: "unat v' = 2 ^ k" "2 ^ k \<le> unat v" "unat v < 2 ^ Suc k" and lo: "min_blksize_rfc \<le> v" and hi: "v \<le> max_blksize" for k
  proof -
    have "(2 :: nat) ^ 3 < 2 ^ Suc k" using size_bounds [OF lo hi] k(3) by simp
    then have "3 < Suc k" by (rule power_less_imp_less_exp [rotated]) simp
    then have "(2 :: nat) ^ 3 \<le> 2 ^ k" by (intro power_increasing) simp_all
    with k size_bounds [OF lo hi] show ?thesis by (simp add: word_le_nat_alt)
  qed
  moreover have "\<not> v > max_blksize \<Longrightarrow> v \<le> max_blksize" "v > max_blksize \<Longrightarrow> max_blksize \<le> v" by simp_all
  ultimately show ?thesis
    using assms b set_blksize_spec [of v s v' s'] set_blksize2_spec [of v s v' s'] size_bounds [of v]
    by (elim disjE) (auto split: if_splits)
qed

lemma accept_opt_cases:
  assumes "accept_opt (opt, val) s = Some (v', s')"
  obtains f v where "find_option opt = Some f" "c_strtoumax val = (v, [], False)" "f v s = Some (v', s')"
    "opt \<noteq> []" "val \<noteq> []"
  using assms by (auto simp: accept_opt_def split: prod.splits if_splits option.splits)

lemma negotiate_sizes:
  assumes "negotiate ovs s = (s', acc)"
  shows "if blksize_set s then sizes acc = [] \<and> g_segsize s' = g_segsize s
    else sizes acc = [] \<and> g_segsize s' = g_segsize s \<or>
      sizes acc = [g_segsize s'] \<and> 8 \<le> unat (g_segsize s') \<and> unat (g_segsize s') \<le> MAXSEGSIZE"
  using assms
proof (induction ovs arbitrary: s acc)
  case Nil
  then show ?case by (simp add: sizes_def)
next
  case (Cons ov ovs)
  obtain opt val where ov: "ov = (opt, val)" by (cases ov)
  show ?case
  proof (cases "accept_opt ov s")
    case None
    with Cons show ?thesis by simp
  next
    case (Some vs)
    obtain v s1 where vs: "vs = (v, s1)" by (cases vs)
    obtain acc' where n: "negotiate ovs s1 = (s', acc')" "acc = (opt, v) # acc'"
      using Cons.prems Some vs ov by (auto split: prod.splits)
    obtain f w where f: "find_option opt = Some f" "f w s = Some (v, s1)"
      using accept_opt_cases [OF Some [unfolded ov vs]] by blast
    show ?thesis
      using find_option_cases [OF f(1)] other_options [of f w s v s1] size_options [of f w s v s1] f(2) Cons.IH [OF n(1)] n(2)
      by (auto simp: sizes_def split: if_splits)
  qed
qed

subsection \<open>Plain numbers\<close>

text \<open>A value is plain if it is a decimal number other than 0, with nothing around it.\<close>

definition digits_value :: "str \<Rightarrow> int" where
  "digits_value ds = fold (\<lambda>c n. n * 10 + (uint c - 48)) ds 0"

definition plain :: "str \<Rightarrow> bool" where
  "plain val \<longleftrightarrow> (\<forall>c\<in>set val. c_isdigit c) \<and> 0 < digits_value val"

lemma digits_value_snoc: "digits_value (ds @ [c]) = digits_value ds * 10 + (uint c - 48)"
  by (simp add: digits_value_def)

lemma digits_value_bound: "\<forall>c\<in>set ds. c_isdigit c \<Longrightarrow> 0 \<le> digits_value ds \<and> digits_value ds < 10 ^ length ds"
proof (induction ds rule: rev_induct)
  case (snoc c ds)
  then have "48 \<le> uint c" "uint c \<le> 57" by (auto simp: c_isdigit_def word_le_def)
  with snoc show ?case by (simp add: digits_value_snoc)
qed (simp add: digits_value_def)

lemma decimal_length: "n < 10 ^ k \<Longrightarrow> 0 < k \<Longrightarrow> length (decimal n) \<le> k"
proof (induction n arbitrary: k rule: decimal.induct)
  case (1 n)
  show ?case
  proof (cases "n < 10")
    case True
    with "1.prems"(2) show ?thesis by (subst decimal.simps) simp
  next
    case False
    obtain j where k: "k = Suc j" using "1.prems"(2) by (cases k) auto
    with False "1.prems"(1) have "0 < j" by (cases j) auto
    moreover have "n div 10 < 10 ^ j" using "1.prems"(1) k by (simp add: less_mult_imp_div_less mult.commute)
    ultimately have "length (decimal (n div 10)) \<le> j" by (intro "1.IH" [OF False])
    with False k show ?thesis by (subst decimal.simps) simp
  qed
qed

lemma plain_strtoumax:
  assumes "plain val" "c_strtoumax val = (v, [], False)"
  shows "int (unat v) = digits_value val" "val \<noteq> []"
proof -
  show ne: "val \<noteq> []" using assms(1) by (auto simp: plain_def digits_value_def)
  have d: "\<forall>c\<in>set val. c_isdigit c" using assms(1) by (simp add: plain_def)
  then have h: "c_isdigit (hd val)" using ne by simp
  then have "\<not> c_isspace (hd val)" "hd val \<noteq> 45" "hd val \<noteq> 43"
    by (auto simp: c_isdigit_def c_isspace_def word_le_def)
  then have s: "dropWhile c_isspace val = val" "take 1 val \<noteq> [45]" "take 1 val \<noteq> [43]"
    using ne by (cases val; simp)+
  have tw: "takeWhile c_isdigit val = val" using d by (simp add: takeWhile_eq_all_conv)
  have "v = of_int (digits_value val) \<and> digits_value val < 2 ^ 64"
    using assms(2) s ne by (auto simp: c_strtoumax_def tw digits_value_def [symmetric] Let_def split: if_splits)
  with digits_value_bound [OF d] show "int (unat v) = digits_value val"
    by (simp add: uint_word_of_int_eq take_bit_int_eq_self)
qed

lemma accept_plain:
  assumes "plain val" "accept_opt (opt, val) s = Some (v, s')"
  shows "length (enc_opt opt v) \<le> length opt + length val + 2"
proof (cases rule: accept_opt_cases [OF assms(2)])
  case (1 f w)
  have w: "int (unat w) = digits_value val" "val \<noteq> []" using plain_strtoumax [OF assms(1) 1(2)] by blast+
  then have nz: "w \<noteq> 0" using assms(1) by (auto simp: plain_def)
  have "v \<le> w"
    using find_option_cases [OF 1(1)] size_options [of f w s v s'] 1(3) nz
    by (auto simp: set_tsize_def set_timeout_def set_utimeout_def split: if_splits)
  moreover have "digits_value val < 10 ^ length val" using assms(1) digits_value_bound by (simp add: plain_def)
  then have "int (unat w) < int (10 ^ length val)" unfolding w(1) by simp
  then have "unat w < 10 ^ length val" by (simp only: of_nat_less_iff)
  ultimately have "unat v < 10 ^ length val" by (simp add: word_le_nat_alt)
  then have "length (decimal (unat v)) \<le> length val" using w(2) by (intro decimal_length) auto
  then show ?thesis by (simp add: enc_opt_def)
qed

definition asked :: "(str \<times> str) list \<Rightarrow> byte list" where
  "asked ovs = concat (map (\<lambda>(opt, val). opt @ 0 # val @ [0]) ovs)"

lemma negotiate_plain:
  "\<forall>(opt, val)\<in>set ovs. plain val \<Longrightarrow> negotiate ovs s = (s', acc) \<Longrightarrow> length (enc_opts acc) \<le> length (asked ovs)"
proof (induction ovs arbitrary: s acc)
  case (Cons ov ovs)
  obtain opt val where ov: "ov = (opt, val)" by (cases ov)
  show ?case
  proof (cases "accept_opt ov s")
    case None
    with Cons ov show ?thesis by (fastforce simp: asked_def)
  next
    case (Some vs)
    obtain v s1 where vs: "vs = (v, s1)" by (cases vs)
    obtain acc' where n: "negotiate ovs s1 = (s', acc')" "acc = (opt, v) # acc'"
      using Cons.prems(2) Some vs ov by (auto split: prod.splits)
    have "length (enc_opt opt v) \<le> length opt + length val + 2"
      using accept_plain Some ov vs Cons.prems(1) by simp
    with Cons.IH [OF _ n(1)] Cons.prems(1) n(2) ov show ?thesis by (simp add: enc_opts_def asked_def)
  qed
qed (simp add: enc_opts_def)

subsection \<open>Options that do not fit\<close>

text \<open>After one \<^verbatim>\<open>tsize\<close> of 20 digits, each \<^verbatim>\<open>tsize\<close> of 0 is answered with those 20 digits.\<close>

definition growing :: "nat \<Rightarrow> (str \<times> str) list" where
  "growing n = (cbytes ''tsize'', cbytes ''18446744073709551615'') # replicate n (cbytes ''tsize'', cbytes ''0'')"

lemma find_tsize: "find_option (cbytes ''tsize'') = Some set_tsize"
  by (simp add: find_option_def options_def cbytes_def c_tolower_def c_isupper_def)

lemma tsize_zero: "accept_opt (cbytes ''tsize'', cbytes ''0'') s = Some (g_tsize s, s)"
proof -
  have "c_strtoumax (cbytes ''0'') = (0, [], False)" by code_simp
  then show ?thesis using find_tsize by (simp add: accept_opt_def set_tsize_def tsize_ok_def cbytes_def)
qed

lemma negotiate_zeros:
  "negotiate (replicate n (cbytes ''tsize'', cbytes ''0'')) s = (s, replicate n (cbytes ''tsize'', g_tsize s))"
  by (induction n) (simp_all add: tsize_zero)

lemma negotiate_growing:
  "negotiate (growing n) s = (s\<lparr>g_tsize := - 1\<rparr>, replicate (Suc n) (cbytes ''tsize'', - 1))"
proof -
  have "c_strtoumax (cbytes ''18446744073709551615'') = (- 1, [], False)" by code_simp
  then have "accept_opt (cbytes ''tsize'', cbytes ''18446744073709551615'') s = Some (- 1, s\<lparr>g_tsize := - 1\<rparr>)"
    using find_tsize by (simp add: accept_opt_def set_tsize_def tsize_ok_def cbytes_def)
  then show ?thesis by (simp add: growing_def negotiate_zeros)
qed

lemma decimal_max: "length (decimal (unat (- 1 :: u64))) = 20"
  by (simp add: decimal.simps unsigned_minus_1_eq_mask mask_eq_exp_minus_1)

lemma growing_sizes:
  "length (asked (growing n)) = 27 + 8 * n"
  "length (enc_opts (replicate (Suc n) (cbytes ''tsize'', - 1))) = 27 * Suc n"
proof -
  show "length (asked (growing n)) = 27 + 8 * n"
    by (simp add: asked_def growing_def map_replicate_const length_concat sum_list_replicate)
  show "length (enc_opts (replicate (Suc n) (cbytes ''tsize'', - 1))) = 27 * Suc n"
    by (induction n) (simp_all add: enc_opts_def enc_opt_def decimal_max)
qed

section \<open>Properties\<close>

lemma negotiate_names: "negotiate ovs s = (s', acc) \<Longrightarrow> fst ` set acc \<subseteq> fst ` set ovs"
proof (induction ovs arbitrary: s acc)
  case (Cons ov ovs)
  show ?case
  proof (cases "accept_opt ov s")
    case None
    with Cons.IH [of s acc] Cons.prems show ?thesis by auto
  next
    case (Some vs)
    obtain v s1 where vs: "vs = (v, s1)" by (cases vs)
    obtain acc' where "negotiate ovs s1 = (s', acc')" "acc = (fst ov, v) # acc'"
      using Cons.prems Some vs by (auto split: prod.splits)
    with Cons.IH show ?thesis by auto
  qed
qed simp

text \<open>
  C19: what the server acknowledges is what it does: the strings behind the header of its
  acknowledgement are pairs of an option and a number, at most one of them a segment size, and that number
  is the segment size of the transfer (512 bytes without one), from 8 to 65464.
\<close>

theorem async_options_agreed:
  assumes "do_opts ovs (init_opt, ack) = Some (s', ack')" "length ack \<le> PKTSIZE"
    and "\<forall>(opt, val)\<in>set ovs. 0 \<notin> set opt"
  shows "\<exists>acc. dec_strings (drop (length ack) ack') = concat (map (\<lambda>(opt, v). [opt, decimal (unat v)]) acc) \<and>
    (sizes acc = [] \<and> unat (g_segsize s') = SEGSIZE \<or>
     sizes acc = [g_segsize s'] \<and> 8 \<le> unat (g_segsize s') \<and> unat (g_segsize s') \<le> MAXSEGSIZE)"
proof -
  obtain s2 acc where n: "negotiate ovs init_opt = (s2, acc)" by (cases "negotiate ovs init_opt")
  with assms(1) do_opts_negotiate [OF assms(2), of ovs init_opt] have r: "s' = s2" "ack' = ack @ enc_opts acc"
    by (auto split: if_splits)
  have "\<forall>(opt, v)\<in>set acc. 0 \<notin> set opt"
    using negotiate_names [OF n] assms(3) by fastforce
  from dec_enc_opts [OF this] negotiate_sizes [OF n] r show ?thesis
    by (intro exI [of _ acc]) (auto simp: init_opt_def default_blksize_def SEGSIZE_def)
qed

lemma demo_blksize:
  "do_opts [(cbytes ''BLKSIZE'', cbytes ''1024'')] (init_opt, []) =
    Some (init_opt\<lparr>g_segsize := 1024, blksize_set := True\<rparr>, enc_opt (cbytes ''BLKSIZE'') 1024)"
proof -
  have "c_strtoumax (cbytes ''1024'') = (1024, [], False)" by code_simp
  moreover have "find_option (cbytes ''BLKSIZE'') = Some set_blksize"
    by (simp add: find_option_def options_def cbytes_def c_tolower_def c_isupper_def)
  ultimately have "accept_opt (cbytes ''BLKSIZE'', cbytes ''1024'') init_opt =
      Some (1024, init_opt\<lparr>g_segsize := 1024, blksize_set := True\<rparr>)"
    by (simp add: accept_opt_def set_blksize_def init_opt_def min_blksize_rfc_def max_blksize_def MAXSEGSIZE_def cbytes_def)
  then show ?thesis by (simp add: do_opt_accept enc_opt_def decimal.simps size_defs)
qed

theorem async_options_agreed_witness:
  "\<exists>acc. dec_strings (enc_opt (cbytes ''BLKSIZE'') 1024) = concat (map (\<lambda>(opt, v). [opt, decimal (unat v)]) acc) \<and>
    (sizes acc = [] \<and> unat (1024 :: u64) = SEGSIZE \<or>
     sizes acc = [1024] \<and> 8 \<le> unat (1024 :: u64) \<and> unat (1024 :: u64) \<le> MAXSEGSIZE)"
  using async_options_agreed [OF demo_blksize] by (simp add: cbytes_def)

text \<open>
  Options whose values are plain numbers other than 0 never overflow the packet buffer: the
  acknowledgement is no longer than what was asked.
\<close>

theorem async_plain_options_fit:
  assumes "\<forall>(opt, val)\<in>set ovs. plain val" "length ack + length (asked ovs) \<le> PKTSIZE"
  shows "\<exists>s' ack'. do_opts ovs (s, ack) = Some (s', ack') \<and> length ack' \<le> length ack + length (asked ovs)"
proof -
  obtain s' acc where n: "negotiate ovs s = (s', acc)" by (cases "negotiate ovs s")
  from negotiate_plain [OF assms(1) n] do_opts_negotiate [of ack ovs s] n assms(2) show ?thesis by simp
qed

theorem async_plain_options_fit_witness:
  "\<exists>s' ack'. do_opts [(cbytes ''tsize'', cbytes ''07'')] (init_opt, [0, 6]) = Some (s', ack') \<and> length ack' \<le> 11"
proof -
  have p: "plain (cbytes ''07'')" by (simp add: plain_def digits_value_def c_isdigit_def cbytes_def)
  have l: "length (asked [(cbytes ''tsize'', cbytes ''07'')]) = 9" by (simp add: asked_def)
  show ?thesis
    using async_plain_options_fit [of "[(cbytes ''tsize'', cbytes ''07'')]" "[0, 6]" init_opt] p l
    by (simp add: size_defs)
qed

end
