(* ===== verification/Async_Request.thy ===== *)
theory Async_Request
  imports Async_Options Tftp_File
begin

text \<open>
  The request handling of the C++ server, \<^verbatim>\<open>tftpd_utils.cpp\<close>: \<^verbatim>\<open>tftp\<close> walks through the
  strings of the datagram (file name, mode, options) and \<^verbatim>\<open>validate_access\<close> opens the
  file.  A pointer into the received vector is an index; the one byte behind the vector the
  code may read is the field \<open>stray\<close> of the environment.  The answers of \<^verbatim>\<open>chdir\<close>, \<^verbatim>\<open>stat\<close>,
  \<^verbatim>\<open>open\<close>, \<^verbatim>\<open>fdopen\<close>, \<^verbatim>\<open>rename\<close> and \<^verbatim>\<open>create_directory\<close> (does it return, or throw?) are functions of the same
  record; the system log is left out.
\<close>

record env =
  g_rootdir :: path
  e_chdir :: "path \<Rightarrow> bool"
  e_stat :: "path \<Rightarrow> errno + 32 word"
  e_open :: "path \<Rightarrow> bool \<Rightarrow> errno + cfile"
  e_fdopen :: "path \<Rightarrow> errno option"
  e_mkdir :: "path \<Rightarrow> bool"
  e_rename :: "path \<Rightarrow> path \<Rightarrow> bool"
  stray :: byte

definition default_dir :: path where "default_dir = cbytes ''/tmp/tftpboot''"
definition suppress_error :: bool where "suppress_error = False"
definition secure_tftp :: bool where "secure_tftp = True"
definition allow_create :: bool where "allow_create = True"
definition ERRNO_OFFSET :: int where "ERRNO_OFFSET = 100"
definition S_IROTH :: "32 word" where "S_IROTH = 4"
definition S_IWOTH :: "32 word" where "S_IWOTH = 2"

definition formats :: "(str \<times> bool) list" where
  "formats = [(cbytes ''octet'', False)]"

text \<open>
  The outcome of \<^verbatim>\<open>tftp\<close>: an exception, a failed assertion, a copy behind the end of the option buffer, or
  a return with its code, the \<^verbatim>\<open>FILE\<close> (if any), the path and the option acknowledgement.
\<close>

datatype verdict = Raises | Asserts | Smash | Done int "cfile option" path "byte list" opts

subsection \<open>Access\<close>

definition open_file :: "env \<Rightarrow> path \<Rightarrow> u16 \<Rightarrow> int + cfile" where
  "open_file e tmpname mode =
     (case e_open e tmpname (mode \<noteq> RRQ) of
        Inl err \<Rightarrow> Inl (err + ERRNO_OFFSET)
      | Inr f \<Rightarrow> (case e_fdopen e tmpname of Some err \<Rightarrow> Inl (err + ERRNO_OFFSET) | None \<Rightarrow> Inr f))"

text \<open>The path comes back changed; the branch for names outside the root directory is dead code.\<close>

definition validate_access :: "env \<Rightarrow> path \<Rightarrow> u16 \<Rightarrow> (int + cfile) \<times> path" where
  "validate_access e filename mode =
     (if prefix [DOT, DOT, SLASH] filename \<or> sublist [SLASH, DOT, DOT, SLASH] filename
      then (Inl EACCESS, filename)
      else if (secure_tftp \<or> take 1 filename \<noteq> [SLASH]) \<and> \<not> e_chdir e (g_rootdir e)
      then (Inl EACCESS, filename)
      else let path = (if secure_tftp \<or> take 1 filename \<noteq> [SLASH]
                       then g_rootdir e @ SLASH # dropWhile (\<lambda>c. c = SLASH) filename else filename)
           in (case e_stat e path of
                 Inl err \<Rightarrow>
                   if mode = RRQ \<and> secure_tftp then Inl (if err = ENOENT then ENOTFOUND else EACCESS)
                   else if mode = RRQ then Inl EACCESS
                   else if \<not> allow_create then Inl EACCESS
                   else open_file e (path @ cbytes ''.upload'') mode
               | Inr st_mode \<Rightarrow>
                   if mode = RRQ
                   then (if st_mode AND S_IROTH = 0 then Inl EACCESS else open_file e path mode)
                   else if \<not> allow_create
                   then (if st_mode AND S_IWOTH = 0 then Inl EACCESS else open_file e path mode)
                   else open_file e (path @ cbytes ''.upload'') mode, path))"

subsection \<open>The strings of the request\<close>

definition char_at :: "env \<Rightarrow> byte list \<Rightarrow> nat \<Rightarrow> byte" where
  "char_at e rx i = (if i < length rx then rx ! i else stray e)"

text \<open>\<^verbatim>\<open>do { cp++; } while (cp < end && *cp != 0)\<close>\<close>

function skip :: "byte list \<Rightarrow> nat \<Rightarrow> nat" where
  "skip rx cp = (if Suc cp < length rx \<and> rx ! Suc cp \<noteq> 0 then skip rx (Suc cp) else Suc cp)"
  by auto
termination by (relation "measure (\<lambda>(rx, cp). length rx - cp)") auto

declare skip.simps [simp del]

lemma skip_greater: "cp < skip rx cp"
proof (induction rx cp rule: skip.induct)
  case (1 rx cp)
  then show ?case by (subst skip.simps) (auto intro: less_trans [OF lessI])
qed

text \<open>The local variables of \<^verbatim>\<open>tftp\<close>.\<close>

record locals =
  argn :: nat
  l_mode :: nat
  l_opt :: nat
  l_val :: nat
  l_file :: "cfile option"
  l_path :: path
  l_ack :: "byte list"
  l_opts :: opts

definition string_at :: "byte list \<Rightarrow> nat \<Rightarrow> str" where
  "string_at rx p = cstr (drop p rx)"

definition finish :: "u16 \<Rightarrow> locals \<Rightarrow> verdict" where
  "finish op s =
     (if op = RRQ then Done EBADOP (l_file s) (l_path s) [] (l_opts s)
      else Done 0 (l_file s) (l_path s)
             (if argn s > 2 then l_ack s
              else if argn s = 2 then []
              else l_ack s @ replicate (PKTSIZE - length (l_ack s)) 0)
             (l_opts s))"

function args_loop :: "env \<Rightarrow> byte list \<Rightarrow> u16 \<Rightarrow> nat \<Rightarrow> locals \<Rightarrow> verdict" where
  "args_loop e rx op cp s =
     (if \<not> (cp < length rx \<and> rx ! cp \<noteq> 0) then finish op s
      else let cp = skip rx cp; n = argn s + 1; s = s\<lparr>argn := n\<rparr> in
      if char_at e rx cp \<noteq> 0 then Done EBADOP (l_file s) (l_path s) [] (l_opts s)
      else if n = 1 then args_loop e rx op (cp + 1) (s\<lparr>l_mode := cp + 1\<rparr>)
      else if n = 2
      then (if map_of formats (map c_tolower (string_at rx (l_mode s))) = None
            then Done EBADOP (l_file s) (l_path s) [] (l_opts s)
            else (case validate_access e (string_at rx 2) op of
                    (Inl ecode, path) \<Rightarrow>
                      Done (if suppress_error \<and> take 1 (string_at rx 2) \<noteq> [SLASH] \<and> ecode = ENOTFOUND
                            then 0 else ecode) None path [] (l_opts s)
                  | (Inr f, path) \<Rightarrow>
                      args_loop e rx op (cp + 1) (s\<lparr>l_file := Some f, l_path := path, l_opt := cp + 1\<rparr>)))
      else if odd n then args_loop e rx op (cp + 1) (s\<lparr>l_val := cp + 1\<rparr>)
      else (case do_opt (string_at rx (l_opt s)) (string_at rx (l_val s)) (l_opts s, l_ack s) of
              None \<Rightarrow> Smash
            | Some (o', a) \<Rightarrow> args_loop e rx op (cp + 1) (s\<lparr>l_opts := o', l_ack := a, l_opt := cp + 1\<rparr>)))"
  by auto
termination
proof (relation "measure (\<lambda>(e, rx, op, cp, s). length rx - cp)", goal_cases)
  case 1
  show ?case by simp
qed (use skip_greater in \<open>force simp: less_diff_conv2 intro: diff_less_mono2 less_trans\<close>)+

declare args_loop.simps [simp del]

definition tftp :: "env \<Rightarrow> byte list \<Rightarrow> verdict" where
  "tftp e rx =
     (if \<not> e_mkdir e default_dir then Raises
      else if length rx < TFTP_HEADER then Asserts
      else let op = net_short rx 0 in
      if op \<noteq> RRQ \<and> op \<noteq> WRQ then Done EBADID None [] [] init_opt
      else args_loop e rx op 2
             \<lparr>argn = 0, l_mode = 0, l_opt = 0, l_val = 0, l_file = None, l_path = [],
              l_ack = [hi_byte OACK, lo_byte OACK], l_opts = init_opt\<rparr>)"

section \<open>Walking through a request\<close>

definition oack_header :: "byte list" where "oack_header = [hi_byte OACK, lo_byte OACK]"

lemma skip_string:
  "drop p rx = c # w @ 0 # rest \<Longrightarrow> 0 \<notin> set w \<Longrightarrow> skip rx p = p + Suc (length w)"
proof (induction w arbitrary: p c)
  case Nil
  then have "drop (Suc p) rx = 0 # rest" by (simp add: drop_Suc drop_tl)
  then have "Suc p < length rx \<and> rx ! Suc p = 0" by (metis Cons_nth_drop_Suc drop_eq_Nil leI list.distinct(1) list.inject)
  then show ?case by (subst skip.simps) simp
next
  case (Cons d w)
  then have d: "drop (Suc p) rx = d # w @ 0 # rest" by (simp add: drop_Suc drop_tl)
  then have "Suc p < length rx \<and> rx ! Suc p = d" by (metis Cons_nth_drop_Suc drop_eq_Nil leI list.distinct(1) list.inject)
  with Cons.prems(2) Cons.IH [OF d] show ?case by (subst skip.simps) auto
qed

lemma at_string:
  assumes "drop p rx = w @ 0 # rest" "w \<noteq> []" "0 \<notin> set w"
  shows "p < length rx \<and> rx ! p \<noteq> 0" "skip rx p = p + length w" "char_at e rx (p + length w) = 0"
    "drop (Suc (p + length w)) rx = rest" "string_at rx p = w"
proof -
  obtain c v where w: "w = c # v" using assms(2) by (cases w) auto
  with assms skip_string [of p rx c v rest] show "skip rx p = p + length w" by simp
  show "p < length rx \<and> rx ! p \<noteq> 0"
    using assms w by (metis Cons_nth_drop_Suc append_Cons drop_eq_Nil leI list.distinct(1) list.inject list.set_intros(1))
  have d: "drop (p + length w) rx = 0 # rest" using assms(1) by (metis add.commute append_eq_conv_conj drop_drop)
  then show "char_at e rx (p + length w) = 0"
    by (metis Cons_nth_drop_Suc char_at_def drop_eq_Nil leI list.distinct(1) list.inject)
  from d show "drop (Suc (p + length w)) rx = rest" by (metis drop_Suc drop_tl list.sel(3))
  from assms show "string_at rx p = w" by (simp add: string_at_def cstr_append_nul)
qed

lemma args_end: "drop cp rx = [] \<Longrightarrow> args_loop e rx op cp s = finish op s"
  by (subst args_loop.simps) simp

text \<open>One turn of the loop at a string, by the number of strings before it.\<close>

lemma args_turn:
  assumes "drop cp rx = w @ 0 # rest" "w \<noteq> []" "0 \<notin> set w"
  defines "q \<equiv> Suc (cp + length w)"
  shows "argn s = 0 \<Longrightarrow> args_loop e rx op cp s = args_loop e rx op q (s\<lparr>argn := 1, l_mode := q\<rparr>)"
    "argn s = Suc 0 \<Longrightarrow> args_loop e rx op cp s =
      (if map_of formats (map c_tolower (string_at rx (l_mode s))) = None
       then Done EBADOP (l_file s) (l_path s) [] (l_opts s)
       else (case validate_access e (string_at rx 2) op of
               (Inl ecode, path) \<Rightarrow> Done ecode None path [] (l_opts s)
             | (Inr f, path) \<Rightarrow>
                 args_loop e rx op q (s\<lparr>argn := 2, l_file := Some f, l_path := path, l_opt := q\<rparr>)))"
    "even (argn s) \<Longrightarrow> 2 \<le> argn s \<Longrightarrow>
      args_loop e rx op cp s = args_loop e rx op q (s\<lparr>argn := argn s + 1, l_val := q\<rparr>)"
    "odd (argn s) \<Longrightarrow> 2 \<le> argn s \<Longrightarrow> args_loop e rx op cp s =
      (case do_opt (string_at rx (l_opt s)) (string_at rx (l_val s)) (l_opts s, l_ack s) of
         None \<Rightarrow> Smash
       | Some (o', a) \<Rightarrow>
           args_loop e rx op q (s\<lparr>argn := argn s + 1, l_opts := o', l_ack := a, l_opt := q\<rparr>))"
proof -
  note at = at_string [OF assms(1-3)]
  note turn = args_loop.simps [of e rx op cp s] q_def at(1,2) at(3) [of e]
  show "argn s = 0 \<Longrightarrow> args_loop e rx op cp s = args_loop e rx op q (s\<lparr>argn := 1, l_mode := q\<rparr>)"
    by (simp add: turn Let_def)
  show "argn s = Suc 0 \<Longrightarrow> args_loop e rx op cp s =
      (if map_of formats (map c_tolower (string_at rx (l_mode s))) = None
       then Done EBADOP (l_file s) (l_path s) [] (l_opts s)
       else (case validate_access e (string_at rx 2) op of
               (Inl ecode, path) \<Rightarrow> Done ecode None path [] (l_opts s)
             | (Inr f, path) \<Rightarrow>
                 args_loop e rx op q (s\<lparr>argn := 2, l_file := Some f, l_path := path, l_opt := q\<rparr>)))"
    by (auto simp: turn Let_def suppress_error_def numeral_2_eq_2 split: prod.split sum.split)
  show "even (argn s) \<Longrightarrow> 2 \<le> argn s \<Longrightarrow>
      args_loop e rx op cp s = args_loop e rx op q (s\<lparr>argn := argn s + 1, l_val := q\<rparr>)"
    by (auto simp: turn Let_def)
  show "odd (argn s) \<Longrightarrow> 2 \<le> argn s \<Longrightarrow> args_loop e rx op cp s =
      (case do_opt (string_at rx (l_opt s)) (string_at rx (l_val s)) (l_opts s, l_ack s) of
         None \<Rightarrow> Smash
       | Some (o', a) \<Rightarrow>
           args_loop e rx op q (s\<lparr>argn := argn s + 1, l_opts := o', l_ack := a, l_opt := q\<rparr>))"
    by (auto simp: turn Let_def split: option.split)
qed

definition well_formed :: "(str \<times> str) list \<Rightarrow> bool" where
  "well_formed ovs \<longleftrightarrow> (\<forall>(opt, val)\<in>set ovs. opt \<noteq> [] \<and> val \<noteq> [] \<and> 0 \<notin> set opt \<and> 0 \<notin> set val)"

text \<open>The answer to a request whose file was opened.\<close>

definition answered :: "u16 \<Rightarrow> cfile option \<Rightarrow> path \<Rightarrow> bool \<Rightarrow> (opts \<times> byte list) option \<Rightarrow> verdict" where
  "answered op f p oack r =
     (case r of
        None \<Rightarrow> Smash
      | Some (o', a) \<Rightarrow> if op = RRQ then Done EBADOP f p [] o' else Done 0 f p (if oack then a else []) o')"

lemma args_options:
  assumes "drop cp rx = asked ovs" "well_formed ovs" "even (argn s)" "2 \<le> argn s" "l_opt s = cp"
  shows "args_loop e rx op cp s =
    answered op (l_file s) (l_path s) (ovs \<noteq> [] \<or> argn s \<noteq> 2) (do_opts ovs (l_opts s, l_ack s))"
  using assms
proof (induction ovs arbitrary: cp s)
  case Nil
  then show ?case by (auto simp: asked_def args_end finish_def answered_def)
next
  case (Cons ov ovs)
  obtain opt val where ov: "ov = (opt, val)" by (cases ov)
  have w: "opt \<noteq> []" "val \<noteq> []" "0 \<notin> set opt" "0 \<notin> set val" "well_formed ovs"
    using Cons.prems(2) by (auto simp: well_formed_def ov)
  have d: "drop cp rx = opt @ 0 # val @ 0 # asked ovs" using Cons.prems(1) by (simp add: asked_def ov)
  define q where "q = Suc (cp + length opt)"
  define r where "r = Suc (q + length val)"
  note at1 = at_string [OF d w(1,3), folded q_def]
  note at2 = at_string [OF at1(4) w(2,4), folded r_def]
  let ?s = "s\<lparr>argn := argn s + 1, l_val := q\<rparr>"
  have turn: "args_loop e rx op cp s =
      (case do_opt opt val (l_opts s, l_ack s) of
         None \<Rightarrow> Smash
       | Some (o', a) \<Rightarrow>
           args_loop e rx op r (?s\<lparr>argn := argn s + 2, l_opts := o', l_ack := a, l_opt := r\<rparr>))"
    using args_turn(3) [OF d w(1,3), folded q_def, of s] args_turn(4) [OF at1(4) w(2,4), folded r_def, of ?s]
      Cons.prems(3-5) at1(5) at2(5) by (simp cong: option.case_cong)
  show ?case
  proof (cases "do_opt opt val (l_opts s, l_ack s)")
    case None
    with turn ov show ?thesis by (simp add: answered_def)
  next
    case (Some oa)
    obtain o' a where "oa = (o', a)" by (cases oa)
    with turn Some ov Cons.IH [OF at2(4) w(5), of "?s\<lparr>argn := argn s + 2, l_opts := o', l_ack := a, l_opt := r\<rparr>"] Cons.prems(3,4)
    show ?thesis by simp
  qed
qed

text \<open>A request with options, and what the server makes of it.\<close>

definition request_opts :: "u16 \<Rightarrow> str \<Rightarrow> str \<Rightarrow> (str \<times> str) list \<Rightarrow> datagram" where
  "request_opts op name mode ovs = request_pkt op name mode @ asked ovs"

definition respond :: "env \<Rightarrow> u16 \<Rightarrow> str \<Rightarrow> str \<Rightarrow> (str \<times> str) list \<Rightarrow> verdict" where
  "respond e op name mode ovs =
     (if \<not> e_mkdir e default_dir then Raises
      else if map c_tolower mode \<noteq> cbytes ''octet'' then Done EBADOP None [] [] init_opt
      else case validate_access e name op of
             (Inl ecode, path) \<Rightarrow> Done ecode None path [] init_opt
           | (Inr f, path) \<Rightarrow>
               (let (s', acc) = negotiate ovs init_opt; ack = oack_header @ enc_opts acc
                in if PKTSIZE < length ack then Smash
                   else if op = RRQ then Done EBADOP (Some f) path [] s'
                   else Done 0 (Some f) path (if ovs = [] then [] else ack) s'))"

lemma tftp_request:
  assumes "op = RRQ \<or> op = WRQ" "name \<noteq> []" "mode \<noteq> []" "0 \<notin> set name" "0 \<notin> set mode" "well_formed ovs"
  shows "tftp e (request_opts op name mode ovs) = respond e op name mode ovs"
proof (cases "e_mkdir e default_dir")
  case True
  let ?rx = "request_opts op name mode ovs"
  have l: "TFTP_HEADER \<le> length ?rx" "net_short ?rx 0 = op"
    by (simp_all add: request_opts_def request_pkt_def size_defs net_short_def)
  have d: "drop 2 ?rx = name @ 0 # mode @ 0 # asked ovs"
    by (simp add: request_opts_def request_pkt_def)
  define q where "q = Suc (2 + length name)"
  define r where "r = Suc (q + length mode)"
  note at1 = at_string [OF d assms(2,4), folded q_def]
  note at2 = at_string [OF at1(4) assms(3,5), folded r_def]
  define s where "s = \<lparr>argn = 0, l_mode = 0, l_opt = 0, l_val = 0, l_file = None, l_path = [],
    l_ack = oack_header, l_opts = init_opt\<rparr>"
  define s1 where "s1 = s\<lparr>argn := 1, l_mode := q\<rparr>"
  have s1: "argn s1 = Suc 0" "l_mode s1 = q" "l_file s1 = None" "l_path s1 = []" "l_opts s1 = init_opt"
    "l_ack s1 = oack_header"
    by (simp_all add: s1_def s_def)
  have t: "tftp e ?rx = args_loop e ?rx op 2 s"
    using l assms(1) True by (auto simp: tftp_def s_def oack_header_def)
  have turn: "tftp e ?rx =
      (if map_of formats (map c_tolower mode) = None then Done EBADOP None [] [] init_opt
       else (case validate_access e name op of
               (Inl ecode, path) \<Rightarrow> Done ecode None path [] init_opt
             | (Inr f, path) \<Rightarrow>
                 args_loop e ?rx op r (s1\<lparr>argn := 2, l_file := Some f, l_path := path, l_opt := r\<rparr>)))"
    using args_turn(1) [OF d assms(2,4), folded q_def, of s e op, folded s1_def]
      args_turn(2) [OF at1(4) assms(3,5), folded r_def, of s1 e op]
    unfolding t s1 at1(5) at2(5) by (simp add: s_def)
  have opt: "args_loop e ?rx op r (s1\<lparr>argn := 2, l_file := Some f, l_path := path, l_opt := r\<rparr>) =
      answered op (Some f) path (ovs \<noteq> []) (do_opts ovs (init_opt, oack_header))" for f path
    by (subst args_options [OF at2(4) assms(6)]) (simp_all add: s1)
  have "length oack_header \<le> PKTSIZE" by (simp add: oack_header_def size_defs)
  from do_opts_negotiate [OF this, of ovs init_opt] show ?thesis
    unfolding turn respond_def opt using True
    by (auto simp: answered_def formats_def Let_def split: prod.split sum.split)
qed (simp add: tftp_def respond_def)

section \<open>Where uploads go\<close>

lemma comps_plain: "SLASH \<notin> set b \<Longrightarrow> comps b = [b]"
  by (induction b) auto

lemma stripped_not_climbs:
  assumes "\<not> climbs name"
  shows "\<not> climbs (dropWhile (\<lambda>c. c = SLASH) name)"
proof
  let ?rel = "dropWhile (\<lambda>c. c = SLASH) name"
  have n: "name = takeWhile (\<lambda>c. c = SLASH) name @ ?rel" by simp
  assume "climbs ?rel"
  then consider "prefix [DOT, DOT, SLASH] ?rel" | "sublist [SLASH, DOT, DOT, SLASH] ?rel"
    by (auto simp: climbs_def)
  then show False
  proof cases
    case 1
    then obtain z where z: "?rel = [DOT, DOT, SLASH] @ z" by (auto simp: prefix_def)
    show False
    proof (cases "takeWhile (\<lambda>c. c = SLASH) name" rule: rev_cases)
      case Nil
      with n 1 assms show False by (simp add: climbs_def)
    next
      case (snoc u c)
      then have "c = SLASH" by (metis in_set_conv_decomp set_takeWhileD)
      with snoc n z have "name = u @ [SLASH, DOT, DOT, SLASH] @ z" by simp
      then show False using assms by (auto simp: climbs_def sublist_def)
    qed
  next
    case 2
    then obtain y z where "?rel = y @ [SLASH, DOT, DOT, SLASH] @ z" by (auto simp: sublist_def)
    with n have "name = (takeWhile (\<lambda>c. c = SLASH) name @ y) @ [SLASH, DOT, DOT, SLASH] @ z" by simp
    then have "sublist [SLASH, DOT, DOT, SLASH] name" unfolding sublist_def by blast
    with assms show False by (simp add: climbs_def)
  qed
qed

text \<open>The name an upload is written to, and where the components of that name lead.\<close>

definition upload_suffix :: path where "upload_suffix = cbytes ''.upload''"

lemma upload_walk:
  assumes "\<not> climbs name"
  shows "prefix base (walk base (comps (dropWhile (\<lambda>c. c = SLASH) name @ upload_suffix)))"
proof -
  let ?rel = "dropWhile (\<lambda>c. c = SLASH) name"
  have "SLASH \<notin> set upload_suffix" by (simp add: upload_suffix_def cbytes_def SLASH_def)
  then have c: "comps (?rel @ upload_suffix) = butlast (comps ?rel) @ [last (comps ?rel) @ upload_suffix]"
    by (simp add: comps_append comps_plain)
  have "length (last (comps ?rel) @ upload_suffix) \<noteq> length [DOT, DOT]" by (simp add: upload_suffix_def)
  then have "last (comps ?rel) @ upload_suffix \<noteq> [DOT, DOT]" by metis
  with not_climbs_comps [OF stripped_not_climbs [OF assms]] show ?thesis
    unfolding c by (intro walk_stays) auto
qed

lemma open_file_Inr: "open_file e p mode = Inr f \<Longrightarrow> e_open e p (mode \<noteq> RRQ) = Inr f"
  by (auto simp: open_file_def split: sum.splits option.splits)

lemma validate_access_refuses:
  "climbs name \<or> \<not> e_chdir e (g_rootdir e) \<Longrightarrow> validate_access e name mode = (Inl EACCESS, name)"
  by (simp add: validate_access_def climbs_def secure_tftp_def) blast

lemma validate_access_Inr:
  assumes "validate_access e name mode = (Inr f, path)"
  shows "\<not> climbs name \<and> path = g_rootdir e @ SLASH # dropWhile (\<lambda>c. c = SLASH) name \<and>
    e_open e (if mode = RRQ then path else path @ upload_suffix) (mode \<noteq> RRQ) = Inr f"
proof (cases "climbs name \<or> \<not> e_chdir e (g_rootdir e)")
  case True
  with assms validate_access_refuses show ?thesis by force
next
  case False
  let ?path = "g_rootdir e @ SLASH # dropWhile (\<lambda>c. c = SLASH) name"
  have "validate_access e name mode =
    (case e_stat e ?path of
       Inl err \<Rightarrow> if mode = RRQ then Inl (if err = ENOENT then ENOTFOUND else EACCESS)
                 else open_file e (?path @ upload_suffix) mode
     | Inr st_mode \<Rightarrow>
         if mode = RRQ then (if st_mode AND S_IROTH = 0 then Inl EACCESS else open_file e ?path mode)
         else open_file e (?path @ upload_suffix) mode, ?path)"
    using False
    by (simp add: validate_access_def climbs_def Let_def secure_tftp_def allow_create_def upload_suffix_def
        split: sum.split)
  with assms False show ?thesis by (auto dest: open_file_Inr split: sum.splits if_splits)
qed

definition placed :: "env \<Rightarrow> byte list \<Rightarrow> u16 \<Rightarrow> cfile option \<Rightarrow> path \<Rightarrow> bool" where
  "placed e rx op fo path \<longleftrightarrow>
     (\<forall>f. fo = Some f \<longrightarrow>
        \<not> climbs (string_at rx 2) \<and> path = g_rootdir e @ SLASH # dropWhile (\<lambda>c. c = SLASH) (string_at rx 2) \<and>
        e_open e (if op = RRQ then path else path @ upload_suffix) (op \<noteq> RRQ) = Inr f)"

definition seg_ok :: "opts \<Rightarrow> bool" where
  "seg_ok os \<longleftrightarrow> 8 \<le> unat (g_segsize os) \<and> unat (g_segsize os) \<le> MAXSEGSIZE"

definition ack_ok :: "byte list \<Rightarrow> bool" where
  "ack_ok a \<longleftrightarrow> length a \<le> PKTSIZE \<and> take 2 a = oack_header"

definition sane :: "env \<Rightarrow> byte list \<Rightarrow> u16 \<Rightarrow> locals \<Rightarrow> bool" where
  "sane e rx op s \<longleftrightarrow> placed e rx op (l_file s) (l_path s) \<and> ack_ok (l_ack s) \<and> seg_ok (l_opts s)"

definition sane_done :: "env \<Rightarrow> byte list \<Rightarrow> u16 \<Rightarrow> int \<Rightarrow> cfile option \<Rightarrow> path \<Rightarrow> byte list \<Rightarrow> opts \<Rightarrow> bool" where
  "sane_done e rx op c fo path ack os \<longleftrightarrow>
     placed e rx op fo path \<and> (ack = [] \<or> ack_ok ack) \<and> seg_ok os \<and> (c = 0 \<and> fo \<noteq> None \<longrightarrow> op \<noteq> RRQ)"

lemma seg_ok_init: "seg_ok init_opt"
  by (simp add: seg_ok_def init_opt_def default_blksize_def size_defs)

lemma do_opt_sane:
  assumes "do_opt opt val (s, ack) = Some (s', ack')" "ack_ok ack" "seg_ok s"
  shows "ack_ok ack' \<and> seg_ok s'"
proof (cases "accept_opt (opt, val) s")
  case None
  with assms show ?thesis by (simp add: do_opt_accept)
next
  case (Some vs)
  then obtain v s1 where vs: "accept_opt (opt, val) s = Some (v, s1)" by (cases vs) auto
  with assms(1) have r: "s' = s1" "ack' = ack @ enc_opt opt v" "length ack' \<le> PKTSIZE"
    by (auto simp: do_opt_accept split: if_splits)
  obtain f w where f: "find_option opt = Some f" "f w s = Some (v, s1)"
    using accept_opt_cases [OF vs] by blast
  have "seg_ok s1"
    using find_option_cases [OF f(1)] other_options [of f w s v s1] size_options [of f w s v s1] f(2) assms(3)
    by (auto simp: seg_ok_def)
  moreover have "2 \<le> length ack" using assms(2) by (auto simp: ack_ok_def oack_header_def dest: arg_cong [where f = length])
  ultimately show ?thesis using r assms(2) by (simp add: ack_ok_def)
qed

lemma finish_sane:
  assumes "finish op s = Done c fo path ack os" "sane e rx op s"
  shows "sane_done e rx op c fo path ack os"
proof -
  have "2 \<le> length (l_ack s)"
    using assms(2) by (auto simp: sane_def ack_ok_def oack_header_def dest: arg_cong [where f = length])
  with assms show ?thesis by (auto simp: finish_def sane_def sane_done_def ack_ok_def ecode_defs split: if_splits)
qed

lemma args_loop_sane:
  assumes "args_loop e rx op cp s = Done c fo path ack os" "sane e rx op s"
  shows "sane_done e rx op c fo path ack os"
  using assms
proof (induction "length rx - cp" arbitrary: cp s rule: less_induct)
  case less
  define q where "q = skip rx cp"
  define n where "n = argn s + 1"
  have ih: "args_loop e rx op (q + 1) s' = Done c fo path ack os \<Longrightarrow> sane e rx op s' \<Longrightarrow> cp < length rx \<Longrightarrow>
      sane_done e rx op c fo path ack os" for s'
    using less.hyps [of "q + 1" s'] skip_greater [of cp rx] by (auto simp: q_def)
  have good: "placed e rx op (l_file s) (l_path s)" "ack_ok (l_ack s)" "seg_ok (l_opts s)"
    using less.prems(2) by (simp_all add: sane_def)
  note run = less.prems(1) [unfolded args_loop.simps [of e rx op cp s], folded q_def n_def]
  consider "\<not> (cp < length rx \<and> rx ! cp \<noteq> 0)" | "cp < length rx" "rx ! cp \<noteq> 0" "char_at e rx q \<noteq> 0"
    | "cp < length rx" "rx ! cp \<noteq> 0" "char_at e rx q = 0" "n = 1 \<or> n \<noteq> 2 \<and> odd n"
    | "cp < length rx" "rx ! cp \<noteq> 0" "char_at e rx q = 0" "n = 2"
    | "cp < length rx" "rx ! cp \<noteq> 0" "char_at e rx q = 0" "n \<noteq> 1" "n \<noteq> 2" "even n"
    by blast
  then show ?case
  proof cases
    case 1
    with run finish_sane [OF _ less.prems(2)] show ?thesis by simp
  next
    case 2
    with run good show ?thesis by (auto simp: Let_def q_def n_def ecode_defs sane_done_def)
  next
    case 3
    with run good show ?thesis
      by (intro ih [of "if n = 1 then s\<lparr>argn := n, l_mode := q + 1\<rparr> else s\<lparr>argn := n, l_val := q + 1\<rparr>"])
        (auto simp: Let_def q_def n_def sane_def split: if_splits)
  next
    case 4
    obtain r p where v: "validate_access e (string_at rx 2) op = (r, p)" by fastforce
    show ?thesis
    proof (cases "map_of formats (map c_tolower (string_at rx (l_mode s))) = None \<or> isl r")
      case True
      then show ?thesis using 4 run good v
        by (auto simp: Let_def q_def n_def ecode_defs placed_def sane_done_def isl_def split: if_splits)
    next
      case False
      then obtain f where f: "r = Inr f" by (cases r) auto
      have "placed e rx op (Some f) p" using validate_access_Inr [OF v [unfolded f]] by (auto simp: placed_def)
      with False f v 4 run good show ?thesis
        by (intro ih [of "s\<lparr>argn := n, l_file := Some f, l_path := p, l_opt := q + 1\<rparr>"])
          (auto simp: Let_def q_def n_def sane_def split: if_splits)
    qed
  next
    case 5
    obtain o' a where o: "do_opt (string_at rx (l_opt s)) (string_at rx (l_val s)) (l_opts s, l_ack s) = Some (o', a)"
      using run 5 by (cases "do_opt (string_at rx (l_opt s)) (string_at rx (l_val s)) (l_opts s, l_ack s)")
        (auto simp: Let_def)
    from do_opt_sane [OF o good(2,3)] 5 run good o show ?thesis
      by (intro ih [of "s\<lparr>argn := n, l_opts := o', l_ack := a, l_opt := q + 1\<rparr>"])
        (auto simp: Let_def q_def n_def sane_def)
  qed
qed

lemma tftp_without_mode:
  assumes "name \<noteq> []" "0 \<notin> set name" "e_mkdir e default_dir"
  shows "tftp e ([hi_byte WRQ, lo_byte WRQ] @ name @ [0]) =
    Done 0 None [] (oack_header @ replicate (PKTSIZE - 2) 0) init_opt"
proof -
  let ?rx = "[hi_byte WRQ, lo_byte WRQ] @ name @ [0]"
  have d: "drop 2 ?rx = name @ 0 # []" by simp
  have l: "TFTP_HEADER \<le> length ?rx" "net_short ?rx 0 = WRQ"
    using assms(1) by (cases name; simp add: size_defs net_short_def)+
  define q where "q = Suc (2 + length name)"
  note at = at_string [OF d assms(1,2), folded q_def]
  show ?thesis
    using l assms(3) args_turn(1) [OF d assms(1,2), folded q_def] args_end [OF at(4)]
    by (simp add: tftp_def finish_def oack_header_def)
qed

lemma tftp_sane_any:
  assumes "tftp e rx = Done c fo path ack os"
  shows "sane_done e rx (net_short rx 0) c fo path ack os"
proof (cases "net_short rx 0 = RRQ \<or> net_short rx 0 = WRQ")
  case True
  let ?s = "\<lparr>argn = 0, l_mode = 0, l_opt = 0, l_val = 0, l_file = None, l_path = [],
    l_ack = [hi_byte OACK, lo_byte OACK], l_opts = init_opt\<rparr>"
  from assms True have a: "args_loop e rx (net_short rx 0) 2 ?s = Done c fo path ack os"
    by (auto simp: tftp_def Let_def split: if_splits)
  have "sane e rx (net_short rx 0) ?s"
    by (simp add: sane_def placed_def ack_ok_def oack_header_def seg_ok_init size_defs)
  from args_loop_sane [OF a this] show ?thesis .
next
  case False
  with assms show ?thesis
    by (auto simp: tftp_def Let_def sane_done_def placed_def seg_ok_init split: if_splits)
qed

lemma tftp_sane:
  assumes "tftp e rx = Done c (Some f) path ack os"
  shows "sane_done e rx (net_short rx 0) c (Some f) path ack os \<and> (c = 0 \<longrightarrow> net_short rx 0 = WRQ)"
proof -
  have "net_short rx 0 = RRQ \<or> net_short rx 0 = WRQ"
    using assms by (auto simp: tftp_def Let_def split: if_splits)
  with tftp_sane_any [OF assms] show ?thesis by (auto simp: sane_done_def)
qed

section \<open>Properties\<close>

text \<open>
  C17: a request made of a file name, a mode and options is answered as its parts say: a
  mode other than octet and every access error refuse it without an option in effect, a
  read request is refused after its file was opened, and a write request gets the
  acknowledgement of exactly the options that were accepted (an empty one when none was).
\<close>

theorem async_request_answered:
  assumes "op = RRQ \<or> op = WRQ" "name \<noteq> []" "mode \<noteq> []" "0 \<notin> set name" "0 \<notin> set mode" "well_formed ovs"
  shows "tftp e (request_opts op name mode ovs) = respond e op name mode ovs"
  using assms by (rule tftp_request)

definition demo_env :: "cfile \<Rightarrow> env" where
  "demo_env f = \<lparr>g_rootdir = cbytes ''/tmp/tftpboot'', e_chdir = \<lambda>_. True, e_stat = \<lambda>_. Inl ENOENT,
     e_open = \<lambda>_ _. Inr f, e_fdopen = \<lambda>_. None, e_mkdir = \<lambda>_. True, e_rename = \<lambda>_ _. True, stray = 0\<rparr>"

lemma demo_mkdir: "e_mkdir (demo_env f) d"
  by (simp add: demo_env_def)

lemma demo_access:
  "validate_access (demo_env f) (cbytes ''/a'') WRQ = (Inr f, cbytes ''/tmp/tftpboot/a'')"
  by (simp add: validate_access_def demo_env_def secure_tftp_def allow_create_def open_file_def cbytes_def
      sublist_code SLASH_def DOT_def)

lemma demo_names:
  "cbytes ''/a'' \<noteq> []" "0 \<notin> set (cbytes ''/a'')" "cbytes ''Octet'' \<noteq> []" "0 \<notin> set (cbytes ''Octet'')"
  "map c_tolower (cbytes ''Octet'') = cbytes ''octet''"
  by (simp_all add: cbytes_def c_tolower_def c_isupper_def)

lemma demo_respond:
  "negotiate ovs init_opt = (s', acc) \<Longrightarrow> length (enc_opts acc) \<le> 500 \<Longrightarrow>
   respond (demo_env f) WRQ (cbytes ''/a'') (cbytes ''Octet'') ovs =
     Done 0 (Some f) (cbytes ''/tmp/tftpboot/a'') (if ovs = [] then [] else oack_header @ enc_opts acc) s'"
  by (simp add: respond_def demo_mkdir demo_access demo_names oack_header_def size_defs)

lemma demo_ignored: "negotiate [(cbytes ''x'', cbytes ''1'')] init_opt = (init_opt, [])"
  by (simp add: accept_opt_def find_option_def options_def cbytes_def c_tolower_def c_isupper_def split: prod.split)

theorem async_request_answered_witness:
  "tftp (demo_env (open_trunc None)) (request_opts WRQ (cbytes ''/a'') (cbytes ''Octet'') [(cbytes ''x'', cbytes ''1'')]) =
    Done 0 (Some (open_trunc None)) (cbytes ''/tmp/tftpboot/a'') oack_header init_opt"
proof -
  have w: "well_formed [(cbytes ''x'', cbytes ''1'')]" by (simp add: well_formed_def cbytes_def)
  show ?thesis
    using async_request_answered [OF _ demo_names(1,3,2,4) w, of WRQ "demo_env (open_trunc None)"] demo_respond [OF demo_ignored, of "open_trunc None"]
    by (simp add: enc_opts_def)
qed

text \<open>
  C18: when \<^verbatim>\<open>tftp()\<close> accepts a request, it was a write request, and the file the server takes the upload into is the name
  that stands behind the opcode, less its leading slashes, below the root directory and with \<^verbatim>\<open>.upload\<close> behind it; the path to it
  leads to no place outside the root directory.  The acknowledgement it returns fits the buffer it is sent from.  (A request
  can also keep \<^verbatim>\<open>tftp()\<close> from returning: see \<open>async_request_overflows\<close>.)
\<close>

theorem async_upload_inside:
  assumes "tftp e rx = Done 0 (Some f) path ack os"
  shows "net_short rx 0 = WRQ \<and> length ack \<le> PKTSIZE \<and>
    path = g_rootdir e @ SLASH # dropWhile (\<lambda>c. c = SLASH) (cstr (drop 2 rx)) \<and> e_open e (path @ upload_suffix) True = Inr f \<and>
    prefix (walk [] (comps (g_rootdir e))) (walk [] (comps (path @ upload_suffix)))"
proof -
  let ?rel = "dropWhile (\<lambda>c. c = SLASH) (cstr (drop 2 rx))"
  from tftp_sane [OF assms] have t: "net_short rx 0 = WRQ" "length ack \<le> PKTSIZE" "\<not> climbs (cstr (drop 2 rx))"
    "path = g_rootdir e @ SLASH # ?rel" "e_open e (path @ upload_suffix) True = Inr f"
    by (auto simp: sane_done_def placed_def ack_ok_def string_at_def)
  have "comps (path @ upload_suffix) = comps (g_rootdir e) @ comps (?rel @ upload_suffix)"
    using comps_append [of "g_rootdir e" "SLASH # ?rel @ upload_suffix"] by (simp add: t(4))
  with t upload_walk [OF t(3)] show ?thesis by (simp add: walk_append)
qed

definition demo_request :: datagram where
  "demo_request = request_opts WRQ (cbytes ''/a'') (cbytes ''Octet'') []"

lemma demo_tftp:
  "tftp (demo_env f) demo_request = Done 0 (Some f) (cbytes ''/tmp/tftpboot/a'') [] init_opt"
  "take PKTSIZE demo_request = demo_request" "demo_request \<noteq> []"
proof -
  show "tftp (demo_env f) demo_request = Done 0 (Some f) (cbytes ''/tmp/tftpboot/a'') [] init_opt"
    using tftp_request [OF _ demo_names(1,3,2,4), of WRQ "[]" "demo_env f"] demo_respond [of "[]" init_opt "[]" f]
    by (simp add: demo_request_def well_formed_def enc_opts_def)
  show "take PKTSIZE demo_request = demo_request" "demo_request \<noteq> []"
    by (simp_all add: demo_request_def request_opts_def request_pkt_def asked_def size_defs)
qed

theorem async_upload_inside_witness:
  "prefix (walk [] (comps (cbytes ''/tmp/tftpboot''))) (walk [] (comps (cbytes ''/tmp/tftpboot/a'' @ upload_suffix)))"
proof -
  have "g_rootdir (demo_env (open_trunc None)) = cbytes ''/tmp/tftpboot''" by (simp add: demo_env_def)
  with async_upload_inside [OF demo_tftp(1) [of "open_trunc None"]] show ?thesis by argo
qed

text \<open>
  C33: a write request that fits into the packet buffer can make the server write behind the
  end of its acknowledgement: a \<^verbatim>\<open>tsize\<close> of 20 digits followed by 19 times \<^verbatim>\<open>tsize\<close> 0, each of
  which is answered with the 20 digits.
\<close>

theorem async_request_overflows:
  assumes "name \<noteq> []" "0 \<notin> set name" "length name \<le> 300" "e_mkdir e default_dir" "validate_access e name WRQ = (Inr f, path)"
  shows "length (request_opts WRQ name (cbytes ''octet'') (growing 19)) \<le> PKTSIZE \<and>
    tftp e (request_opts WRQ name (cbytes ''octet'') (growing 19)) = Smash"
proof -
  have w: "well_formed (growing 19)" by (auto simp: well_formed_def growing_def cbytes_def)
  have l: "length (request_opts WRQ name (cbytes ''octet'') (growing 19)) = 188 + length name"
    using growing_sizes(1) [of 19] by (simp add: request_opts_def request_pkt_def)
  have e: "PKTSIZE < length (oack_header @ enc_opts (replicate (Suc 19) (cbytes ''tsize'', - 1)))"
    using growing_sizes(2) [of 19] by (simp only: length_append) (simp add: oack_header_def size_defs)
  have "tftp e (request_opts WRQ name (cbytes ''octet'') (growing 19)) =
      respond e WRQ name (cbytes ''octet'') (growing 19)"
    using assms(1,2) w by (intro tftp_request) (simp_all add: cbytes_def)
  also have "\<dots> = Smash"
    unfolding respond_def negotiate_growing Let_def prod.case using assms(4,5) e
    by (simp add: c_tolower_def c_isupper_def cbytes_def del: replicate_Suc)
  finally show ?thesis using assms(3) l by (simp add: size_defs)
qed

theorem async_request_overflows_witness:
  "tftp (demo_env (open_trunc None)) (request_opts WRQ (cbytes ''/a'') (cbytes ''octet'') (growing 19)) = Smash"
  using async_request_overflows [OF _ _ _ _ demo_access [of "open_trunc None"]] by (simp add: cbytes_def demo_env_def)

end
