(* ===== verification/Async_Subs.thy ===== *)
theory Async_Subs
  imports Tftp_Subs
begin

text \<open>
  \<^verbatim>\<open>tftp_subs.cpp\<close>: the write-behind routines of the C++ server.  The static variables
  are those of the C file, with buffers of \<^verbatim>\<open>MAXPKTSIZE\<close> bytes, so their record is shared
  with \<^verbatim>\<open>tftpsubs.c\<close>; an index is a truth value, as \<^verbatim>\<open>(i + 1) % max_buffer\<close> is the other
  of two buffers.  Unlike the C routines these report what \<^verbatim>\<open>write\<close> returned.
  A null \<^verbatim>\<open>FILE *\<close> is \<open>None\<close>: passing it to \<^verbatim>\<open>fileno\<close> is the outcome \<open>None\<close>.
  The read-ahead half is compiled out, and so is the conversion (\<^verbatim>\<open>USE_CONVERT\<close>).
\<close>

section \<open>Operations\<close>

definition bfs_start :: subs where
  "bfs_start = \<lparr>bfs = (\<lambda>_. \<lparr>counter = 0, bbuf = replicate MAXPKTSIZE 0\<rparr>), nextone = False,
     current = False, newline = False, prevchar = -1, errno = 0\<rparr>"

definition rw_init :: "bool \<Rightarrow> subs \<Rightarrow> bool \<times> subs" where
  "rw_init x s =
     (let s1 = s\<lparr>newline := False, prevchar := -1\<rparr>;
          s2 = (set_counter False BF_ALLOC s1)\<lparr>current := False\<rparr>;
          s3 = (set_counter True BF_FREE s2)\<lparr>nextone := x\<rparr>
      in (False, s3))"

definition write_behind :: "cfile option \<times> subs \<Rightarrow> (int \<times> cfile option \<times> subs) option" where
  "write_behind fs =
     (let (file, s) = fs; i = nextone s; b = bfs s i
      in if counter b < -1 then Some (0, file, s)
         else let count = counter b;
                  s1 = (set_counter i BF_FREE s)\<lparr>nextone := \<not> i\<rparr>;
                  buf = take (nat count) (drop 4 (bbuf b))
              in if count < 0 then Some (-1, file, s1)
                 else case file of
                        None \<Rightarrow> None
                      | Some f \<Rightarrow>
                          (case sys_write f buf of
                             (Inl e, f') \<Rightarrow> Some (-1, Some f', s1\<lparr>errno := e\<rparr>)
                           | (Inr n, f') \<Rightarrow> Some (int n, Some f', s1)))"

definition writeit :: "nat \<Rightarrow> cfile option \<times> subs \<Rightarrow> (int \<times> bool \<times> cfile option \<times> subs) option" where
  "writeit count fs =
     (let (file, s) = fs;
          s1 = set_counter (current s) (int count) s;
          i = (\<not> current s);
          s2 = s1\<lparr>current := i\<rparr>
      in case (if counter (bfs s2 i) \<noteq> BF_FREE then write_behind (file, s2) else Some (int count, file, s2)) of
           None \<Rightarrow> None
         | Some (written, file', s3) \<Rightarrow> Some (written, i, file', set_counter i BF_ALLOC s3))"

section \<open>One block at a time\<close>

text \<open>
  Between two blocks the server has flushed everything: the buffer in use is the next to be
  written and the other one is free.
\<close>

definition drained :: "subs \<Rightarrow> bool" where
  "drained s \<longleftrightarrow> nextone s = current s \<and> counter (bfs s (current s)) = BF_ALLOC \<and>
     counter (bfs s (\<not> current s)) = BF_FREE \<and> length (bbuf (bfs s False)) = MAXPKTSIZE \<and>
     length (bbuf (bfs s True)) = MAXPKTSIZE"

lemma drained_len: "drained s \<Longrightarrow> length (bbuf (bfs s i)) = MAXPKTSIZE"
  by (cases i) (simp_all add: drained_def)

lemma drained_init:
  "length (bbuf (bfs s False)) = MAXPKTSIZE \<Longrightarrow> length (bbuf (bfs s True)) = MAXPKTSIZE \<Longrightarrow>
   rw_init False s = (i, s') \<Longrightarrow> drained s' \<and> i = current s'"
  by (auto simp: rw_init_def drained_def Let_def bf_simps)

lemma drained_set_bbuf:
  "drained s \<Longrightarrow> length b = MAXPKTSIZE \<Longrightarrow> drained (set_bbuf i b s)"
  by (auto simp: drained_def bf_simps)

lemma drained_idle: "drained s \<Longrightarrow> write_behind (f, s) = Some (0, f, s)"
  by (simp add: drained_def write_behind_def)

text \<open>Handing over a block always succeeds: the other buffer is free.\<close>

definition held :: "nat \<Rightarrow> subs \<Rightarrow> subs" where
  "held n s = set_counter (\<not> current s) BF_ALLOC ((set_counter (current s) (int n) s)\<lparr>current := \<not> current s\<rparr>)"

lemma writeit_drained:
  "drained s \<Longrightarrow> writeit n (f, s) = Some (int n, \<not> current s, f, held n s)"
  by (simp add: drained_def writeit_def held_def Let_def bf_simps)

text \<open>The flush behind it writes exactly the block, and what it returns is what \<^verbatim>\<open>write\<close> says.\<close>

definition emptied :: "nat \<Rightarrow> subs \<Rightarrow> subs" where
  "emptied n s = (set_counter (current s) BF_FREE (held n s))\<lparr>nextone := \<not> current s\<rparr>"

lemma write_held:
  assumes "drained s"
  shows "write_behind (Some f, held n s) =
    (case sys_write f (take n (drop 4 (bbuf (bfs s (current s))))) of
       (Inl e, f') \<Rightarrow> Some (-1, Some f', (emptied n s)\<lparr>errno := e\<rparr>)
     | (Inr m, f') \<Rightarrow> Some (int m, Some f', emptied n s))"
  using assms
  by (auto simp: write_behind_def Let_def emptied_def held_def bf_simps drained_def split: sum.split prod.split)

lemma write_held_null: "drained s \<Longrightarrow> write_behind (None, held n s) = None"
  by (simp add: write_behind_def Let_def held_def bf_simps drained_def)

lemma drained_emptied: "drained s \<Longrightarrow> drained (emptied n s) \<and> current (emptied n s) = (\<not> current s)"
  by (auto simp: emptied_def held_def drained_def bf_simps)

lemma drained_errno [simp]: "drained (s\<lparr>errno := e\<rparr>) = drained s"
  by (simp add: drained_def)

section \<open>The write-behind buffers as a block sink\<close>

text \<open>
  The laws of a sink, with blocks of up to \<^verbatim>\<open>MAXSEGSIZE\<close> bytes and no conversion, hold of these
  routines too, also when a caller puts a block before it has flushed the one before; but the
  value \<^verbatim>\<open>writeit\<close> returns is then that of the flush, and they are no \<open>counted_sink\<close>.
\<close>

definition seg_inv :: "cfile \<times> subs \<Rightarrow> bool" where
  "seg_inv fs =
     (let (f, s) = fs; i = current s
      in sound_out f \<and> length (bbuf (bfs s False)) = MAXPKTSIZE \<and> length (bbuf (bfs s True)) = MAXPKTSIZE \<and>
         counter (bfs s i) = BF_ALLOC \<and>
         (if nextone s = i then counter (bfs s (\<not> i)) = BF_FREE
          else 0 \<le> counter (bfs s (\<not> i)) \<and> counter (bfs s (\<not> i)) \<le> int MAXSEGSIZE))"

definition seg_contents :: "cfile \<times> subs \<Rightarrow> decoder" where
  "seg_contents fs = (fdata (fst fs) @ Tftp_Subs.pending (snd fs), False)"

definition flush_seg :: "cfile \<times> subs \<Rightarrow> cfile \<times> subs" where
  "flush_seg fs = (case write_behind (Some (fst fs), snd fs) of Some (w, Some f, s) \<Rightarrow> (f, s) | _ \<Rightarrow> fs)"

definition put_seg :: "int \<Rightarrow> cfile \<times> subs \<Rightarrow> int \<times> cfile \<times> subs" where
  "put_seg n fs = (case writeit (nat n) (Some (fst fs), snd fs) of Some (w, i, Some f, s) \<Rightarrow> (w, f, s) | _ \<Rightarrow> (-1, fs))"

lemma flush_seg_idle: "seg_inv (f, s) \<Longrightarrow> nextone s = current s \<Longrightarrow> flush_seg (f, s) = (f, s)"
  by (simp add: flush_seg_def write_behind_def seg_inv_def Let_def)

lemma flush_seg_busy:
  assumes "sound_out f" "nextone s = i" "counter (bfs s i) = int m"
  shows "write_behind (Some f, s) =
    (let bs = take m (drop 4 (bbuf (bfs s i)))
     in Some (int (length bs), Some (f\<lparr>fdata := fdata f @ bs, fpos := fpos f + length bs\<rparr>),
       (set_counter i BF_FREE s)\<lparr>nextone := \<not> i\<rparr>))"
  using assms by (simp add: write_behind_def Let_def sys_write_sound del: length_take)

lemma sound_out_append: "sound_out f \<Longrightarrow> sound_out (f\<lparr>fdata := fdata f @ bs, fpos := fpos f + length bs\<rparr>)"
  by (simp add: sound_out_def)

lemma seg_flush:
  assumes "seg_inv fs"
  shows "seg_inv (flush_seg fs)" "seg_contents (flush_seg fs) = seg_contents fs"
    "fdata (fst (flush_seg fs)) = fst (seg_contents fs)" "staged (flush_seg fs) = staged fs"
    "nextone (snd (flush_seg fs)) = current (snd fs)" "current (snd (flush_seg fs)) = current (snd fs)"
proof -
  obtain f s where fs: "fs = (f, s)" by (cases fs)
  have "seg_inv (flush_seg fs) \<and> seg_contents (flush_seg fs) = seg_contents fs \<and>
    fdata (fst (flush_seg fs)) = fst (seg_contents fs) \<and> staged (flush_seg fs) = staged fs \<and>
    nextone (snd (flush_seg fs)) = current (snd fs) \<and> current (snd (flush_seg fs)) = current (snd fs)"
  proof (cases "nextone s = current s")
    case True
    then show ?thesis
      using assms flush_seg_idle [of f s] by (simp add: fs seg_contents_def Tftp_Subs.pending_def)
  next
    case False
    then have n: "nextone s = (\<not> current s)" by simp
    define m where "m = nat (counter (bfs s (\<not> current s)))"
    have c: "counter (bfs s (\<not> current s)) = int m" "sound_out f"
      using assms False by (simp_all add: fs seg_inv_def m_def Let_def)
    show ?thesis
      using flush_seg_busy [OF c(2) n c(1)] assms c n sound_out_append [OF c(2)]
      by (auto simp: fs flush_seg_def seg_inv_def seg_contents_def Tftp_Subs.pending_def ahead_bytes_def staged_def bf_simps
          Let_def simp del: length_take)
  qed
  then show "seg_inv (flush_seg fs)" "seg_contents (flush_seg fs) = seg_contents fs"
    "fdata (fst (flush_seg fs)) = fst (seg_contents fs)" "staged (flush_seg fs) = staged fs"
    "nextone (snd (flush_seg fs)) = current (snd fs)" "current (snd (flush_seg fs)) = current (snd fs)"
    by simp_all
qed

text \<open>A put is a flush of the block before, and the hand-over of the block in use.\<close>

lemma put_seg_flushed:
  assumes "seg_inv (f, s)"
  shows "snd (put_seg (int n) (f, s)) =
    (let (f', s') = flush_seg (f, s); i = current s
     in (f', set_counter (\<not> i) BF_ALLOC ((set_counter i (int n) s')\<lparr>current := \<not> i\<rparr>)))"
proof (cases "nextone s = current s")
  case True
  then show ?thesis
    using assms flush_seg_idle [of f s] by (simp add: put_seg_def writeit_def seg_inv_def Let_def bf_simps)
next
  case False
  then have k: "nextone s = (\<not> current s)" by simp
  define m where "m = nat (counter (bfs s (\<not> current s)))"
  have c: "counter (bfs s (\<not> current s)) = int m" "sound_out f"
    using assms False by (simp_all add: seg_inv_def m_def Let_def)
  let ?s = "(set_counter (current s) (int n) s)\<lparr>current := \<not> current s\<rparr>"
  have c': "counter (bfs ?s (\<not> current s)) = int m" "nextone ?s = (\<not> current s)"
    "bbuf (bfs ?s (\<not> current s)) = bbuf (bfs s (\<not> current s))"
    using c(1) k by (simp_all add: bf_simps)
  show ?thesis
    using flush_seg_busy [OF c(2) k c(1)] flush_seg_busy [OF c(2) c'(2,1)] c'
    by (simp add: put_seg_def writeit_def flush_seg_def Let_def bf_simps set_counter_def fun_upd_twist del: length_take)
qed

lemma seg_put:
  assumes "seg_inv fs" "n \<le> MAXSEGSIZE"
  shows "seg_inv (snd (put_seg (int n) fs))"
    "seg_contents (snd (put_seg (int n) fs)) = decode_from False (take n (staged fs)) (seg_contents fs)"
proof -
  obtain f s where fs: "fs = (f, s)" by (cases fs)
  obtain f' s' where fl: "flush_seg (f, s) = (f', s')" by fastforce
  note flushed = seg_flush [OF assms(1), unfolded fs fl, simplified]
  have "seg_contents (f', s') = (fdata f', False)"
    using flushed(5,6) by (simp add: seg_contents_def Tftp_Subs.pending_def)
  with flushed put_seg_flushed [of f s n] assms show "seg_inv (snd (put_seg (int n) fs))"
    "seg_contents (snd (put_seg (int n) fs)) = decode_from False (take n (staged fs)) (seg_contents fs)"
    by (simp_all add: fs fl seg_inv_def seg_contents_def Tftp_Subs.pending_def ahead_bytes_def staged_def decode_from_octet
        bf_simps Let_def)
qed

interpretation seg_out: block_sink MAXSEGSIZE False seg_inv seg_contents "\<lambda>fs. fdata (fst fs)" staged put_seg flush_seg
  by unfold_locales (rule seg_put seg_flush, assumption+)+

section \<open>The C routines and these\<close>

text \<open>
  Where a buffer that holds data is flushed in octet mode, the C routine and this one do
  the same; they differ on empty blocks, which the C routine reports as an error.
\<close>

lemma write_behind_c:
  "counter (bfs s (nextone s)) \<noteq> 0 \<Longrightarrow>
   write_behind (Some f, s) = (let (n, f', s') = Tftp_Subs.write_behind False (f, s) in Some (n, Some f', s'))"
  by (auto simp: write_behind_def Tftp_Subs.write_behind_def Let_def split: prod.splits sum.splits)

text \<open>
  C36: in an octet transfer the routines of the C++ server do to the buffers and the file what
  those of the C programs do, as long as no empty block is flushed; only \<^verbatim>\<open>writeit\<close> returns
  the result of the flush in place of the count it was given.
\<close>

theorem async_buffers_as_c:
  assumes "counter (bfs s (nextone s)) \<noteq> 0" "nextone s \<noteq> current s \<or> n \<noteq> 0"
  shows "write_behind (Some f, s) =
      (let (w, f', s') = Tftp_Subs.write_behind False (f, s) in Some (w, Some f', s')) \<and>
    (\<exists>w. writeit n (Some f, s) =
      (let (_, i, f', s') = Tftp_Subs.writeit False (int n) (f, s) in Some (w, i, Some f', s')))"
proof (rule conjI)
  show "write_behind (Some f, s) =
      (let (w, f', s') = Tftp_Subs.write_behind False (f, s) in Some (w, Some f', s'))"
    using assms(1) by (rule write_behind_c)
  let ?s = "(set_counter (current s) (int n) s)\<lparr>current := \<not> current s\<rparr>"
  have "counter (bfs ?s (nextone ?s)) \<noteq> 0" using assms by (auto simp: bf_simps)
  note flush = write_behind_c [OF this, of f]
  obtain w f' s' where w: "Tftp_Subs.write_behind False (f, ?s) = (w, f', s')"
    using prod_cases3 by blast
  show "\<exists>w. writeit n (Some f, s) =
      (let (_, i, f', s') = Tftp_Subs.writeit False (int n) (f, s) in Some (w, i, Some f', s'))"
    by (simp add: writeit_def Tftp_Subs.writeit_def Let_def w flush)
qed

theorem async_buffers_as_c_witness:
  "\<exists>w. writeit 1 (Some (open_trunc None), snd (rw_init False bfs_start)) =
    (let (_, i, f', s') = Tftp_Subs.writeit False 1 (open_trunc None, snd (rw_init False bfs_start)) in Some (w, i, Some f', s'))"
proof -
  let ?s = "snd (rw_init False bfs_start)"
  have "counter (bfs ?s (nextone ?s)) \<noteq> 0" "nextone ?s \<noteq> current ?s \<or> (1 :: nat) \<noteq> 0"
    by (simp_all add: rw_init_def Let_def bf_simps BF_ALLOC_def)
  from async_buffers_as_c [OF this, of "open_trunc None"] show ?thesis by simp
qed

end
