(* ===== verification/Async_Server.thy ===== *)
theory Async_Server
  imports Async_Request Async_Subs
begin

text \<open>
  The asynchronous upload server, \<^verbatim>\<open>tftpd.hpp\<close> and \<^verbatim>\<open>async_tftpd_server.cpp\<close>: the members of
  \<^verbatim>\<open>server\<close> and \<^verbatim>\<open>receiver\<close> are one record, a completion handler is a function on it, and
  \<^verbatim>\<open>io_context::run\<close> is the fold of \<open>astep\<close> over the completions.

  An event is a datagram joining the queue of the socket (\<open>AArrive\<close>), the completion of the
  pending receive with the first datagram or with an error code (\<open>ARecv\<close>, \<open>ARecvFails\<close>), of the
  pending send (\<open>ASent\<close>: the socket took the datagram when the operation was started; \<open>ASentLate\<close>: it had to wait, and the
  datagram was read from its buffer later), or the expiry of the timer (\<open>ATimer\<close>).  The truth value of \<open>ARecv\<close> says
  whether the synchronous call its handler may make (opening a new socket, or sending) succeeds.  A pending operation that
  \<^verbatim>\<open>socket_.cancel()\<close> aborts completes with an error code later.  The phase says which
  operation is pending; \<open>AQuiet\<close> is none but the timer, and with no timer either \<^verbatim>\<open>run\<close> returns.
\<close>

section \<open>State\<close>

datatype aevent = AArrive sockaddr datagram | ARecv bool | ARecvFails | ASent bool | ASentLate | ATimer

datatype thrown = Timed_out | Operation_canceled | Send_failed | Socket_failed | Mkdir_failed

datatype aphase = AIdle | ASending | AReceiving | AErrSending | ALast | AQuiet
  | AReturned | AThrown thrown | ACrashed | AAborted

record acfg =
  a_host :: endian
  a_env :: env
  a_strerror :: "errno \<Rightarrow> byte list"
  a_callback :: bool
  a_listen :: bool

record server =
  a_phase :: aphase
  started :: bool
  guard :: "cfile option"
  file_path :: path
  segs :: subs
  dp :: bool
  block :: u16
  ackbuf :: "byte list"
  os :: opts
  timeout :: int
  last_timeout :: bool
  armed :: bool
  sender :: sockaddr
  peer :: sockaddr
  inq :: "(sockaddr \<times> datagram) list"
  pending :: "sockaddr \<times> datagram"
  out :: "(sockaddr \<times> datagram) list"
  renamed :: bool
  percent :: u64
  called :: "u64 list"

definition rexmtval :: int where "rexmtval = 1"
definition maxtimeout :: int where "maxtimeout = 5"

text \<open>
  \<open>renamed\<close>: \<^verbatim>\<open>rename\<close> has been called on the upload and succeeded; the code does not look at its result.
  \<open>a_listen\<close>: the constructor can open the socket and bind it to the port.
\<close>

section \<open>The base class\<close>

text \<open>
  The time a timer runs is not part of the model: it says that the timer is armed, and the event \<open>ATimer\<close>
  that it expires.  What is left when a handler starts no operation is \<open>quiet\<close>.
\<close>

definition quiet :: "server \<Rightarrow> server" where
  "quiet s = s\<lparr>a_phase := if armed s then AQuiet else AReturned\<rparr>"

definition start_timeout :: "server \<Rightarrow> server" where "start_timeout s = s\<lparr>armed := True\<rparr>"

definition restart_timeout :: "server \<Rightarrow> server" where [simp]: "restart_timeout s = start_timeout s"

definition cancel_timeout :: "server \<Rightarrow> server" where [simp]: "cancel_timeout s = s\<lparr>armed := False\<rparr>"

definition start_last_timeout :: "server \<Rightarrow> server" where
  [simp]: "start_last_timeout s = (start_timeout s)\<lparr>timeout := maxtimeout, last_timeout := True\<rparr>"

definition timer_expired :: "server \<Rightarrow> server" where
  "timer_expired s =
     (if \<not> armed s then s
      else let s1 = s\<lparr>armed := False, timeout := timeout s + rexmtval\<rparr> in
      if timeout s1 \<ge> maxtimeout \<and> \<not> last_timeout s1 then s1\<lparr>a_phase := AThrown Timed_out\<rparr>
      else if a_phase s1 = AQuiet then s1\<lparr>a_phase := AReturned\<rparr> else s1)"

definition errmsgs :: "(int \<times> byte list) list" where
  "errmsgs = Tftp_Wire.errmsgs @ [(EOPTNEG, cbytes ''Failure to negotiate RFC2347 options'')]"

text \<open>\<open>None\<close>: \<^verbatim>\<open>strncpy\<close> pads behind the end of the packet.\<close>

definition error_packet :: "acfg \<Rightarrow> int \<Rightarrow> datagram option" where
  "error_packet c err =
     (let (code, m) = nak_code_msg errmsgs (a_strerror c) err;
          msg = take (PKTSIZE - TFTP_HEADER) m;
          len = length msg + (TFTP_HEADER + 1);
          b = put_header (a_host c) ERROR code (replicate PKTSIZE 0)
      in if PKTSIZE < TFTP_HEADER + len then None
         else Some (take (min len PKTSIZE) (overlay b 4 (msg @ replicate (len - length msg) 0))))"

definition send_error :: "acfg \<Rightarrow> int \<Rightarrow> server \<Rightarrow> server" where
  "send_error c err s =
     (case error_packet c err of
        None \<Rightarrow> s\<lparr>a_phase := ACrashed\<rparr>
      | Some p \<Rightarrow> s\<lparr>pending := (sender s, p), a_phase := AErrSending\<rparr>)"

section \<open>The receiver\<close>

definition send_ackbuf :: "nat \<Rightarrow> server \<Rightarrow> server" where
  "send_ackbuf n s =
     (case write_behind (guard s, segs s) of
        None \<Rightarrow> s\<lparr>a_phase := ACrashed\<rparr>
      | Some (_, file, t) \<Rightarrow>
          s\<lparr>guard := file, segs := t, pending := (peer s, take n (ackbuf s)), a_phase := ASending\<rparr>)"

definition send_ack :: "acfg \<Rightarrow> server \<Rightarrow> server" where
  "send_ack c s =
     send_ackbuf TFTP_HEADER
       (s\<lparr>ackbuf := put_header (a_host c) ACK (block s) (ackbuf s), block := block s + 1\<rparr>)"

text \<open>The member \<^verbatim>\<open>file_guard_\<close> is assigned when \<^verbatim>\<open>start_recvfile\<close> has returned.\<close>

definition start_recvfile :: "acfg \<Rightarrow> cfile option \<Rightarrow> byte list \<Rightarrow> server \<Rightarrow> server" where
  "start_recvfile c file optack s =
     (let (i, t) = rw_init False (segs s);
          s1 = s\<lparr>peer := sender s, block := 0, segs := t, dp := i\<rparr>;
          s2 = (if optack = [] then send_ack c s1
                else send_ackbuf (length optack)
                       (s1\<lparr>ackbuf := overlay (ackbuf s1) 0 optack, block := block s1 + 1\<rparr>))
      in s2\<lparr>guard := file, started := True\<rparr>)"

definition receive_block :: "server \<Rightarrow> server" where
  "receive_block s = (restart_timeout s)\<lparr>a_phase := AReceiving\<rparr>"

text \<open>
  The socket is closed, opened again and bound to a new port, or an exception is thrown when this is not possible (\<open>ok\<close>);
  what is queued on it is lost.
\<close>

definition request_received :: "acfg \<Rightarrow> bool \<Rightarrow> datagram \<Rightarrow> server \<Rightarrow> server" where
  "request_received c ok p s =
     (let rx = take PKTSIZE p in
      if rx = [] then quiet s
      else case tftp (a_env c) rx of
             Raises \<Rightarrow> s\<lparr>a_phase := AThrown Mkdir_failed\<rparr>
           | Asserts \<Rightarrow> s\<lparr>a_phase := AAborted\<rparr>
           | Smash \<Rightarrow> s\<lparr>a_phase := ACrashed\<rparr>
           | Done error file path optack opts \<Rightarrow>
               (let s1 = s\<lparr>file_path := path, os := opts\<rparr>
                in if error \<noteq> 0 then send_error c error s1
                   else if \<not> ok then s1\<lparr>a_phase := AThrown Socket_failed\<rparr>
                   else start_recvfile c file optack (s1\<lparr>inq := []\<rparr>)))"

fun synchnet :: "(sockaddr \<times> datagram) list \<Rightarrow> (sockaddr \<times> datagram) list" where
  "synchnet [] = []"
| "synchnet ((a, p) # q) = (if p = [] then (a, p) # q else synchnet q)"

definition progress :: "acfg \<Rightarrow> server \<Rightarrow> server" where
  "progress c s =
     (if g_tsize (os s) = 0 then s
      else let pc = 100 * (ucast (block s) * g_segsize (os s)) div g_tsize (os s) in
      if pc = percent s then s
      else s\<lparr>percent := pc, called := called s @ (if a_callback c \<and> pc mod 10 = 0 then [pc] else [])\<rparr>)"

definition send_last_ack :: "acfg \<Rightarrow> bool \<Rightarrow> server \<Rightarrow> server" where
  "send_last_ack c ok s =
     (let b = put_header (a_host c) ACK (block s) (ackbuf s); s1 = s\<lparr>ackbuf := b\<rparr> in
      if \<not> ok then s1\<lparr>a_phase := AThrown Send_failed\<rparr>
      else (start_last_timeout (s1\<lparr>out := out s @ [(peer s, take TFTP_HEADER b)]\<rparr>))\<lparr>a_phase := ALast\<rparr>)"

definition finish_upload :: "acfg \<Rightarrow> bool \<Rightarrow> server \<Rightarrow> server" where
  "finish_upload c ok s =
     (case write_behind (guard s, segs s) of
        None \<Rightarrow> s\<lparr>a_phase := ACrashed\<rparr>
      | Some (written, file, t) \<Rightarrow>
          (let s1 = s\<lparr>guard := file, segs := t\<rparr>
           in if written \<ge> 0 then send_last_ack c ok (s1\<lparr>renamed := e_rename (a_env c) (file_path s @ cbytes ''.upload'') (file_path s)\<rparr>) else send_error c ENOSPACE s1))"

definition write_segment :: "acfg \<Rightarrow> bool \<Rightarrow> nat \<Rightarrow> server \<Rightarrow> server" where
  "write_segment c ok n s =
     (case writeit n (guard s, segs s) of
        None \<Rightarrow> s\<lparr>a_phase := ACrashed\<rparr>
      | Some (written, i, file, t) \<Rightarrow>
          (let s1 = s\<lparr>guard := file, segs := t, dp := i\<rparr>
           in if written \<noteq> int n
              then send_error c (if written < 0 then errno t + ERRNO_OFFSET else ENOSPACE) s1
              else if n = unat (g_segsize (os s1)) then send_ack c s1
              else finish_upload c ok s1))"

text \<open>
  A data block that is neither the expected one nor the one before falls out of the
  \<^verbatim>\<open>do { } while (false)\<close> and is written like the expected one.
\<close>

definition check_and_write_block :: "acfg \<Rightarrow> bool \<Rightarrow> datagram \<Rightarrow> server \<Rightarrow> server" where
  "check_and_write_block c ok p s =
     (let rx = take MAXPKTSIZE p; n = length rx;
          b = overlay (bbuf (bfs (segs s) (dp s))) 0 rx;
          h = ntoh_header (a_host c) b;
          s1 = s\<lparr>segs := set_bbuf (dp s) h (segs s)\<rparr>
      in if n < TFTP_HEADER then s\<lparr>a_phase := AAborted\<rparr>
         else if th_opcode (a_host c) h = ERROR then quiet s1
         else if th_opcode (a_host c) h \<noteq> DATA then send_error c EBADID s1
         else if th_block (a_host c) h = block s1 then write_segment c ok (n - TFTP_HEADER) (progress c s1)
         else let s2 = s1\<lparr>inq := synchnet (inq s1)\<rparr> in
         if uint (th_block (a_host c) h) = uint (block s2) - 1 then send_ackbuf TFTP_HEADER s2
         else write_segment c ok (n - TFTP_HEADER) s2)"

text \<open>The handler behind the final acknowledgement reads the header without \<^verbatim>\<open>ntohs\<close>.\<close>

definition last_received :: "acfg \<Rightarrow> bool \<Rightarrow> datagram \<Rightarrow> server \<Rightarrow> server" where
  "last_received c ok p s =
     (let rx = take MAXPKTSIZE p in
      if TFTP_HEADER \<le> length rx \<and> th_opcode (a_host c) rx = DATA \<and> block s = th_block (a_host c) rx
      then (if ok
            then (cancel_timeout (s\<lparr>out := out s @ [(peer s, take TFTP_HEADER (ackbuf s))]\<rparr>))\<lparr>a_phase := AReturned\<rparr>
            else s\<lparr>a_phase := AThrown Send_failed\<rparr>)
      else (cancel_timeout s)\<lparr>a_phase := AReturned\<rparr>)"

section \<open>The event loop\<close>

definition recv_done :: "acfg \<Rightarrow> bool \<Rightarrow> server \<Rightarrow> server" where
  "recv_done c ok s =
     (case inq s of
        [] \<Rightarrow> s
      | (a, p) # q \<Rightarrow>
          (case a_phase s of
             AIdle \<Rightarrow> request_received c ok p (s\<lparr>inq := q, sender := a\<rparr>)
           | AReceiving \<Rightarrow> check_and_write_block c ok p (s\<lparr>inq := q, peer := a\<rparr>)
           | ALast \<Rightarrow> last_received c ok p (s\<lparr>inq := q, peer := a\<rparr>)
           | _ \<Rightarrow> s))"

definition recv_failed :: "server \<Rightarrow> server" where
  "recv_failed s =
     (case a_phase s of
        AIdle \<Rightarrow> quiet s
      | AReceiving \<Rightarrow> receive_block s
      | ALast \<Rightarrow> (cancel_timeout s)\<lparr>a_phase := AReturned\<rparr>
      | _ \<Rightarrow> s)"

definition send_done :: "bool \<Rightarrow> server \<Rightarrow> server" where
  "send_done ok s =
     (let s1 = (if ok then s\<lparr>out := out s @ [pending s]\<rparr> else s) in
      case a_phase s of
        ASending \<Rightarrow> if ok then receive_block s1 else quiet s1
      | AErrSending \<Rightarrow> s1\<lparr>armed := False, a_phase := AThrown Operation_canceled\<rparr>
      | _ \<Rightarrow> s)"

text \<open>
  \<^verbatim>\<open>send_error\<close> hands a local vector to \<^verbatim>\<open>async_send_to\<close>: it is gone when the packet is read from it later.
\<close>

definition send_late :: "server \<Rightarrow> server" where
  [simp]: "send_late s = (if a_phase s = AErrSending then s\<lparr>a_phase := ACrashed\<rparr> else send_done True s)"

definition running :: "server \<Rightarrow> bool" where
  "running s \<longleftrightarrow> a_phase s \<in> {AIdle, ASending, AReceiving, AErrSending, ALast, AQuiet}"

fun astep :: "acfg \<Rightarrow> aevent \<Rightarrow> server \<Rightarrow> server" where
  "astep c (AArrive a p) s = (if running s then s\<lparr>inq := inq s @ [(a, p)]\<rparr> else s)"
| "astep c (ARecv ok) s = recv_done c ok s"
| "astep c ARecvFails s = recv_failed s"
| "astep c (ASent ok) s = send_done ok s"
| "astep c ASentLate s = send_late s"
| "astep c ATimer s = (if running s then timer_expired s else s)"

definition arun :: "acfg \<Rightarrow> aevent list \<Rightarrow> server \<Rightarrow> server" where
  "arun c evs s = fold (astep c) evs s"

text \<open>The constructors: the idle timer runs and a receive is pending.\<close>

definition server_start :: server where
  "server_start =
     \<lparr>a_phase = AIdle, started = False, guard = None, file_path = [], segs = bfs_start, dp = False, block = 0,
      ackbuf = replicate PKTSIZE 0, os = init_opt, timeout = rexmtval, last_timeout = False, armed = True,
      sender = \<lparr>family = 0, address = [], port = 0\<rparr>, peer = \<lparr>family = 0, address = [], port = 0\<rparr>,
      inq = [], pending = (\<lparr>family = 0, address = [], port = 0\<rparr>, []), out = [], renamed = False,
      percent = 0, called = []\<rparr>"

text \<open>
  The server is constructed (it may find its port taken) and its root directory made; then \<^verbatim>\<open>run\<close> runs.
  Destroying the server closes the file, also a null one.
\<close>

datatype outcome = Running | Returns path | Throws thrown | Crashes | Aborts

definition receive_file :: "acfg \<Rightarrow> aevent list \<Rightarrow> outcome" where
  "receive_file c evs =
     (let s = arun c evs server_start in
      if \<not> a_listen c then Throws Socket_failed
      else if \<not> e_mkdir (a_env c) (g_rootdir (a_env c)) then Throws Mkdir_failed
      else case a_phase s of
        AReturned \<Rightarrow> if started s \<and> guard s = None then Crashes else Returns (file_path s)
      | AThrown x \<Rightarrow> if started s \<and> guard s = None then Crashes else Throws x
      | ACrashed \<Rightarrow> Crashes
      | AAborted \<Rightarrow> Aborts
      | _ \<Rightarrow> Running)"

end
