(* ===== verification/Async_Transfer.thy ===== *)
theory Async_Transfer
  imports Async_Server
begin

text \<open>
  What the asynchronous server does with an upload.  A datagram it gets is \<open>timely\<close> when it
  has a header and, if it is a data packet, is a block of the client's file, namely the one the
  server expects or the one before; this server has no defence against older blocks, so the
  assumption cannot be weakened (\<open>async_writes_wrong_block\<close>).
\<close>

section \<open>Datagrams of an upload\<close>

definition nsegs :: "nat \<Rightarrow> byte list \<Rightarrow> nat" where "nsegs g d = length d div g + 1"

definition segment :: "nat \<Rightarrow> byte list \<Rightarrow> nat \<Rightarrow> datagram" where
  "segment g d k = data_pkt (of_nat (Suc k)) (chunk g k d)"

definition timely_pkt :: "nat \<Rightarrow> byte list \<Rightarrow> u16 \<Rightarrow> datagram \<Rightarrow> bool" where
  "timely_pkt g d b p \<longleftrightarrow> TFTP_HEADER \<le> length p \<and>
     (net_short p 0 = DATA \<longrightarrow> p \<in> set (map (segment g d) [0..<nsegs g d]) \<and> (net_short p 2 = b \<or> net_short p 2 = b - 1))"

fun timely :: "acfg \<Rightarrow> nat \<Rightarrow> byte list \<Rightarrow> aevent list \<Rightarrow> server \<Rightarrow> bool" where
  "timely c g d [] s \<longleftrightarrow> True"
| "timely c g d (e # es) s \<longleftrightarrow>
     ((\<exists>ok. e = ARecv ok) \<and> a_phase s = AReceiving \<and> inq s \<noteq> [] \<longrightarrow> timely_pkt g d (block s) (snd (hd (inq s)))) \<and>
     timely c g d es (astep c e s)"

lemma nsegs_last:
  assumes "0 < g" "k < nsegs g d"
  shows "g * k \<le> length d" "length (chunk g k d) = g \<longleftrightarrow> Suc k < nsegs g d"
    "length (chunk g k d) < g \<Longrightarrow> take (g * Suc k) d = d"
proof -
  have k: "k \<le> length d div g" using assms(2) by (simp add: nsegs_def)
  then show l: "g * k \<le> length d" by (metis mult_le_mono2 div_times_less_eq_dividend mult.commute order_trans)
  have "g \<le> length d - g * k \<longleftrightarrow> g * Suc k \<le> length d" using l by auto
  also have "\<dots> \<longleftrightarrow> Suc k \<le> length d div g" using assms(1) by (simp add: less_eq_div_iff_mult_less_eq mult.commute)
  finally show "length (chunk g k d) = g \<longleftrightarrow> Suc k < nsegs g d" by (auto simp: chunk_def nsegs_def)
  show "length (chunk g k d) < g \<Longrightarrow> take (g * Suc k) d = d" using chunk_short [of g k d] by simp
qed

lemma segment_received:
  fixes e :: endian and d :: "byte list" and j :: nat
  assumes "length b = MAXPKTSIZE" "g \<le> MAXSEGSIZE"
  defines "rx \<equiv> take MAXPKTSIZE (segment g d j)"
  defines "h \<equiv> ntoh_header e (overlay b 0 rx)"
  shows "th_opcode e h = DATA" "th_block e h = of_nat (Suc j)" "length rx = TFTP_HEADER + length (chunk g j d)"
    "take (length (chunk g j d)) (drop 4 h) = chunk g j d" "length h = MAXPKTSIZE"
proof -
  have c: "length (chunk g j d) \<le> MAXSEGSIZE" using length_chunk_le [of g j d] assms(2) by simp
  then have rx: "rx = segment g d j" by (simp add: rx_def segment_def wire_simps size_defs)
  then show l: "length rx = TFTP_HEADER + length (chunk g j d)" by (simp add: segment_def wire_simps size_defs)
  have o: "length (overlay b 0 rx) = MAXPKTSIZE" using l c assms(1) by (simp add: size_defs)
  then have "4 \<le> length (overlay b 0 rx)" by (simp add: size_defs)
  moreover have "4 \<le> length rx" using l by (simp add: size_defs)
  ultimately have "th_opcode e h = net_short rx 0 \<and> th_block e h = net_short rx 2"
    by (simp add: h_def ntoh_header_opcode ntoh_header_block net_short_overlay)
  then show "th_opcode e h = DATA" "th_block e h = of_nat (Suc j)" by (simp_all add: rx segment_def wire_simps)
  have "take (length (chunk g j d)) (drop 4 h) = drop 4 (take (length rx) (overlay b 0 rx))"
    using l by (simp add: h_def drop_ntoh_header drop_take size_defs)
  then show "take (length (chunk g j d)) (drop 4 h) = chunk g j d"
    by (simp only: take_overlay_0) (simp add: rx segment_def wire_simps)
  show "length h = MAXPKTSIZE" using o by (simp add: h_def)
qed

lemma header_received:
  fixes e :: endian
  assumes "length b = MAXPKTSIZE" "TFTP_HEADER \<le> length p"
  defines "rx \<equiv> take MAXPKTSIZE p"
  defines "h \<equiv> ntoh_header e (overlay b 0 rx)"
  shows "th_opcode e h = net_short p 0" "th_block e h = net_short p 2" "TFTP_HEADER \<le> length rx" "length h = MAXPKTSIZE"
proof -
  have rx: "4 \<le> length rx" "length rx \<le> MAXPKTSIZE" using assms(2) by (simp_all add: rx_def size_defs)
  then show "TFTP_HEADER \<le> length rx" by (simp add: size_defs)
  have o: "length (overlay b 0 rx) = MAXPKTSIZE" using rx assms(1) by simp
  then show "length h = MAXPKTSIZE" by (simp add: h_def)
  have "4 \<le> length (overlay b 0 rx)" using o by (simp add: size_defs)
  with rx show "th_opcode e h = net_short p 0" "th_block e h = net_short p 2"
    by (simp_all add: h_def ntoh_header_opcode ntoh_header_block net_short_overlay) (simp_all add: rx_def net_short_prefix size_defs)
qed

lemma error_packet_code:
  assumes "error_packet c err = Some p"
  shows "net_short p 0 = ERROR \<and> 2 \<le> length p"
proof -
  obtain code m where m: "nak_code_msg errmsgs (a_strerror c) err = (code, m)" by fastforce
  let ?b = "put_header (a_host c) ERROR code (replicate PKTSIZE 0)"
  let ?msg = "take (PKTSIZE - TFTP_HEADER) m"
  from assms m have p: "p = take (min (length ?msg + (TFTP_HEADER + 1)) PKTSIZE) (overlay ?b 4 (?msg @ replicate (TFTP_HEADER + 1) 0))"
    by (auto simp: error_packet_def Let_def split: if_splits)
  have "net_short p 0 = net_short (overlay ?b 4 (?msg @ replicate (TFTP_HEADER + 1) 0)) 0"
    unfolding p by (rule net_short_prefix) (simp add: size_defs)
  also have "\<dots> = net_short ?b 0"
    by (simp add: net_short_def nth_overlay_below size_defs)
  also have "\<dots> = net_short (take 4 ?b) 0" by (simp add: net_short_prefix)
  also have "\<dots> = ERROR"
    using net_short_hdr(1) [of ERROR code "[]"] by (simp add: take_put_header size_defs)
  finally show ?thesis using p by (simp add: overlay_def size_defs)
qed

section \<open>The invariant\<close>

text \<open>An acknowledgement speaks of at most k blocks.\<close>

definition ack_upto :: "nat \<Rightarrow> datagram \<Rightarrow> bool" where
  "ack_upto k p \<longleftrightarrow> 2 \<le> length p \<and> (net_short p 0 = ACK \<longrightarrow> (\<exists>i\<le>k. p = ack_pkt (of_nat i)))"

definition upload_inv :: "path \<Rightarrow> nat \<Rightarrow> byte list \<Rightarrow> nat \<Rightarrow> server \<Rightarrow> bool" where
  "upload_inv P g d k s \<longleftrightarrow>
     (\<exists>f. guard s = Some f \<and> sound_out f \<and> fdata f = take (g * k) d) \<and>
     drained (segs s) \<and> dp s = current (segs s) \<and> block s = of_nat (Suc k) \<and> k < nsegs g d \<and>
     length (ackbuf s) = PKTSIZE \<and> unat (g_segsize (os s)) = g \<and> started s \<and> file_path s = P \<and>
     \<not> renamed s \<and> \<not> last_timeout s \<and> (\<forall>x\<in>set (out s). ack_upto k (snd x)) \<and>
     ack_upto k (snd (pending s)) \<and> ack_upto k (take 4 (ackbuf s))"

definition stored :: "acfg \<Rightarrow> path \<Rightarrow> nat \<Rightarrow> byte list \<Rightarrow> server \<Rightarrow> bool" where
  "stored c P g d s \<longleftrightarrow>
     (\<exists>f. guard s = Some f \<and> fdata f = d) \<and> renamed s = e_rename (a_env c) (P @ cbytes ''.upload'') P \<and> started s \<and> file_path s = P \<and>
     a_phase s \<in> {ALast, AReturned} \<union> range AThrown \<and> (a_phase s = ALast \<longrightarrow> last_timeout s) \<and>
     (\<forall>x\<in>set (out s). ack_upto (nsegs g d) (snd x)) \<and> ack_upto (nsegs g d) (take 4 (ackbuf s))"

definition up_at :: "path \<Rightarrow> nat \<Rightarrow> byte list \<Rightarrow> nat \<Rightarrow> server \<Rightarrow> bool" where
  "up_at P g d k s \<longleftrightarrow> upload_inv P g d k s \<and> a_phase s \<noteq> AIdle \<and> a_phase s \<noteq> ALast"

definition up_inv :: "acfg \<Rightarrow> path \<Rightarrow> nat \<Rightarrow> byte list \<Rightarrow> server \<Rightarrow> bool" where
  "up_inv c P g d s \<longleftrightarrow> (\<exists>k. up_at P g d k s) \<or> stored c P g d s"

lemma ack_upto_mono: "ack_upto k p \<Longrightarrow> k \<le> m \<Longrightarrow> ack_upto m p"
  unfolding ack_upto_def by (blast intro: le_trans)

lemma ack_upto_ack: "i \<le> k \<Longrightarrow> ack_upto k (ack_pkt (of_nat i))"
  by (auto simp: ack_upto_def ack_pkt_net)

text \<open>The fields the invariant does not speak of.\<close>

lemma upload_inv_frame [simp]:
  "upload_inv P g d k (s\<lparr>a_phase := x\<rparr>) = upload_inv P g d k s"
  "upload_inv P g d k (s\<lparr>armed := a\<rparr>) = upload_inv P g d k s"
  "upload_inv P g d k (s\<lparr>timeout := i\<rparr>) = upload_inv P g d k s"
  "upload_inv P g d k (s\<lparr>inq := q\<rparr>) = upload_inv P g d k s"
  "upload_inv P g d k (s\<lparr>peer := y\<rparr>) = upload_inv P g d k s"
  "upload_inv P g d k (s\<lparr>percent := z\<rparr>) = upload_inv P g d k s"
  "upload_inv P g d k (s\<lparr>called := w\<rparr>) = upload_inv P g d k s"
  by (simp_all add: upload_inv_def)

lemma progress_inv: "upload_inv P g d k (progress c s) = upload_inv P g d k s"
  by (simp add: progress_def Let_def)

lemma progress_fields [simp]:
  "guard (progress c s) = guard s" "segs (progress c s) = segs s" "block (progress c s) = block s"
  "dp (progress c s) = dp s" "inq (progress c s) = inq s"
  by (simp_all add: progress_def Let_def)

lemma send_ackbuf_drained:
  "drained (segs s) \<Longrightarrow> send_ackbuf n s = s\<lparr>pending := (peer s, take n (ackbuf s)), a_phase := ASending\<rparr>"
  by (simp add: send_ackbuf_def drained_idle)

lemma resend_inv:
  "upload_inv P g d k s \<Longrightarrow> up_at P g d k (send_ackbuf TFTP_HEADER s)"
  by (subst send_ackbuf_drained) (auto simp: up_at_def upload_inv_def size_defs)

lemma send_error_inv:
  assumes "upload_inv P g d k s"
  shows "up_at P g d k (send_error c err s)"
  using assms error_packet_code [of c err]
  by (auto simp: send_error_def up_at_def upload_inv_def ack_upto_def split: option.split)

lemma quiet_inv: "upload_inv P g d k s \<Longrightarrow> up_at P g d k (quiet s)"
  by (auto simp: up_at_def quiet_def)

lemma set_dp_inv:
  "upload_inv P g d k s \<Longrightarrow> length b = MAXPKTSIZE \<Longrightarrow> upload_inv P g d k (s\<lparr>segs := set_bbuf (dp s) b (segs s)\<rparr>)"
  by (auto simp: upload_inv_def drained_set_bbuf bf_simps)

section \<open>Accepting a segment\<close>

text \<open>What a segment of n bytes leaves behind when all of it reaches the disk.\<close>

lemma write_segment_sound:
  fixes n :: nat
  assumes "guard s = Some f" "sound_out f" "drained (segs s)" "dp s = current (segs s)"
  defines "bs \<equiv> take n (drop 4 (bbuf (bfs (segs s) (dp s))))"
  defines "f' \<equiv> f\<lparr>fdata := fdata f @ bs, fpos := fpos f + length bs\<rparr>"
  shows "write_segment c ok n s =
    (if n = unat (g_segsize (os s))
     then send_ack c (s\<lparr>segs := held n (segs s), dp := \<not> dp s\<rparr>)
     else send_last_ack c ok (s\<lparr>dp := \<not> dp s, guard := Some f', segs := emptied n (segs s),
       renamed := e_rename (a_env c) (file_path s @ cbytes ''.upload'') (file_path s)\<rparr>))"
    "send_ack c (s\<lparr>segs := held n (segs s), dp := \<not> dp s\<rparr>) =
      s\<lparr>dp := \<not> dp s, ackbuf := put_header (a_host c) ACK (block s) (ackbuf s), block := block s + 1,
        guard := Some f', segs := emptied n (segs s),
        pending := (peer s, take TFTP_HEADER (put_header (a_host c) ACK (block s) (ackbuf s))), a_phase := ASending\<rparr>"
proof -
  have w: "writeit n (guard s, segs s) = Some (int n, \<not> dp s, Some f, held n (segs s))"
    using assms(1,4) writeit_drained [OF assms(3), of n "Some f"] by simp
  have h: "write_behind (Some f, held n (segs s)) = Some (int (length bs), Some f', emptied n (segs s))"
    using write_held [OF assms(3), of f n] assms(4) by (simp add: sys_write_sound [OF assms(2)] bs_def f'_def)
  have gs: "s\<lparr>guard := Some f\<rparr> = s" by (subst assms(1) [symmetric]) simp
  from w h assms(1) show "write_segment c ok n s =
    (if n = unat (g_segsize (os s))
     then send_ack c (s\<lparr>segs := held n (segs s), dp := \<not> dp s\<rparr>)
     else send_last_ack c ok (s\<lparr>dp := \<not> dp s, guard := Some f', segs := emptied n (segs s),
       renamed := e_rename (a_env c) (file_path s @ cbytes ''.upload'') (file_path s)\<rparr>))"
    by (simp add: write_segment_def finish_upload_def gs)
  from h assms(1) show "send_ack c (s\<lparr>segs := held n (segs s), dp := \<not> dp s\<rparr>) =
      s\<lparr>dp := \<not> dp s, ackbuf := put_header (a_host c) ACK (block s) (ackbuf s), block := block s + 1,
        guard := Some f', segs := emptied n (segs s),
        pending := (peer s, take TFTP_HEADER (put_header (a_host c) ACK (block s) (ackbuf s))), a_phase := ASending\<rparr>"
    by (simp add: send_ack_def send_ackbuf_def)
qed

lemma write_segment_cases:
  assumes inv: "upload_inv P g d k s" and g: "0 < g"
    and bs: "take n (drop 4 (bbuf (bfs (segs s) (dp s)))) = chunk g k d" "n = length (chunk g k d)"
  shows "if Suc k < nsegs g d
    then upload_inv P g d (Suc k) (write_segment c ok n s) \<and> a_phase (write_segment c ok n s) = ASending \<and>
      inq (write_segment c ok n s) = inq s \<and> snd (pending (write_segment c ok n s)) = ack_pkt (of_nat (Suc k))
    else stored c P g d (write_segment c ok n s) \<and> a_phase (write_segment c ok n s) = (if ok then ALast else AThrown Send_failed) \<and>
      (ok \<longrightarrow> ack_pkt (of_nat (Suc k)) \<in> snd ` set (out (write_segment c ok n s)))"
proof -
  obtain f where f: "guard s = Some f" "sound_out f" "fdata f = take (g * k) d" using inv by (auto simp: upload_inv_def)
  have s: "drained (segs s)" "dp s = current (segs s)" "block s = of_nat (Suc k)" "length (ackbuf s) = PKTSIZE"
    "unat (g_segsize (os s)) = g" "k < nsegs g d" "\<not> last_timeout s"
    "\<forall>x\<in>set (out s). ack_upto (Suc k) (snd x)" "started s" "file_path s = P"
    using inv by (auto simp: upload_inv_def intro: ack_upto_mono)
  note seg = nsegs_last [OF g s(6)]
  have d: "take (g * k) d @ chunk g k d = take (g * Suc k) d" by (rule take_chunk)
  let ?f = "f\<lparr>fdata := fdata f @ chunk g k d, fpos := fpos f + length (chunk g k d)\<rparr>"
  have so: "sound_out ?f" using f(2) by (simp add: sound_out_def)
  have a: "take 4 (put_header (a_host c) ACK (block s) (ackbuf s)) = ack_pkt (of_nat (Suc k))"
    using s(3,4) by (simp add: take_put_header ack_pkt_def size_defs)
  note w = write_segment_sound(1) [OF f(1,2) s(1,2), where n = n and c = c and ok = ok, unfolded bs(1)]
    write_segment_sound(2) [OF f(1,2) s(1,2), where n = n and c = c, unfolded bs(1)]
  show ?thesis
  proof (cases "length (chunk g k d) = g")
    case True
    have "upload_inv P g d (Suc k) (send_ack c (s\<lparr>segs := held n (segs s), dp := \<not> dp s\<rparr>))"
      using inv f so s True seg(2) drained_emptied [OF s(1), of n] a ack_upto_ack [of "Suc k" "Suc k"] d
      unfolding w(2) by (simp add: upload_inv_def bs(2) TFTP_HEADER_def del: mult_Suc_right)
    moreover have "snd (pending (send_ack c (s\<lparr>segs := held n (segs s), dp := \<not> dp s\<rparr>))) = ack_pkt (of_nat (Suc k))"
      unfolding w(2) using a by (simp add: TFTP_HEADER_def del: of_nat_Suc)
    ultimately show ?thesis using w True s(5) bs(2) seg(2) by auto
  next
    case False
    then have "take (g * Suc k) d = d" using length_chunk_le [of g k d] seg(3) by simp
    moreover have "\<forall>x\<in>set (out s). ack_upto (nsegs g d) (snd x)" using s(6,8) ack_upto_mono by (meson Suc_leI)
    moreover have "ack_upto (nsegs g d) (ack_pkt (of_nat (Suc k)))" using s(6) by (intro ack_upto_ack) simp
    ultimately have "stored c P g d (write_segment c ok n s) \<and> a_phase (write_segment c ok n s) = (if ok then ALast else AThrown Send_failed) \<and>
        (ok \<longrightarrow> ack_pkt (of_nat (Suc k)) \<in> snd ` set (out (write_segment c ok n s)))"
      using False f s a d w(1) bs(2)
      by (cases ok) (simp_all add: stored_def send_last_ack_def start_timeout_def Let_def TFTP_HEADER_def del: mult_Suc_right)
    then show ?thesis using False seg(2) by simp
  qed
qed

section \<open>Every step keeps the invariant\<close>

lemma unat_number: "m < 65536 \<Longrightarrow> unat (of_nat m :: u16) = m"
  by (subst unat_of_nat) simp

lemma number_eq: "m < 65536 \<Longrightarrow> n < 65536 \<Longrightarrow> (of_nat m :: u16) = of_nat n \<longleftrightarrow> m = n"
  by (metis unat_number)

text \<open>A client's file and a segment size whose blocks are numbered without wrapping around.\<close>

definition fits :: "nat \<Rightarrow> byte list \<Rightarrow> bool" where
  "fits g d \<longleftrightarrow> 0 < g \<and> g \<le> MAXSEGSIZE \<and> nsegs g d < 65536"

lemma upload_inv_dp_len: "upload_inv P g d k s \<Longrightarrow> length (bbuf (bfs (segs s) (dp s))) = MAXPKTSIZE"
  by (auto simp: upload_inv_def drained_len)

lemma timely_segment:
  assumes "timely_pkt g d (of_nat (Suc k)) p" "net_short p 0 = DATA" "k < nsegs g d" "nsegs g d < 65536"
  shows "p = segment g d k \<or> (\<exists>j. k = Suc j \<and> p = segment g d j)"
proof -
  from assms(1,2) obtain j where j: "p = segment g d j" "j < nsegs g d"
    and "net_short p 2 = of_nat (Suc k) \<or> net_short p 2 = of_nat (Suc k) - 1"
    by (auto simp: timely_pkt_def)
  then have "(of_nat (Suc j) :: u16) = of_nat (Suc k) \<or> (of_nat (Suc j) :: u16) = of_nat k"
    by (simp add: segment_def wire_simps)
  then have "Suc j = Suc k \<or> Suc j = k"
    using number_eq [of "Suc j" "Suc k"] number_eq [of "Suc j" k] j(2) assms(3,4) by linarith
  with j(1) show ?thesis by auto
qed

lemma check_segment:
  assumes inv: "upload_inv P g d k s" and fit: "fits g d"
  shows "if Suc k < nsegs g d
    then upload_inv P g d (Suc k) (check_and_write_block c ok (segment g d k) s) \<and>
      a_phase (check_and_write_block c ok (segment g d k) s) = ASending \<and>
      inq (check_and_write_block c ok (segment g d k) s) = inq s \<and>
      snd (pending (check_and_write_block c ok (segment g d k) s)) = ack_pkt (of_nat (Suc k))
    else stored c P g d (check_and_write_block c ok (segment g d k) s) \<and>
      a_phase (check_and_write_block c ok (segment g d k) s) = (if ok then ALast else AThrown Send_failed) \<and>
      (ok \<longrightarrow> ack_pkt (of_nat (Suc k)) \<in> snd ` set (out (check_and_write_block c ok (segment g d k) s)))"
proof -
  let ?b = "bbuf (bfs (segs s) (dp s))"
  let ?h = "ntoh_header (a_host c) (overlay ?b 0 (take MAXPKTSIZE (segment g d k)))"
  let ?s = "s\<lparr>segs := set_bbuf (dp s) ?h (segs s)\<rparr>"
  have g: "0 < g" "g \<le> MAXSEGSIZE" using fit by (simp_all add: fits_def)
  have blk: "block s = of_nat (Suc k)" using inv by (simp add: upload_inv_def)
  note r = segment_received [OF upload_inv_dp_len [OF inv] g(2)]
  have pr: "upload_inv P g d k (progress c ?s)"
    unfolding progress_inv by (rule set_dp_inv [OF inv r(5)])
  have "bbuf (bfs (segs (progress c ?s)) (dp (progress c ?s))) = ?h" by (simp add: bf_simps)
  then have b: "take (length (chunk g k d)) (drop 4 (bbuf (bfs (segs (progress c ?s)) (dp (progress c ?s))))) = chunk g k d"
    by (simp only: r(4))
  have "check_and_write_block c ok (segment g d k) s = write_segment c ok (length (chunk g k d)) (progress c ?s)"
    using blk by (simp add: check_and_write_block_def Let_def r(1-3) del: of_nat_Suc length_take)
  moreover have "inq (progress c ?s) = inq s" by simp
  ultimately show ?thesis using write_segment_cases [OF pr g(1) b refl, of c ok] by (simp only:)
qed

lemma check_inv:
  assumes inv: "upload_inv P g d k s" and t: "timely_pkt g d (block s) p" and fit: "fits g d"
  shows "up_at P g d k (check_and_write_block c ok p s) \<or>
    p = segment g d k \<and> (up_at P g d (Suc k) (check_and_write_block c ok p s) \<or> stored c P g d (check_and_write_block c ok p s))"
proof -
  let ?b = "bbuf (bfs (segs s) (dp s))"
  let ?rx = "take MAXPKTSIZE p"
  let ?h = "ntoh_header (a_host c) (overlay ?b 0 ?rx)"
  let ?s = "s\<lparr>segs := set_bbuf (dp s) ?h (segs s)\<rparr>"
  have b: "length ?b = MAXPKTSIZE" using inv by (rule upload_inv_dp_len)
  have g: "0 < g" "g \<le> MAXSEGSIZE" "nsegs g d < 65536" using fit by (simp_all add: fits_def)
  have k: "block s = of_nat (Suc k)" "k < nsegs g d" using inv by (simp_all add: upload_inv_def)
  have p: "TFTP_HEADER \<le> length p" using t by (simp add: timely_pkt_def)
  note h = header_received(1) [OF b p, where e = "a_host c"] header_received(2) [OF b p, where e = "a_host c"]
    header_received(3) [OF b p] header_received(4) [OF b p, where e = "a_host c"]
  have inv': "upload_inv P g d k ?s" using set_dp_inv [OF inv h(4)] .
  show ?thesis
  proof (cases "net_short p 0 = DATA")
    case False
    with h(1,3) quiet_inv [OF inv'] send_error_inv [OF inv', of c EBADID] show ?thesis
      by (simp add: check_and_write_block_def Let_def) auto
  next
    case True
    from timely_segment [OF t [unfolded k(1)] True k(2) g(3)]
    consider "p = segment g d k" | j where "k = Suc j" "p = segment g d j" by blast
    then show ?thesis
    proof cases
      case 1
      with check_segment [OF inv fit, of c ok] show ?thesis by (auto simp: up_at_def split: if_splits)
    next
      case 2
      note r = segment_received(1) [OF b g(2), where e = "a_host c" and d = d and j = j, folded 2(2)] segment_received(2) [OF b g(2), where e = "a_host c" and d = d and j = j, folded 2(2)]
        segment_received(3) [OF b g(2), where d = d and j = j, folded 2(2)]
      have u: "uint (of_nat (Suc j) :: u16) = int (Suc j)" "uint (of_nat (Suc k) :: u16) = int (Suc k)"
        using unat_number [of "Suc j"] unat_number [of "Suc k"] k(2) g(3) 2(1) by (simp_all add: uint_nat del: of_nat_Suc)
      then have "(of_nat (Suc j) :: u16) \<noteq> of_nat (Suc k)" using 2(1) by (metis n_not_Suc_n nat_int)
      moreover have "up_at P g d k (send_ackbuf TFTP_HEADER (?s\<lparr>inq := synchnet (inq s)\<rparr>))"
        by (rule resend_inv [of _ _ _ k]) (simp only: upload_inv_frame inv')
      ultimately show ?thesis
        using r(1-3) k(1) u 2(1) by (simp add: check_and_write_block_def Let_def del: of_nat_Suc)
    qed
  qed
qed

lemma stored_step:
  assumes "stored c P g d s"
  shows "stored c P g d (astep c e s)"
proof (cases e)
  case (ARecv ok)
  with assms show ?thesis
    by (auto simp: stored_def recv_done_def last_received_def Let_def TFTP_HEADER_def split: list.split prod.split if_splits)
qed (use assms in \<open>auto simp: stored_def recv_failed_def send_done_def timer_expired_def Let_def\<close>)

text \<open>A step keeps the number of stored blocks, or it receives the next block and stores it.\<close>

lemma upload_step:
  assumes at: "up_at P g d k s" and fit: "fits g d" and t: "timely c g d [e] s"
  shows "up_at P g d k (astep c e s) \<or>
    (\<exists>ok a q. e = ARecv ok \<and> inq s = (a, segment g d k) # q \<and> (up_at P g d (Suc k) (astep c e s) \<or> stored c P g d (astep c e s)))"
proof -
  have inv: "upload_inv P g d k s" and ph: "a_phase s \<noteq> AIdle" "a_phase s \<noteq> ALast"
    using at by (simp_all add: up_at_def)
  have sent: "up_at P g d k (send_done ok s)" for ok
  proof -
    have o: "upload_inv P g d k (s\<lparr>out := out s @ [pending s]\<rparr>)" using inv by (auto simp: upload_inv_def)
    then have "up_at P g d k (receive_block (s\<lparr>out := out s @ [pending s]\<rparr>))"
      by (auto simp: up_at_def receive_block_def start_timeout_def)
    with inv ph o show ?thesis
      by (cases "a_phase s"; cases ok) (use quiet_inv [of P g d k s, unfolded up_at_def] in \<open>auto simp: send_done_def up_at_def\<close>)
  qed
  show ?thesis
  proof (cases e)
    case (AArrive a p)
    with inv ph show ?thesis by (auto simp: up_at_def)
  next
    case (ARecv ok)
    show ?thesis
    proof (cases "a_phase s = AReceiving \<and> inq s \<noteq> []")
      case False
      then have "astep c e s = s"
        using ARecv ph by (auto simp: recv_done_def split: list.split aphase.split)
      with at show ?thesis by simp
    next
      case True
      then obtain a p q where q: "inq s = (a, p) # q" by (cases "inq s") auto
      have "timely_pkt g d (block (s\<lparr>inq := q, peer := a\<rparr>)) p" using t True ARecv q by simp
      moreover have "upload_inv P g d k (s\<lparr>inq := q, peer := a\<rparr>)" by (simp add: inv)
      moreover have "astep c e s = check_and_write_block c ok p (s\<lparr>inq := q, peer := a\<rparr>)"
        using True q ARecv by (simp add: recv_done_def)
      ultimately show ?thesis using check_inv [of P g d k "s\<lparr>inq := q, peer := a\<rparr>" p c ok] fit q ARecv by auto
    qed
  next
    case ARecvFails
    with inv ph show ?thesis
      by (cases "a_phase s") (auto simp: up_at_def recv_failed_def receive_block_def start_timeout_def)
  next
    case (ASent ok)
    with sent show ?thesis by simp
  next
    case ASentLate
    with sent inv ph show ?thesis by (simp add: up_at_def)
  next
    case ATimer
    with inv ph show ?thesis by (auto simp: up_at_def timer_expired_def Let_def)
  qed
qed

lemma up_inv_run:
  assumes "fits g d"
  shows "up_inv c P g d s \<Longrightarrow> timely c g d evs s \<Longrightarrow> up_inv c P g d (arun c evs s)"
proof (induction evs arbitrary: s)
  case Nil
  then show ?case by (simp add: arun_def)
next
  case (Cons e es)
  have "up_inv c P g d (astep c e s)"
  proof (cases "stored c P g d s")
    case True
    then show ?thesis by (simp add: up_inv_def stored_step)
  next
    case False
    with Cons.prems obtain k where k: "up_at P g d k s" by (auto simp: up_inv_def)
    have "timely c g d [e] s" using Cons.prems(2) by simp
    from upload_step [OF k assms this] show ?thesis by (auto simp: up_inv_def)
  qed
  with Cons show ?case by (simp add: arun_def)
qed

section \<open>The start of an upload\<close>

lemma start_inv:
  assumes "sound_out f" "fdata f = []" "optack = [] \<or> ack_ok optack" "unat (g_segsize (os s)) = g"
    and s: "length (bbuf (bfs (segs s) False)) = MAXPKTSIZE" "length (bbuf (bfs (segs s) True)) = MAXPKTSIZE"
    "length (ackbuf s) = PKTSIZE" "file_path s = P" "\<not> renamed s" "\<not> last_timeout s" "out s = []"
  shows "upload_inv P g d 0 (start_recvfile c (Some f) optack s) \<and> a_phase (start_recvfile c (Some f) optack s) = ASending"
proof -
  obtain i t where r: "rw_init False (segs s) = (i, t)" by fastforce
  have t: "drained t" "i = current t" using drained_init [OF s(1,2) r] by blast+
  have z: "ack_upto 0 (ack_pkt 0)" using ack_upto_ack [of 0 0] by simp
  show ?thesis
  proof (cases "optack = []")
    case True
    have "take 4 (put_header (a_host c) ACK 0 (ackbuf s)) = ack_pkt 0"
      using s(3) by (simp add: take_put_header ack_pkt_def size_defs)
    with True r t z assms show ?thesis
      by (simp add: start_recvfile_def send_ack_def send_ackbuf_drained upload_inv_def nsegs_def TFTP_HEADER_def)
  next
    case False
    with assms(3) have o: "length optack \<le> PKTSIZE" "take 2 optack = oack_header" by (simp_all add: ack_ok_def)
    have n: "net_short q 0 = OACK" if "take 2 q = oack_header" for q
      using that net_short_prefix [of 0 2 q] by (simp add: oack_header_def net_short_def)
    have l: "2 \<le> length optack" using o(2) by (auto simp: oack_header_def dest: arg_cong [where f = length])
    let ?b = "overlay (ackbuf s) 0 optack"
    have lb: "2 \<le> length ?b" using s(3) o(1) by (simp add: size_defs)
    have "take n ?b = take n optack" if "n \<le> length optack" for n
      using that by (simp add: overlay_def)
    then have "take 2 (take 4 ?b) = oack_header" "take 2 (take (length optack) ?b) = oack_header"
      using l o(2) by (simp_all add: min_def)
    then have "ack_upto 0 (take 4 ?b)" "ack_upto 0 (take (length optack) ?b)"
      using n l lb by (simp_all add: ack_upto_def)
    with False r t assms o(1) show ?thesis
      by (simp add: start_recvfile_def send_ackbuf_drained upload_inv_def nsegs_def)
  qed
qed

lemma request_starts:
  assumes "tftp (a_env c) (take PKTSIZE rx) = Done 0 (Some f) path optack opts" "rx \<noteq> []"
    and "sound_out f" "fdata f = []"
    and g_def: "g = unat (g_segsize opts)" and s_def: "s = arun c [AArrive a rx, ARecv True] server_start"
  shows "upload_inv path g d 0 s \<and> a_phase s = ASending \<and> inq s = [] \<and> 0 < g \<and> g \<le> MAXSEGSIZE"
proof -
  let ?s = "server_start\<lparr>inq := [], sender := a, file_path := path, os := opts\<rparr>"
  have s: "s = start_recvfile c (Some f) optack ?s"
    using assms(1,2) by (simp add: s_def arun_def server_start_def running_def recv_done_def request_received_def size_defs)
  have o: "optack = [] \<or> ack_ok optack" "seg_ok opts"
    using tftp_sane [OF assms(1)] by (simp_all add: sane_done_def)
  from start_inv [OF assms(3,4) o(1), of ?s g path d c]
  have "upload_inv path g d 0 s \<and> a_phase s = ASending"
    unfolding s by (simp add: g_def server_start_def bfs_start_def size_defs)
  moreover have "inq s = []"
    unfolding s start_recvfile_def by (auto simp: Let_def send_ack_def send_ackbuf_def split: prod.split option.split)
  ultimately show ?thesis using o(2) by (simp add: g_def seg_ok_def)
qed

section \<open>A client that keeps up\<close>

definition exchange :: "sockaddr \<Rightarrow> nat \<Rightarrow> byte list \<Rightarrow> nat \<Rightarrow> aevent list" where
  "exchange a g d k = [ASent True, AArrive a (segment g d k), ARecv True]"

lemma arun_append: "arun c (es @ es') s = arun c es' (arun c es s)"
  by (simp add: arun_def)

lemma exchange_run:
  assumes "upload_inv P g d k s" "a_phase s = ASending" "inq s = []"
  obtains s1 where "upload_inv P g d k s1" "inq s1 = []" "peer s1 = a" "armed s1" "timeout s1 = timeout s"
    "\<And>p ok. arun c [ASent True, AArrive a p, ARecv ok] s = check_and_write_block c ok p s1"
proof
  let ?s = "s\<lparr>out := out s @ [pending s], armed := True, a_phase := AReceiving, inq := [], peer := a\<rparr>"
  show "arun c [ASent True, AArrive a p, ARecv ok] s = check_and_write_block c ok p ?s" for p ok
    using assms(2,3) by (simp add: arun_def send_done_def receive_block_def start_timeout_def running_def recv_done_def)
  have "upload_inv P g d k (s\<lparr>out := out s @ [pending s]\<rparr>)" using assms(1) by (auto simp: upload_inv_def)
  then show "upload_inv P g d k ?s" by (simp_all add: upload_inv_def)
qed simp_all

lemma exchanges_run:
  assumes "upload_inv P g d 0 s" "a_phase s = ASending" "inq s = []" "fits g d" "m < nsegs g d"
  shows "let s' = arun c (concat (map (exchange a g d) [0..<m])) s
    in upload_inv P g d m s' \<and> a_phase s' = ASending \<and> inq s' = []"
  using assms(5)
proof (induction m)
  case 0
  with assms show ?case by (simp add: arun_def)
next
  case (Suc m)
  let ?s = "arun c (concat (map (exchange a g d) [0..<m])) s"
  from Suc have inv: "upload_inv P g d m ?s" "a_phase ?s = ASending" "inq ?s = []" by (simp_all add: Let_def)
  obtain s1 where s1: "upload_inv P g d m s1" "inq s1 = []"
    "\<And>p. arun c [ASent True, AArrive a p, ARecv True] ?s = check_and_write_block c True p s1"
    using exchange_run [OF inv, of a c thesis] by blast
  have "arun c (concat (map (exchange a g d) [0..<Suc m])) s = check_and_write_block c True (segment g d m) s1"
    using s1(3) by (simp add: arun_append exchange_def)
  with check_segment [OF s1(1) assms(4), of c True] Suc.prems s1(2) show ?case by (simp add: Let_def)
qed

section \<open>Properties\<close>

text \<open>
  C8: an upload whose datagrams are timely is stored block by block.  Whatever is lost,
  repeated at once or delayed by timeouts, the file holds a beginning of the client's data; it is
  renamed to its final name only when it holds all of it; and an acknowledgement is sent only
  for blocks that are in the file.
\<close>

theorem async_stores_upload:
  assumes "tftp (a_env c) (take PKTSIZE rx) = Done 0 (Some f) path optack opts" "rx \<noteq> []"
    and "sound_out f" "fdata f = []" "nsegs g d < 65536" "g = unat (g_segsize opts)"
    and "timely c g d evs (arun c [AArrive a rx, ARecv True] server_start)"
    and "s = arun c ([AArrive a rx, ARecv True] @ evs) server_start"
  shows "\<exists>f'. guard s = Some f' \<and> prefix (fdata f') d \<and> (renamed s \<longrightarrow> fdata f' = d) \<and> file_path s = path \<and>
    (\<forall>(b, p)\<in>set (out s). net_short p 0 = ACK \<longrightarrow> (\<exists>i. p = ack_pkt (of_nat i) \<and> prefix (take (g * i) d) (fdata f')))"
proof -
  let ?s0 = "arun c [AArrive a rx, ARecv True] server_start"
  note st = request_starts [OF assms(1-4,6) refl, of d a]
  have fit: "fits g d" using st assms(5) by (simp add: fits_def)
  have "up_inv c path g d ?s0" using st by (auto simp: up_inv_def up_at_def)
  from up_inv_run [OF fit this assms(7)] have "up_inv c path g d s" by (simp add: assms(8) arun_def)
  then consider k where "upload_inv path g d k s" | "stored c path g d s" by (auto simp: up_inv_def up_at_def)
  then show ?thesis
  proof cases
    case 1
    then obtain f' where f': "guard s = Some f'" "fdata f' = take (g * k) d" "\<not> renamed s" "file_path s = path"
      and acks: "\<forall>x\<in>set (out s). ack_upto k (snd x)" by (auto simp: upload_inv_def)
    have "prefix (take (g * i) d) (fdata f')" if "i \<le> k" for i
      using that by (simp add: f'(2) take_is_prefix prefix_def) (metis append_take_drop_id min.absorb1 mult_le_mono2 take_take)
    with f' acks show ?thesis by (fastforce simp: ack_upto_def take_is_prefix)
  next
    case 2
    then obtain f' where "guard s = Some f'" "fdata f' = d" "file_path s = path"
      "\<forall>x\<in>set (out s). ack_upto (nsegs g d) (snd x)" by (auto simp: stored_def)
    then show ?thesis by (fastforce simp: ack_upto_def take_is_prefix)
  qed
qed

definition demo_cfg :: "cfile \<Rightarrow> acfg" where
  "demo_cfg f = \<lparr>a_host = Little, a_env = demo_env f, a_strerror = \<lambda>_. cbytes ''error'', a_callback = False, a_listen = True\<rparr>"

definition demo_addr :: sockaddr where "demo_addr = \<lparr>family = 2, address = [127, 0, 0, 1], port = 1069\<rparr>"

lemma demo_accepted:
  "tftp (a_env (demo_cfg f)) (take PKTSIZE demo_request) = Done 0 (Some f) (cbytes ''/tmp/tftpboot/a'') [] init_opt"
  by (simp add: demo_cfg_def demo_tftp)

lemma demo_segsize: "unat (g_segsize init_opt) = 512"
  by (simp add: init_opt_def default_blksize_def size_defs)

text \<open>The acknowledgement is sent, a repeated timeout passes, then the only block arrives.\<close>

theorem async_stores_upload_witness:
  "\<exists>f'. guard (arun (demo_cfg (open_trunc None)) ([AArrive demo_addr demo_request, ARecv True] @
      [ASent True, ATimer, ARecvFails, AArrive demo_addr (segment 512 [7] 0), ARecv True]) server_start) = Some f' \<and>
    prefix (fdata f') [7]"
proof -
  let ?c = "demo_cfg (open_trunc None)"
  let ?s = "arun ?c [AArrive demo_addr demo_request, ARecv True] server_start"
  have n: "nsegs 512 [7 :: byte] = 1" by (simp add: nsegs_def)
  have s: "upload_inv (cbytes ''/tmp/tftpboot/a'') 512 [7] 0 ?s" "a_phase ?s = ASending" "inq ?s = []"
    using request_starts [OF demo_accepted demo_tftp(3) _ _ demo_segsize [symmetric] refl] by simp_all
  have u: "\<not> last_timeout ?s" "block ?s = 1" using s(1) by (simp_all add: upload_inv_def)
  have "timely_pkt 512 [7] 1 (segment 512 [7] 0)"
    by (simp add: timely_pkt_def n segment_def wire_simps size_defs)
  then have "timely ?c 512 [7] [ASent True, ATimer, ARecvFails, AArrive demo_addr (segment 512 [7] 0), ARecv True] ?s"
    using s(2,3) u
    by (simp add: send_done_def receive_block_def start_timeout_def running_def timer_expired_def Let_def recv_failed_def
        del: One_nat_def)
  from async_stores_upload [OF demo_accepted demo_tftp(3) _ _ _ demo_segsize [symmetric] this refl] n show ?thesis by auto
qed

text \<open>
  C9: an upload from a client that answers each acknowledgement with the next block ends:
  the whole file is stored and renamed to its final name, and \<^verbatim>\<open>receive_file\<close> returns that name, also when the
  renaming failed.
\<close>

theorem async_upload_completes:
  assumes "tftp (a_env c) (take PKTSIZE rx) = Done 0 (Some f) path optack opts" "rx \<noteq> []"
    and "sound_out f" "fdata f = []" "nsegs g d < 65536" "g = unat (g_segsize opts)"
    and "a_listen c" "e_mkdir (a_env c) (g_rootdir (a_env c))"
    and "evs = [AArrive a rx, ARecv True] @ concat (map (exchange a g d) [0..<nsegs g d]) @ [ATimer, ARecvFails]"
  shows "receive_file c evs = Returns path \<and>
    (let s = arun c evs server_start
     in renamed s = e_rename (a_env c) (path @ cbytes ''.upload'') path \<and> (\<exists>f'. guard s = Some f' \<and> fdata f' = d))"
proof -
  let ?s0 = "arun c [AArrive a rx, ARecv True] server_start"
  note st = request_starts [OF assms(1-4,6) refl, of d a]
  have fit: "fits g d" using st assms(5) by (simp add: fits_def)
  define m where "m = nsegs g d - 1"
  have m: "nsegs g d = Suc m" by (simp add: m_def nsegs_def)
  let ?s1 = "arun c (concat (map (exchange a g d) [0..<m])) ?s0"
  have inv: "upload_inv path g d m ?s1" "a_phase ?s1 = ASending" "inq ?s1 = []"
    using exchanges_run [of path g d ?s0 m c a] st fit m by (simp_all add: Let_def)
  obtain s2 where s2: "upload_inv path g d m s2"
    "\<And>p. arun c [ASent True, AArrive a p, ARecv True] ?s1 = check_and_write_block c True p s2"
    using exchange_run [OF inv, of a c thesis] by blast
  define s3 where "s3 = check_and_write_block c True (segment g d m) s2"
  have "evs = [AArrive a rx, ARecv True] @ concat (map (exchange a g d) [0..<m]) @
      [ASent True, AArrive a (segment g d m), ARecv True] @ [ATimer, ARecvFails]"
    unfolding assms(9) m by (simp add: exchange_def)
  then have run: "arun c evs server_start = arun c [ATimer, ARecvFails] s3"
    by (simp only: arun_append s2(2) s3_def)
  have "stored c path g d s3" "a_phase s3 = ALast"
    using check_segment [OF s2(1) fit, of c True] m by (simp_all add: s3_def)
  then show ?thesis
    unfolding receive_file_def run using assms(7,8)
    by (auto simp: stored_def arun_def running_def timer_expired_def Let_def recv_failed_def)
qed

theorem async_upload_completes_witness:
  "receive_file (demo_cfg (open_trunc None))
    ([AArrive demo_addr demo_request, ARecv True] @ exchange demo_addr 512 (replicate 600 7) 0 @
     exchange demo_addr 512 (replicate 600 7) 1 @ [ATimer, ARecvFails]) = Returns (cbytes ''/tmp/tftpboot/a'')"
proof -
  have n: "nsegs 512 (replicate 600 (7 :: byte)) = 2" by (simp add: nsegs_def)
  have u: "[0..<2] = [0, 1 :: nat]" by (simp add: upt_rec)
  show ?thesis
    using async_upload_completes [OF demo_accepted demo_tftp(3) _ _ _ demo_segsize [symmetric] _ _ refl,
        of "open_trunc None" "replicate 600 7" demo_addr] n u by (simp add: demo_cfg_def demo_env_def)
qed

text \<open>
  C20: the server has no defence against an old block: a data block from before the last one, such as a
  datagram the network delayed, is written to the file as the expected block, and acknowledged as it.
\<close>

theorem async_writes_wrong_block:
  assumes "tftp (a_env c) (take PKTSIZE rx) = Done 0 (Some f) path optack opts" "rx \<noteq> []"
    and "sound_out f" "fdata f = []" "nsegs g d < 65536" "g = unat (g_segsize opts)"
    and "Suc j < k" "Suc k < nsegs g d"
    and "evs = [AArrive a rx, ARecv True] @ concat (map (exchange a g d) [0..<k]) @ exchange a g d j"
  shows "let s = arun c evs server_start in
    pending s = (a, ack_pkt (of_nat (Suc k))) \<and> (\<exists>f'. guard s = Some f' \<and> fdata f' = take (g * k) d @ chunk g j d)"
proof -
  let ?s0 = "arun c [AArrive a rx, ARecv True] server_start"
  note st = request_starts [OF assms(1-4,6) refl, of d a]
  have fit: "fits g d" using st assms(5) by (simp add: fits_def)
  have k: "k < nsegs g d" using assms(8) by simp
  let ?s1 = "arun c (concat (map (exchange a g d) [0..<k])) ?s0"
  have inv: "upload_inv path g d k ?s1" "a_phase ?s1 = ASending" "inq ?s1 = []"
    using exchanges_run [of path g d ?s0 k c a] st fit k by (simp_all add: Let_def)
  obtain s2 where s2: "upload_inv path g d k s2" "peer s2 = a"
    "\<And>p. arun c [ASent True, AArrive a p, ARecv True] ?s1 = check_and_write_block c True p s2"
    using exchange_run [OF inv, of a c thesis] by blast
  have run: "arun c evs server_start = check_and_write_block c True (segment g d j) s2"
    unfolding assms(9) by (simp only: arun_append exchange_def [of a g d j] s2(3))
  have g: "0 < g" "g \<le> MAXSEGSIZE" using fit by (simp_all add: fits_def)
  have j: "length (chunk g j d) = g" using nsegs_last(2) [OF g(1), of j d] assms(7,8) by simp
  note r = segment_received [OF upload_inv_dp_len [OF s2(1)] g(2), where d = d and j = j]
  let ?h = "ntoh_header (a_host c) (overlay (bbuf (bfs (segs s2) (dp s2))) 0 (take MAXPKTSIZE (segment g d j)))"
  let ?s = "s2\<lparr>segs := set_bbuf (dp s2) ?h (segs s2), inq := synchnet (inq s2)\<rparr>"
  have b: "(of_nat (Suc j) :: u16) \<noteq> of_nat (Suc k)" "uint (of_nat (Suc j) :: u16) \<noteq> uint (of_nat (Suc k) :: u16) - 1"
    using unat_number [of "Suc j"] unat_number [of "Suc k"] assms(5,7,8) by (auto simp: uint_nat simp del: of_nat_Suc)
  have blk: "block s2 = of_nat (Suc k)" using s2(1) by (simp add: upload_inv_def)
  have c: "check_and_write_block c True (segment g d j) s2 = write_segment c True g ?s"
    using blk b by (simp add: check_and_write_block_def Let_def r(1-3) j del: of_nat_Suc length_take)
  have inv': "upload_inv path g d k ?s"
    using set_dp_inv [OF s2(1) r(5)] by simp
  then obtain f' where f': "guard ?s = Some f'" "sound_out f'" "drained (segs ?s)" "dp ?s = current (segs ?s)"
    "fdata f' = take (g * k) d" "length (ackbuf ?s) = PKTSIZE" "unat (g_segsize (os ?s)) = g"
    unfolding upload_inv_def by blast
  have bs: "take g (drop 4 (bbuf (bfs (segs ?s) (dp ?s)))) = chunk g j d"
    using r(4) [unfolded j] by (simp add: bf_simps)
  have a: "take TFTP_HEADER (put_header (a_host c) ACK (of_nat (Suc k)) (ackbuf ?s)) = ack_pkt (of_nat (Suc k))"
    using f'(6) by (simp add: take_put_header ack_pkt_def size_defs del: of_nat_Suc)
  show ?thesis
    using write_segment_sound [OF f'(1-4), where n = g and c = c] a f'(5,7) bs blk s2(2)
    unfolding run c by (simp add: Let_def del: of_nat_Suc)
qed

theorem async_writes_wrong_block_witness:
  "\<exists>f'. guard (arun (demo_cfg (open_trunc None)) ([AArrive demo_addr demo_request, ARecv True] @
      concat (map (exchange demo_addr 512 (replicate 1600 7)) [0..<2]) @ exchange demo_addr 512 (replicate 1600 7) 0) server_start) =
        Some f' \<and> length (fdata f') = 1536"
proof -
  have n: "nsegs 512 (replicate 1600 (7 :: byte)) = 4" by (simp add: nsegs_def)
  show ?thesis
    using async_writes_wrong_block [OF demo_accepted demo_tftp(3) _ _ _ demo_segsize [symmetric] _ _ refl,
        of "open_trunc None" "replicate 1600 7" 0 2 demo_addr] n
    by (auto simp: chunk_def Let_def simp del: upt_rec_numeral)
qed

end
