(* ===== verification/Async_Network.thy ===== *)
theory Async_Network
  imports Tftp_Network Async_Transfer
begin

text \<open>
  A \<^verbatim>\<open>put\<close> of the client to the C++ server.  The server writes an old data block into the file
  (\<open>async_writes_wrong_block\<close>), so the path from the client to it is assumed to keep the order and
  to deliver nothing twice; it may lose datagrams, and the path back may also repeat, delay and reorder them.
\<close>

section \<open>The two programs\<close>

record apair =
  p_client :: cfg
  p_set :: settings
  p_name :: "byte list"
  p_mode :: "byte list"
  p_server :: acfg

definition put_cfg :: "apair \<Rightarrow> cfg" where
  "put_cfg w = mode_cfg (p_client w) (p_mode w)"

definition asent :: "server \<Rightarrow> datagram set" where
  "asent v = snd ` set (server.out v)"

fun aown :: "aevent \<Rightarrow> bool" where
  "aown (AArrive a p) \<longleftrightarrow> False"
| "aown _ \<longleftrightarrow> True"

text \<open>
  The number i counts the client's datagrams that have reached the server or are lost; a later one, j, is the
  next to arrive.
\<close>

inductive aput :: "apair \<Rightarrow> client \<Rightarrow> client \<Rightarrow> nat \<Rightarrow> server \<Rightarrow> bool" for w :: apair and s0 :: client where
  a_call: "aput w s0 (csendfile (put_cfg w) (p_set w) (p_name w) (p_mode w) x s0) 0 server_start"
| a_client: "aput w s0 s i v \<Longrightarrow> carrives (asent v) e \<Longrightarrow> aput w s0 (csend_step (put_cfg w) (p_set w) e s) i v"
| a_channel: "aput w s0 s i v \<Longrightarrow> i \<le> j \<Longrightarrow> j < length (cout s) \<Longrightarrow>
    aput w s0 s (Suc j) (astep (p_server w) (AArrive a (snd (cout s ! j))) v)"
| a_server: "aput w s0 s i v \<Longrightarrow> aown e \<Longrightarrow> aput w s0 s i (astep (p_server w) e v)"

section \<open>Numbers of the client's datagrams\<close>

definition num :: "datagram \<Rightarrow> nat" where
  "num p = (if net_short p 0 = DATA then unat (net_short p 2) else 0)"

lemma segment_block: "segment SEGSIZE d k = block_pkt d k"
  by (simp add: segment_def block_pkt_def)

lemma nsegs_nblocks: "nsegs SEGSIZE d = nblocks d"
  by (simp add: nsegs_def nblocks_def)

lemma num_block: "Suc k < 65536 \<Longrightarrow> num (block_pkt d k) = Suc k"
  by (simp add: num_def block_pkt_def wire_simps unat_number del: of_nat_Suc)

lemma num_request: "num (request_pkt WRQ name mode) = 0"
  by (simp add: num_def wire_simps opcode_defs)

lemma sorted_remdups_adj: "sorted (map f (remdups_adj xs)) \<Longrightarrow> sorted (map f xs)"
proof (induction xs rule: remdups_adj.induct)
  case (3 x y xs)
  then show ?case by (auto split: if_splits simp: remdups_adj_set)
qed auto

lemma nums_sorted:
  assumes "put_ok c d (request_pkt WRQ name mode) s" "nblocks d < 65536"
  shows "sorted (map num (map snd (cout s)))"
proof -
  have n: "map num (file_blocks d) = map Suc [0..<nblocks d]"
    using assms(2) by (simp add: file_blocks_def num_block)
  have "prefix (remdups_adj (map snd (cout s))) (request_pkt WRQ name mode # file_blocks d)"
    by (rule put_ok_prefix [OF assms(1) request_not_block]) simp
  then obtain ys where "request_pkt WRQ name mode # file_blocks d = remdups_adj (map snd (cout s)) @ ys"
    by (auto simp: prefix_def)
  then have "map num (remdups_adj (map snd (cout s))) @ map num ys = 0 # map Suc [0..<nblocks d]"
    by (metis list.map(2) map_append n num_request)
  moreover have "sorted (0 # map Suc [0..<nblocks d])" by (simp add: sorted_map)
  ultimately have "sorted (map num (remdups_adj (map snd (cout s))))" by (metis sorted_append)
  then show ?thesis by (rule sorted_remdups_adj)
qed

lemma requested_last:
  assumes "requested (length (cout s)) req s" "cout s \<noteq> []"
  shows "snd (last (cout s)) = req"
proof -
  have "map snd (cout s) = replicate (length (cout s)) req" using assms(1) by (simp add: requested_def)
  with assms(2) have "last (map snd (cout s)) = req" by (metis last_replicate length_0_conv)
  with assms(2) show ?thesis by (simp add: last_map)
qed

text \<open>While the client waits, the last datagram it sent has the number of its block.\<close>

lemma last_sent:
  assumes "put_ok c d (request_pkt WRQ name mode) s" "cphase s = CWaiting" "nblocks d < 65536"
  shows "cout s \<noteq> []" "num (snd (last (cout s))) = unat (cblock s)"
proof -
  have "cout s \<noteq> [] \<and> num (snd (last (cout s))) = unat (cblock s)"
    using assms(1,2)
  proof (cases rule: put_waiting)
    case ask
    then show ?thesis using requested_last num_request by (simp add: asking_def)
  next
    case (data n k)
    then have o: "drop n (map snd (cout s)) \<noteq> []" "last (drop n (map snd (cout s))) = block_pkt d k"
      and b: "cblock s = of_nat (Suc k)" by (auto simp: sent_upto_def send_inv_def)
    then have ne: "cout s \<noteq> []" by auto
    have k: "Suc k < 65536" using send_inv_bound [OF data(4)] assms(3) by simp
    from o have "last (map snd (cout s)) = block_pkt d k" by (simp add: last_drop)
    with ne b k show ?thesis by (simp add: last_map num_block unat_number del: of_nat_Suc)
  qed
  then show "cout s \<noteq> []" "num (snd (last (cout s))) = unat (cblock s)" by simp_all
qed

section \<open>Steps of the client\<close>

lemma cblock_sending: "cblock (csend_data c t v s) = cblock s" "cblock (cnext_data c t v s) = cblock s"
proof -
  show d: "cblock (csend_data c t v s) = cblock s" for s by (rule csend_data_effect [of c t v s]) blast
  show "cblock (cnext_data c t v s) = cblock s"
    by (simp add: cnext_data_def cnak_def csendto_def set_cdp_buf_def d Let_def split: prod.split)
qed

text \<open>What the client takes for an acknowledgement of its block.\<close>

definition taken :: "cfg \<Rightarrow> datagram \<Rightarrow> client \<Rightarrow> bool" where
  "taken c p s \<longleftrightarrow> (let a = ntoh_header (host c) (recv_into (cackbuf s) p)
     in th_opcode (host c) a = ACK \<and> th_block (host c) a = cblock s)"

lemma chandle_taken:
  "cblock (chandle_ack c t v p s) = cblock s \<or> cblock (chandle_ack c t v p s) = cblock s + 1 \<and> taken c p s"
  "cphase (chandle_ack c t v p s) = CFinished \<Longrightarrow> cphase s \<noteq> CFinished \<Longrightarrow> taken c p s"
  by (auto simp: chandle_ack_def taken_def Let_def cblock_sending sending_goes_on csynch_def split: if_splits)

lemma taken_ack:
  assumes "taken c p s" "ack_upto k p" "length (cackbuf s) = PKTSIZE"
  shows "\<exists>i\<le>k. p = ack_pkt (of_nat i) \<and> cblock s = of_nat i"
proof -
  let ?b = "recv_into (cackbuf s) p"
  have l: "4 \<le> length ?b" "2 \<le> length (take PKTSIZE p)"
    using assms(2,3) by (auto simp: recv_into_def ack_upto_def size_defs)
  then have "th_opcode (host c) (ntoh_header (host c) ?b) = net_short (take PKTSIZE p) 0"
    by (simp add: ntoh_header_opcode recv_into_def net_short_overlay)
  also have "\<dots> = net_short p 0" by (simp add: net_short_prefix size_defs)
  finally have "net_short p 0 = ACK" using assms(1) by (simp add: taken_def Let_def)
  with assms(2) obtain i where i: "i \<le> k" "p = ack_pkt (of_nat i)" by (auto simp: ack_upto_def)
  with assms(1) ack_received [OF assms(3), of "host c" "of_nat i"] show ?thesis by (auto simp: taken_def Let_def)
qed


lemma cnext_quiet:
  assumes "source_inv (convert c) (cfs s)"
  shows "cphase (cnext_data c t v s) = CWaiting \<or> cout (cnext_data c t v s) = cout s"
proof -
  have d: "cphase (csend_data c t v s) = CWaiting \<or> cout (csend_data c t v s) = cout s" for s
    by (rule csend_data_effect [of c t v s]) auto
  have "0 \<le> fst (readit (convert c) (cfs s))" using source_take(2) [OF assms] by (simp add: take_block_def split_beta del: length_take)
  then obtain s' where "cnext_data c t v s = csend_data c t v s'" "cout s' = cout s" by (rule cnext_data_load)
  with d [of s'] show ?thesis by simp
qed

text \<open>A step that leaves the client in another phase than waiting has sent nothing.\<close>

lemma client_quiet:
  assumes "put_ok c d req s"
  shows "cphase (csend_step c t e s) = CWaiting \<or> cout (csend_step c t e s) = cout s"
proof -
  have src: "source_inv (convert c) (cfs s)" if "cphase s = CWaiting"
    using assms that by (cases rule: put_waiting) (simp_all add: asking_def send_inv_def)
  have d: "cphase (csend_data c t v s) = CWaiting \<or> cout (csend_data c t v s) = cout s" for v s
    by (rule csend_data_effect [of c t v s]) auto
  have "cphase (chandle_ack c t v p r) = CWaiting \<or> cout (chandle_ack c t v p r) = cout r"
    if "source_inv (convert c) (cfs r)" for v p r
    using that d [of v "csynch (r\<lparr>cackbuf := a\<rparr>)" for a]
      cnext_quiet [of c "r\<lparr>cackbuf := a, amount := m, cblock := b\<rparr>" t v for a m b]
      cnext_quiet [of c "r\<lparr>cackbuf := a, firsttrip := m, cblock := b\<rparr>" t v for a m b]
    by (auto simp: chandle_ack_def Let_def)
  note h = this [of "s\<lparr>cinq := q, from_addr := a\<rparr>" for q a, simplified]
  show ?thesis
  proof (cases e)
    case (CAlarm v)
    then show ?thesis using d [of v "s\<lparr>ctimeout := ctimeout s + crexmtval t\<rparr>"] by (simp add: ctimer_def Let_def)
  next
    case (CRecvAlarm v)
    then show ?thesis
      using d [of v "s\<lparr>cinq := q, from_addr := a, cackbuf := b, ctimeout := ctimeout s + crexmtval t\<rparr>" for q a b]
      by (simp add: ctimer_def Let_def split: list.split)
  qed (use src h in \<open>auto simp: Let_def split: list.split\<close>)
qed

lemma cout_grows: "prefix (cout s) (cout (csend_step c t e s))"
proof -
  have d: "prefix (cout s) (cout (csend_data c t v s))" for v s by (rule csend_data_effect [of c t v s]) simp
  have n: "prefix (cout s) (cout (cnext_data c t v s))" for v s
  proof -
    obtain m i fs' where r: "readit (convert c) (cfs s) = (m, i, fs')" by (metis prod_cases3)
    show ?thesis
    proof (cases "m < 0")
      case False
      with r have "0 \<le> fst (readit (convert c) (cfs s))" by simp
      then obtain s' where "cnext_data c t v s = csend_data c t v s'" "cout s' = cout s" by (rule cnext_data_load)
      with d [of s' v] show ?thesis by simp
    qed (simp add: cnext_data_def r cnak_def csendto_def Let_def split: prod.split)
  qed
  have h: "prefix (cout s) (cout (chandle_ack c t v p s))" for v p s
    using d [of "csynch (s\<lparr>cackbuf := a\<rparr>)" v for a] n [of "s\<lparr>cackbuf := a, amount := m, cblock := b\<rparr>" v for a m b]
      n [of "s\<lparr>cackbuf := a, firsttrip := m, cblock := b\<rparr>" v for a m b]
    by (simp add: chandle_ack_def Let_def)
  have r: "prefix (cout s) (cout (ctimer t (csend_data c t v) s))" for v s
    using d [of "s\<lparr>ctimeout := ctimeout s + crexmtval t\<rparr>" v] by (simp add: ctimer_def Let_def)
  show ?thesis
    using r h [of "s\<lparr>cinq := q, from_addr := a\<rparr>" v p for q a v p]
      r [of "s\<lparr>cinq := q, from_addr := a, cackbuf := b\<rparr>" v for q a b v]
    by (cases e) (simp_all add: Let_def split: list.split)
qed

lemma cblock_step:
  "cblock (csend_step c t e s) = cblock s \<or>
   (\<exists>a p q. cphase s = CWaiting \<and> cinq s = (a, p) # q \<and> cblock (csend_step c t e s) = cblock s + 1 \<and> taken c p s)"
proof (cases e)
  case (CRecv v)
  show ?thesis
  proof (cases "cinq s")
    case (Cons ap q)
    obtain a p where "ap = (a, p)" by (cases ap)
    with CRecv Cons chandle_taken(1) [of c t v p "s\<lparr>cinq := q, from_addr := a\<rparr>"] show ?thesis
      by (auto simp: Let_def taken_def)
  qed (simp add: CRecv)
qed (auto simp: ctimer_def cblock_sending Let_def split: list.split)


section \<open>Steps of the server\<close>

text \<open>No transfer has begun, and nothing was sent.\<close>

definition asleep :: "server \<Rightarrow> bool" where
  "asleep v \<longleftrightarrow> v\<lparr>a_phase := AIdle, server.inq := [], armed := True, server.timeout := rexmtval, sender := sender server_start,
      file_path := [], os := init_opt\<rparr> = server_start \<and>
     a_phase v \<in> {AIdle, AQuiet, AReturned} \<union> range AThrown"

lemma asleep_frame [simp]:
  "asleep (v\<lparr>server.inq := q\<rparr>) = asleep v" "asleep (v\<lparr>armed := b\<rparr>) = asleep v" "asleep (v\<lparr>server.timeout := i\<rparr>) = asleep v"
  "asleep (v\<lparr>sender := a\<rparr>) = asleep v" "asleep (v\<lparr>file_path := p\<rparr>) = asleep v" "asleep (v\<lparr>os := x\<rparr>) = asleep v"
  "asleep v \<Longrightarrow> asleep (v\<lparr>a_phase := y\<rparr>) = (y \<in> {AIdle, AQuiet, AReturned} \<union> range AThrown)"
  by (simp_all add: asleep_def)

lemma asleep_fields:
  assumes "asleep v"
  shows "server.out v = []" "\<not> renamed v" "\<not> last_timeout v" "server.ackbuf v = replicate PKTSIZE 0" "segs v = bfs_start"
    "a_phase v \<in> {AIdle, AQuiet, AReturned} \<union> range AThrown"
proof -
  from assms have v: "server_start = v\<lparr>a_phase := AIdle, server.inq := [], armed := True, server.timeout := rexmtval,
      sender := sender server_start, file_path := [], os := init_opt\<rparr>"
    by (simp add: asleep_def)
  show "server.out v = []" using arg_cong [OF v, of server.out] by (simp add: server_start_def)
  show "\<not> renamed v" using arg_cong [OF v, of renamed] by (simp add: server_start_def)
  show "\<not> last_timeout v" using arg_cong [OF v, of last_timeout] by (simp add: server_start_def)
  show "server.ackbuf v = replicate PKTSIZE 0" using arg_cong [OF v, of server.ackbuf] by (simp add: server_start_def)
  show "segs v = bfs_start" using arg_cong [OF v, of segs] by (simp add: server_start_def)
  show "a_phase v \<in> {AIdle, AQuiet, AReturned} \<union> range AThrown" using assms by (simp add: asleep_def)
qed

lemma asleep_begin: "asleep server_start"
  by (simp add: asleep_def server_start_def)

lemma asleep_step:
  assumes "asleep v" "aown e"
  shows "asleep (astep c e v) \<and> suffix (server.inq (astep c e v)) (server.inq v) \<or>
    (\<exists>ok a p q. server.inq v = (a, p) # q \<and> astep c e v = request_received c ok p (v\<lparr>server.inq := q, sender := a\<rparr>))"
proof (cases e)
  case (ARecv ok)
  show ?thesis
    using ARecv assms(1) asleep_fields(6) [OF assms(1)] by (auto simp: recv_done_def split: list.split)
qed (use assms asleep_fields(6) [OF assms(1)] in
    \<open>auto simp: recv_failed_def quiet_def send_done_def timer_expired_def running_def Let_def\<close>)

text \<open>A request that is granted starts a transfer.\<close>

lemma asleep_starts:
  assumes "tftp (a_env c) (take PKTSIZE rx) = Done 0 (Some f) path optack opts" "rx \<noteq> []"
    and "sound_out f" "fdata f = []" "asleep v"
  shows "up_at path (unat (g_segsize opts)) d 0 (request_received c True rx (v\<lparr>server.inq := q, sender := a\<rparr>)) \<and>
    server.inq (request_received c True rx (v\<lparr>server.inq := q, sender := a\<rparr>)) = []"
proof -
  let ?s = "v\<lparr>sender := a, file_path := path, os := opts, server.inq := []\<rparr>"
  have s: "request_received c True rx (v\<lparr>server.inq := q, sender := a\<rparr>) = start_recvfile c (Some f) optack ?s"
    using assms(1,2) by (simp add: request_received_def size_defs)
  have o: "optack = [] \<or> ack_ok optack" using tftp_sane [OF assms(1)] by (simp add: sane_done_def)
  have "upload_inv path (unat (g_segsize opts)) d 0 (start_recvfile c (Some f) optack ?s) \<and>
      a_phase (start_recvfile c (Some f) optack ?s) = ASending"
    by (rule start_inv [OF assms(3,4) o]) (simp_all add: asleep_fields [OF assms(5)] bfs_start_def size_defs)
  moreover have "server.inq (start_recvfile c (Some f) optack ?s) = []"
    unfolding start_recvfile_def by (auto simp: Let_def send_ack_def send_ackbuf_def split: prod.split option.split)
  ultimately show ?thesis by (simp add: s up_at_def)
qed

lemma asleep_fails:
  assumes "tftp (a_env c) (take PKTSIZE rx) = Done 0 (Some f) path optack opts" "rx \<noteq> []" "asleep v"
  shows "asleep (request_received c False rx (v\<lparr>server.inq := q, sender := a\<rparr>)) \<and>
    server.inq (request_received c False rx (v\<lparr>server.inq := q, sender := a\<rparr>)) = q"
  using assms by (simp add: request_received_def size_defs)

text \<open>A step takes datagrams from the front of the queue.\<close>

lemma inq_frames [simp]:
  "server.inq (send_error c err s) = server.inq s" "server.inq (quiet s) = server.inq s"
  "server.inq (send_ackbuf n s) = server.inq s" "server.inq (progress c s) = server.inq s"
  "server.inq (send_last_ack c ok s) = server.inq s"
  by (auto simp: send_error_def quiet_def send_ackbuf_def progress_def send_last_ack_def start_timeout_def Let_def
      split: option.split prod.split)

lemma inq_write: "server.inq (write_segment c ok n s) = server.inq s"
  by (auto simp: write_segment_def send_ack_def finish_upload_def Let_def split: option.split prod.split)

lemma suffix_synchnet: "suffix (Async_Server.synchnet q) q"
  by (induction q rule: Async_Server.synchnet.induct) (auto simp: suffix_Cons)

lemma inq_check: "suffix (server.inq (check_and_write_block c ok p s)) (server.inq s)"
  using suffix_synchnet [of "server.inq s"] by (auto simp: check_and_write_block_def Let_def inq_write)

lemma inq_step:
  assumes "aown e" "a_phase v \<noteq> AIdle"
  shows "suffix (server.inq (astep c e v)) (server.inq v)"
proof (cases e)
  case (ARecv ok)
  show ?thesis
  proof (cases "server.inq v")
    case (Cons ap q)
    obtain a p where ap: "ap = (a, p)" by (cases ap)
    have "suffix (server.inq (check_and_write_block c ok p (v\<lparr>server.inq := q, peer := a\<rparr>))) q"
      using inq_check [of c ok p "v\<lparr>server.inq := q, peer := a\<rparr>"] by simp
    moreover have "server.inq (last_received c ok p s) = server.inq s" for s by (simp add: last_received_def Let_def)
    ultimately show ?thesis
      using ARecv Cons ap assms(2) by (auto simp: recv_done_def suffix_Cons split: aphase.split)
  qed (simp add: ARecv recv_done_def)
qed (use assms in \<open>auto simp: recv_failed_def receive_block_def start_timeout_def send_done_def timer_expired_def Let_def
    split: aphase.split\<close>)

lemma inq_received:
  assumes "server.inq v = (a, p) # q" "a_phase v = AReceiving"
  shows "suffix (server.inq (astep c (ARecv ok) v)) q"
  using assms inq_check [of c ok p "v\<lparr>server.inq := q, peer := a\<rparr>"] by (simp add: recv_done_def)


text \<open>What was sent stays sent.\<close>

lemma out_frames [simp]:
  "server.out (send_error c err s) = server.out s" "server.out (quiet s) = server.out s"
  "server.out (send_ackbuf n s) = server.out s" "server.out (progress c s) = server.out s"
  "server.out (start_recvfile c f optack s) = server.out s"
  by (auto simp: send_error_def quiet_def send_ackbuf_def progress_def start_recvfile_def send_ack_def Let_def
      split: option.split prod.split)

lemma out_request: "server.out (request_received c ok p s) = server.out s"
  by (auto simp: request_received_def Let_def split: verdict.split)

lemma out_last_ack: "prefix (server.out s) (server.out (send_last_ack c ok s))"
  by (simp add: send_last_ack_def start_timeout_def Let_def)

lemma out_write: "prefix (server.out s) (server.out (write_segment c ok n s))"
proof -
  have f: "prefix (server.out s) (server.out (finish_upload c ok s))" for s
    using out_last_ack [of "s\<lparr>guard := f, segs := t, renamed := r\<rparr>" c ok for f t r]
    by (auto simp: finish_upload_def Let_def split: option.split prod.split)
  show ?thesis
    using f [of "s\<lparr>guard := f, segs := t, dp := i\<rparr>" for f t i]
    by (auto simp: write_segment_def send_ack_def Let_def split: option.split prod.split)
qed

lemma out_check: "prefix (server.out s) (server.out (check_and_write_block c ok p s))"
  using out_write [of "progress c (s\<lparr>segs := t\<rparr>)" c ok n for t n] out_write [of "s\<lparr>segs := t, server.inq := q\<rparr>" c ok n for t q n]
  by (auto simp: check_and_write_block_def Let_def)

lemma out_grows: "prefix (server.out v) (server.out (astep c e v))"
proof (cases e)
  case (ARecv ok)
  then show ?thesis
    using out_check [of "v\<lparr>server.inq := q, peer := a\<rparr>" c ok p for q a p]
    by (auto simp: recv_done_def out_request last_received_def Let_def split: list.split prod.split aphase.split)
qed (auto simp: recv_failed_def receive_block_def start_timeout_def send_done_def timer_expired_def Let_def split: aphase.split)

lemma asent_grows: "asent v \<subseteq> asent (astep c e v)"
  unfolding asent_def by (intro image_mono set_mono_prefix out_grows)

section \<open>The two together\<close>

definition inflight :: "client \<Rightarrow> nat \<Rightarrow> server \<Rightarrow> datagram list" where
  "inflight s i v = map snd (server.inq v) @ map snd (drop i (cout s))"

text \<open>
  The server holds k blocks: the client is at block k or k + 1, and nothing older than block k is on its way.
\<close>

definition linked :: "nat \<Rightarrow> client \<Rightarrow> nat \<Rightarrow> server \<Rightarrow> bool" where
  "linked k s i v \<longleftrightarrow> (\<forall>p\<in>csent s. num p \<le> Suc k) \<and> (k = 0 \<or> k \<in> num ` csent s) \<and> (\<forall>p\<in>set (inflight s i v). k \<le> num p)"

definition joint :: "acfg \<Rightarrow> path \<Rightarrow> byte list \<Rightarrow> client \<Rightarrow> nat \<Rightarrow> server \<Rightarrow> bool" where
  "joint c P d s i v \<longleftrightarrow> stored c P SEGSIZE d v \<or>
     cphase s \<noteq> CFinished \<and> (asleep v \<and> firsttrip s \<or> (\<exists>k. up_at P SEGSIZE d k v \<and> linked k s i v))"

definition aput_inv :: "apair \<Rightarrow> path \<Rightarrow> byte list \<Rightarrow> client \<Rightarrow> nat \<Rightarrow> server \<Rightarrow> bool" where
  "aput_inv w P d s i v \<longleftrightarrow>
     put_ok (put_cfg w) d (request_pkt WRQ (p_name w) (p_mode w)) s \<and> snd ` set (cinq s) \<subseteq> asent v \<and>
     i \<le> length (cout s) \<and> subseq (inflight s i v) (map snd (cout s)) \<and> joint (p_server w) P d s i v"

lemma subseq_set: "subseq xs ys \<Longrightarrow> set xs \<subseteq> set ys"
  by (auto dest: list_emb_set)

lemma sorted_subseq: "subseq xs ys \<Longrightarrow> sorted ys \<Longrightarrow> sorted xs"
proof (induction rule: list_emb.induct)
  case (list_emb_Cons2 x y xs ys)
  then show ?case using subseq_set [of xs ys] by auto
qed auto

lemma inflight_more: "i \<le> length (cout s) \<Longrightarrow> cout s' = cout s @ xs \<Longrightarrow> inflight s' i v = inflight s i v @ map snd xs"
  by (simp add: inflight_def)

lemma inflight_less: "suffix (server.inq v') (server.inq v) \<Longrightarrow> subseq (inflight s i v') (inflight s i v)"
  unfolding inflight_def by (intro list_emb_append_mono subseq_map suffix_imp_subseq) auto

lemma inflight_channel:
  assumes "i \<le> j" "j < length (cout s)"
  shows "subseq (inflight s (Suc j) (astep c (AArrive a (snd (cout s ! j))) v)) (inflight s i v)"
proof -
  have "drop i (cout s) = drop i (take j (cout s)) @ cout s ! j # drop (Suc j) (cout s)"
    using assms by (metis drop_append id_take_nth_drop diff_is_0_eq drop_0 length_take min.absorb2 less_imp_le)
  then have "subseq (map snd (cout s ! j # drop (Suc j) (cout s))) (map snd (drop i (cout s)))"
    by (metis list_emb_append2 map_append subseq_order.order_refl)
  moreover from this have "subseq (map snd (drop (Suc j) (cout s))) (map snd (drop i (cout s)))"
    by (auto dest: subseq_Cons')
  ultimately show ?thesis by (simp add: inflight_def list_emb_append_mono)
qed

lemma linked_less: "linked k s i v \<Longrightarrow> subseq (inflight s i' v') (inflight s i v) \<Longrightarrow> linked k s i' v'"
  unfolding linked_def using subseq_set by blast


lemma sorted_le_last: "sorted xs \<Longrightarrow> x \<in> set xs \<Longrightarrow> x \<le> last xs"
  by (induction xs) auto

text \<open>The client sends nothing that is too new, nor anything that is too old.\<close>

lemma client_keeps_linked:
  fixes c t e d
  assumes ok: "put_ok c d (request_pkt WRQ name mode) s" and d: "nblocks d < 65536"
    and q: "\<forall>x\<in>set (cinq s). ack_upto k (snd x)" and k: "k < 65535" and i: "i \<le> length (cout s)" and l: "linked k s i v"
  defines "s' \<equiv> csend_step c t e s"
  shows "linked k s' i v"
proof -
  have ok': "put_ok c d (request_pkt WRQ name mode) s'" unfolding s'_def by (rule csend_step_ok [OF ok])
  obtain xs where xs: "cout s' = cout s @ xs" using cout_grows [of s c t e] by (auto simp: s'_def prefix_def)
  have sub: "csent s \<subseteq> csent s'" by (auto simp: csent_def xs)
  have nums: "sorted (map num (map snd (cout s @ xs)))" using nums_sorted [OF ok' d] by (simp add: xs)
  have "num p \<le> Suc k" if p: "p \<in> csent s'" for p
  proof (cases "cout s' = cout s")
    case True
    with p l show ?thesis by (auto simp: linked_def csent_def)
  next
    case False
    then have w: "cphase s' = CWaiting" using client_quiet [OF ok, of t e] by (auto simp: s'_def)
    have w0: "cphase s = CWaiting"
    proof (rule ccontr)
      assume "cphase s \<noteq> CWaiting"
      then have "cout s' = cout s" unfolding s'_def by (cases e) (auto split: list.split)
      with False show False by simp
    qed
    note ls = last_sent [OF ok w0 d]
    have len: "length (cackbuf s) = PKTSIZE"
      using ok w0 by (cases rule: put_waiting) (simp_all add: asking_def send_inv_def)
    have "snd (last (cout s)) \<in> csent s" using ls(1) by (simp add: csent_def)
    then have b: "unat (cblock s) \<le> Suc k" using l ls(2) by (force simp: linked_def)
    have "unat (cblock s') \<le> Suc k"
      using cblock_step [of c t e s]
    proof (elim disjE exE conjE)
      fix a p q' assume "cinq s = (a, p) # q'" and s': "cblock (csend_step c t e s) = cblock s + 1" and tk: "taken c p s"
      then have "ack_upto k p" using q by simp
      from taken_ack [OF tk this len] obtain j where "j \<le> k" "cblock s = of_nat j" by blast
      with k s' show ?thesis
        using unat_number [of "Suc j"] by (simp add: s'_def add.commute)
    qed (simp add: s'_def b)
    moreover have "num p \<in> set (map num (map snd (cout s')))" using p by (auto simp: csent_def)
    then have "num p \<le> num (snd (last (cout s')))"
      using sorted_le_last [OF nums_sorted [OF ok' d]] last_sent(1) [OF ok' w d] by (simp add: last_map)
    ultimately show ?thesis using last_sent(2) [OF ok' w d] by simp
  qed
  moreover have "k = 0 \<or> k \<in> num ` csent s'" using l sub by (auto simp: linked_def)
  moreover have "k \<le> num p" if "p \<in> set (inflight s' i v)" for p
  proof (cases "p \<in> set (inflight s i v)")
    case True
    with l show ?thesis by (simp add: linked_def)
  next
    case False
    then have "p \<in> set (map snd xs)" using that inflight_more [OF i xs] by auto
    with nums have "num r \<le> num p" if "r \<in> csent s" for r
      using that by (fastforce simp: sorted_append csent_def)
    with l show ?thesis by (force simp: linked_def)
  qed
  ultimately show ?thesis by (simp add: linked_def)
qed

text \<open>Nor does it finish before the server has all of the file.\<close>

lemma client_not_finished:
  assumes ok: "put_ok c d (request_pkt WRQ name mode) s" and d: "nblocks d < 65536"
    and q: "\<forall>x\<in>set (cinq s). ack_upto k (snd x)" and k: "k < nblocks d" and nf: "cphase s \<noteq> CFinished"
  shows "cphase (csend_step c t e s) \<noteq> CFinished"
proof
  assume "cphase (csend_step c t e s) = CFinished"
  then show False
    using nf
  proof (rule step_finishes)
    fix v a p rest
    assume wt: "cphase s = CWaiting" and cq: "cinq s = (a, p) # rest"
      and f: "cphase (chandle_ack c t v p (s\<lparr>cinq := rest, from_addr := a\<rparr>)) = CFinished"
    let ?s = "s\<lparr>cinq := rest, from_addr := a\<rparr>"
    have ok': "put_ok c d (request_pkt WRQ name mode) ?s" by (rule put_ok_frame [OF ok]) simp_all
    have len: "length (cackbuf ?s) = PKTSIZE"
      using ok wt by (cases rule: put_waiting) (simp_all add: asking_def send_inv_def)
    have "ack_upto k p" using q cq by simp
    from taken_ack [OF chandle_taken(2) [OF f] this len] wt obtain j where j: "j \<le> k" "p = ack_pkt (of_nat j)" by auto
    from finishing_ack [OF ok' _ f [unfolded j(2)]] wt have "(of_nat j :: u16) = of_nat (nblocks d)" by simp
    with number_eq [of j "nblocks d"] j(1) k d show False by simp
  qed
qed


section \<open>The invariant\<close>

text \<open>What the two have to agree on: the request fits, and the server grants it on the empty file f.\<close>

definition accepted :: "apair \<Rightarrow> cfile \<Rightarrow> path \<Rightarrow> bool" where
  "accepted w f P \<longleftrightarrow>
     e_mkdir (a_env (p_server w)) default_dir \<and> length (request_pkt WRQ (p_name w) (p_mode w)) \<le> PKTSIZE \<and> p_name w \<noteq> [] \<and> 0 \<notin> set (p_name w) \<and>
     map c_tolower (p_mode w) = cbytes ''octet'' \<and> validate_access (a_env (p_server w)) (p_name w) WRQ = (Inr f, P) \<and>
     sound_out f \<and> fdata f = []"

lemma octet_mode:
  assumes "map c_tolower m = cbytes ''octet''"
  shows "m \<noteq> []" "0 \<notin> set m" "m \<noteq> cbytes ''netascii''"
proof -
  show "m \<noteq> []" using assms by (auto simp: cbytes_def)
  have "c_tolower 0 = 0" by (simp add: c_tolower_def c_isupper_def)
  moreover have "0 \<notin> set (cbytes ''octet'')" by (simp add: cbytes_def)
  ultimately show "0 \<notin> set m" using assms by (metis image_eqI list.set_map)
  have "length m = 5" using arg_cong [OF assms, of length] by (simp add: cbytes_def)
  then show "m \<noteq> cbytes ''netascii''" by (auto simp: cbytes_def)
qed

lemma accepted_tftp:
  assumes "accepted w f P"
  shows "tftp (a_env (p_server w)) (take PKTSIZE (request_pkt WRQ (p_name w) (p_mode w))) = Done 0 (Some f) P [] init_opt"
proof -
  have m: "map c_tolower (p_mode w) = cbytes ''octet''" using assms by (simp add: accepted_def)
  have "tftp (a_env (p_server w)) (request_opts WRQ (p_name w) (p_mode w) []) = respond (a_env (p_server w)) WRQ (p_name w) (p_mode w) []"
    using assms octet_mode [OF m] by (intro tftp_request) (simp_all add: accepted_def well_formed_def)
  also have "\<dots> = Done 0 (Some f) P [] init_opt"
    using assms by (simp add: respond_def accepted_def oack_header_def enc_opts_def opcode_defs size_defs)
  finally show ?thesis using assms by (simp add: accepted_def request_opts_def asked_def)
qed

lemma timely_next:
  assumes up: "up_at P SEGSIZE d k v" and l: "linked k s i v" and ok: "put_ok c d (request_pkt WRQ name mode) s"
    and sub: "set (inflight s i v) \<subseteq> csent s" and d: "nblocks d < 65536"
  shows "timely ac SEGSIZE d [e] v"
proof -
  have "timely_pkt SEGSIZE d (server.block v) (snd (hd (server.inq v)))" if "server.inq v \<noteq> []"
  proof -
    let ?p = "snd (hd (server.inq v))"
    have p: "?p \<in> set (inflight s i v)" using that by (simp add: inflight_def)
    then have n: "k \<le> num ?p" "num ?p \<le> Suc k" using l sub by (auto simp: linked_def)
    have b: "server.block v = of_nat (Suc k)" using up by (simp add: up_at_def upload_inv_def)
    from p sub have "?p \<in> csent s" by blast
    then consider "?p = request_pkt WRQ name mode" | j where "?p = block_pkt d j" "j < nblocks d"
      using put_sent [OF ok, of ?p] by (fastforce simp: file_blocks_def)
    then show ?thesis
    proof cases
      case 1
      then show ?thesis by (simp add: timely_pkt_def wire_simps opcode_defs size_defs)
    next
      case 2
      then have "num ?p = Suc j" using num_block [of j d] d by simp
      with n consider "j = k" | "k = Suc j" by linarith
      moreover have "?p \<in> set (map (segment SEGSIZE d) [0..<nsegs SEGSIZE d])"
        using 2 by (auto simp: segment_block nsegs_nblocks)
      moreover have "TFTP_HEADER \<le> length ?p" "net_short ?p 2 = of_nat (Suc j)"
        using 2 by (simp_all add: block_pkt_def wire_simps TFTP_HEADER_def)
      ultimately show ?thesis using b by cases (simp_all add: timely_pkt_def)
    qed
  qed
  then show ?thesis by simp
qed

text \<open>When the server has taken block k + 1 nothing older is behind it.\<close>

lemma linked_next:
  assumes l: "linked k s i v" and srt: "sorted (map num (map snd (cout s)))"
    and sub: "subseq (inflight s i v) (map snd (cout s))" and q: "server.inq v = (a, segment SEGSIZE d k) # q"
    and up: "up_at P SEGSIZE d k v" "up_at P SEGSIZE d (Suc k) (astep c (ARecv ok) v)" and d: "nblocks d < 65536"
  shows "linked (Suc k) s i (astep c (ARecv ok) v)"
proof -
  let ?v = "astep c (ARecv ok) v"
  have b: "server.block v = of_nat (Suc k)" "server.block ?v = of_nat (Suc (Suc k))" and k: "Suc k < nblocks d"
    using up by (simp_all add: up_at_def upload_inv_def nsegs_nblocks)
  have ph: "a_phase v = AReceiving"
  proof (rule ccontr)
    assume "a_phase v \<noteq> AReceiving"
    moreover have "a_phase v \<noteq> AIdle" "a_phase v \<noteq> ALast" using up(1) by (simp_all add: up_at_def)
    ultimately have "?v = v" using q by (simp add: recv_done_def split: aphase.split)
    with b show False by simp
  qed
  have n: "num (segment SEGSIZE d k) = Suc k" using num_block k d by (simp add: segment_block)
  have fl: "inflight s i v = segment SEGSIZE d k # map snd q @ map snd (drop i (cout s))" by (simp add: inflight_def q)
  have "sorted (map num (inflight s i v))" by (rule sorted_subseq [OF subseq_map [OF sub] srt])
  then have "\<forall>p\<in>set (map snd q @ map snd (drop i (cout s))). Suc k \<le> num p" by (auto simp: fl n)
  moreover have "set (server.inq ?v) \<subseteq> set q" by (rule set_mono_suffix [OF inq_received [OF q ph]])
  ultimately have "\<forall>p\<in>set (inflight s i ?v). Suc k \<le> num p" by (auto simp: inflight_def)
  moreover have "segment SEGSIZE d k \<in> csent s" using subseq_set [OF sub] by (auto simp: fl csent_def)
  then have "Suc k \<in> num ` csent s" using n by force
  ultimately show ?thesis using l by (auto simp: linked_def intro: le_SucI)
qed

lemma joint_server:
  assumes jt: "joint (p_server w) P d s i v" and ok: "put_ok c d (request_pkt WRQ (p_name w) (p_mode w)) s"
    and sub: "subseq (inflight s i v) (map snd (cout s))" and d: "nblocks d < 65536" and acc: "accepted w f P" and e: "aown e"
  shows "joint (p_server w) P d s i (astep (p_server w) e v) \<and> subseq (inflight s i (astep (p_server w) e v)) (inflight s i v)"
proof -
  let ?r = "request_pkt WRQ (p_name w) (p_mode w)" and ?v = "astep (p_server w) e v"
  have sent: "set (inflight s i v) \<subseteq> csent s" using subseq_set [OF sub] by (simp add: csent_def)
  from jt consider (stored) "stored (p_server w) P SEGSIZE d v" | (asleep) "cphase s \<noteq> CFinished" "asleep v" "firsttrip s"
    | (up) k where "cphase s \<noteq> CFinished" "up_at P SEGSIZE d k v" "linked k s i v" by (auto simp: joint_def)
  then show ?thesis
  proof cases
    case stored
    then have "a_phase v \<noteq> AIdle" by (auto simp: stored_def)
    with stored show ?thesis using stored_step inflight_less [OF inq_step [OF e]] by (simp add: joint_def)
  next
    case asleep
    have rq: "p = ?r" if "p \<in> csent s" for p
    proof -
      have "map snd (cout s) = replicate (length (cout s)) ?r" using ok asleep(3) by (simp add: put_ok_def requested_def)
      with that show ?thesis unfolding csent_def by (metis in_set_replicate list.set_map)
    qed
    from asleep_step [OF asleep(2) e, of "p_server w"] show ?thesis
    proof (elim disjE exE conjE)
      fix ok' a p q assume q: "server.inq v = (a, p) # q"
        and v: "?v = request_received (p_server w) ok' p (v\<lparr>server.inq := q, sender := a\<rparr>)"
      have p: "p = ?r" using rq sent q by (auto simp: inflight_def)
      have r: "?r \<noteq> []" by (simp add: request_pkt_def)
      show ?thesis
      proof (cases ok')
        case True
        with p r have up: "up_at P SEGSIZE d 0 ?v" "server.inq ?v = []"
          using asleep_starts [OF accepted_tftp [OF acc] _ _ _ asleep(2), of d a q] acc v
          by (simp_all add: accepted_def demo_segsize size_defs)
        have "linked 0 s i ?v" using rq by (fastforce simp: linked_def num_request)
        with up asleep(1) show ?thesis using inflight_less [of ?v v s i] by (auto simp: joint_def)
      next
        case False
        with p v have "asleep ?v" "server.inq ?v = q"
          using asleep_fails [OF accepted_tftp [OF acc] r asleep(2)] by simp_all
        with q asleep show ?thesis using inflight_less [of ?v v s i] by (auto simp: joint_def suffix_def)
      qed
    qed (use asleep inflight_less [of ?v v s i] in \<open>auto simp: joint_def\<close>)
  next
    case up
    have fit: "fits SEGSIZE d" using d nsegs_nblocks [of d] by (simp add: fits_def size_defs)
    have nidle: "a_phase v \<noteq> AIdle" using up(2) by (simp add: up_at_def)
    note less = inflight_less [OF inq_step [OF e nidle], of s i "p_server w"]
    from upload_step [OF up(2) fit timely_next [OF up(2,3) ok sent d, of "p_server w" e]]
    show ?thesis
    proof (elim disjE exE conjE)
      assume "up_at P SEGSIZE d k ?v"
      with up(1) less linked_less [OF up(3) less] show ?thesis by (auto simp: joint_def)
    next
      fix ok' a q assume "stored (p_server w) P SEGSIZE d ?v"
      with less show ?thesis by (simp add: joint_def)
    next
      fix ok' a q assume eq: "e = ARecv ok'" and q: "server.inq v = (a, segment SEGSIZE d k) # q" and up': "up_at P SEGSIZE d (Suc k) ?v"
      have "linked (Suc k) s i ?v"
        using linked_next [OF up(3) nums_sorted [OF ok d] sub _ up(2)] q up' d eq by simp
      with less up(1) up' show ?thesis by (auto simp: joint_def)
    qed
  qed
qed


lemma aput_invariant:
  assumes "aput w s0 s i v" and acc: "accepted w f P"
    and s0: "s0 = client_start a sb ab (open_read file)" "bufs_ok sb" "length ab = PKTSIZE" and d: "nblocks file < 65536"
  shows "aput_inv w P file s i v"
  using assms(1)
proof induction
  case (a_call x)
  have cfg: "\<not> convert (put_cfg w)" using acc octet_mode(3) by (auto simp: put_cfg_def mode_cfg_def accepted_def)
  then have e: "encoded (convert (put_cfg w)) file = file" by (simp add: encoded_def)
  have fits: "length (request_pkt WRQ (p_name w) (p_mode w)) \<le> PKTSIZE" using acc by (simp add: accepted_def)
  note st = csendfile_ok [OF fits s0(2,3), where c = "put_cfg w" and d = "file" and t = "p_set w" and v = x and a = a,
      folded s0(1), unfolded e]
  have "cphase (csendfile (put_cfg w) (p_set w) (p_name w) (p_mode w) x s0) \<noteq> CFinished"
    using st(1,3) by (simp add: put_ok_def)
  moreover have "inflight s 0 server_start = map snd (cout s)" for s by (simp add: inflight_def server_start_def)
  ultimately show ?case
    using st asleep_begin by (simp add: aput_inv_def joint_def)
next
  case (a_client s i v e)
  let ?s = "csend_step (put_cfg w) (p_set w) e s"
  have ok: "put_ok (put_cfg w) file (request_pkt WRQ (p_name w) (p_mode w)) s" and q: "snd ` set (cinq s) \<subseteq> asent v"
    and i: "i \<le> length (cout s)" and sub: "subseq (inflight s i v) (map snd (cout s))" and jt: "joint (p_server w) P file s i v"
    using a_client by (simp_all add: aput_inv_def)
  obtain xs where xs: "cout ?s = cout s @ xs" using cout_grows [of s "put_cfg w" "p_set w" e] by (auto simp: prefix_def)
  have q': "snd ` set (cinq ?s) \<subseteq> asent v"
    using cinq_step [of "put_cfg w" "p_set w" e s] q a_client(2) by (cases e) auto
  have "joint (p_server w) P file ?s i v"
    using jt [unfolded joint_def]
  proof (elim disjE exE conjE)
    assume nf: "cphase s \<noteq> CFinished" and v: "asleep v" and ft: "firsttrip s"
    have c: "cinq s = []" using q asleep_fields(1) [OF v] by (simp add: asent_def)
    have "cphase ?s \<noteq> CFinished" using nf c by (auto elim: step_finishes)
    moreover have "firsttrip (csend_data (put_cfg w) (p_set w) x r) = firsttrip r" for x r
      by (rule csend_data_effect [of "put_cfg w" "p_set w" x r]) blast
    then have "firsttrip ?s" using c ft by (cases e) (simp_all add: ctimer_def Let_def)
    ultimately show ?thesis using v by (simp add: joint_def)
  next
    fix k assume nf: "cphase s \<noteq> CFinished" and up: "up_at P SEGSIZE file k v" and l: "linked k s i v"
    have "\<forall>p\<in>asent v. ack_upto k p" and k: "k < nblocks file"
      using up by (auto simp: asent_def up_at_def upload_inv_def nsegs_nblocks)
    with q have acks: "\<forall>x\<in>set (cinq s). ack_upto k (snd x)" by fastforce
    have "linked k ?s i v" using client_keeps_linked [OF ok d acks _ i l] k d by simp
    with up client_not_finished [OF ok d acks k nf] show ?thesis by (auto simp: joint_def)
  next
    assume "stored (p_server w) P SEGSIZE file v"
    then show ?thesis by (simp add: joint_def)
  qed
  moreover have "subseq (inflight ?s i v) (map snd (cout ?s))"
    using sub by (simp add: inflight_more [OF i xs] xs)
  moreover have "i \<le> length (cout ?s)" using i by (simp add: xs)
  ultimately show ?case using csend_step_ok [OF ok] q' by (simp add: aput_inv_def)
next
  case (a_channel s i v j b)
  let ?v = "astep (p_server w) (AArrive b (snd (cout s ! j))) v"
  note less = inflight_channel [OF a_channel(2,3), of "p_server w" b v]
  have "joint (p_server w) P file s (Suc j) ?v"
    using a_channel(4) linked_less [OF _ less] by (auto simp: aput_inv_def joint_def up_at_def stored_def)
  moreover have "asent ?v = asent v" by (simp add: asent_def)
  ultimately show ?case
    using a_channel(3,4) less subseq_order.order_trans [OF less] by (simp add: aput_inv_def)
next
  case (a_server s i v e)
  with joint_server [OF _ _ _ d acc a_server(2), of s i v] asent_grows [of v "p_server w" e] show ?case
    unfolding aput_inv_def by (meson subseq_order.order_trans subset_trans)
qed


section \<open>A put can finish\<close>

text \<open>The client has sent block k + 1, and the server has acknowledged block k.\<close>

definition a_round :: "apair \<Rightarrow> path \<Rightarrow> byte list \<Rightarrow> nat \<Rightarrow> client \<Rightarrow> nat \<Rightarrow> server \<Rightarrow> bool" where
  "a_round w P d k s i v \<longleftrightarrow>
     (\<exists>n. at_block (put_cfg w) d (request_pkt WRQ (p_name w) (p_mode w)) n k s) \<and> cinq s = [] \<and> i < length (cout s) \<and>
     upload_inv P SEGSIZE d k v \<and> a_phase v = AReceiving \<and> server.inq v = []"

lemma last_block:
  assumes "at_block c d req n k s"
  shows "cout s \<noteq> []" "snd (last (cout s)) = block_pkt d k"
proof -
  have o: "drop n (map snd (cout s)) \<noteq> []" "last (drop n (map snd (cout s))) = block_pkt d k"
    using assms by (simp_all add: at_block_def sent_upto_def)
  then show ne: "cout s \<noteq> []" by auto
  with o show "snd (last (cout s)) = block_pkt d k" by (simp add: last_drop last_map)
qed

text \<open>The last datagram of the client reaches the server.\<close>

lemma last_arrives:
  assumes "aput w s0 s i v" "i < length (cout s)" "running v" "server.inq v = []"
  shows "aput w s0 s (length (cout s)) (astep (p_server w) (ARecv True)
    (v\<lparr>server.inq := [(demo_addr, snd (last (cout s)))]\<rparr>))"
proof -
  have l: "cout s ! (length (cout s) - 1) = last (cout s)" "Suc (length (cout s) - 1) = length (cout s)"
    using assms(2) last_conv_nth [of "cout s"] by (cases "cout s = []"; simp)+
  have "aput w s0 s (length (cout s)) (v\<lparr>server.inq := [(demo_addr, snd (last (cout s)))]\<rparr>)"
    using a_channel [OF assms(1), of "length (cout s) - 1" demo_addr] assms(2-4) l by simp
  then show ?thesis by (rule a_server) simp
qed

text \<open>The client gets a datagram of the server.\<close>

lemma reply_arrives:
  assumes "aput w s0 s i v" "p \<in> asent v"
  shows "aput w s0 (csend_run (put_cfg w) (p_set w) [CArrive demo_addr p, CRecv (True, True, True)] s) i v"
proof -
  have "carrives (asent v) (CArrive demo_addr p)" using assms(2) by simp
  then have "aput w s0 (csend_step (put_cfg w) (p_set w) (CRecv (True, True, True))
      (csend_step (put_cfg w) (p_set w) (CArrive demo_addr p) s)) i v"
    by (intro a_client [of _ _ _ _ _ "CRecv (True, True, True)"] a_client [OF assms(1)]) simp_all
  then show ?thesis by (simp only: csend_run_def fold_simps)
qed

lemma reply_sent_next:
  assumes "a_phase v = ASending"
  shows "astep c (ASent True) v = (receive_block v)\<lparr>server.out := server.out v @ [server.pending v]\<rparr>"
  using assms by (simp add: send_done_def receive_block_def start_timeout_def)

lemma a_round_next:
  assumes a: "aput w s0 s i v" and r: "a_round w P d k s i v" and d: "nblocks d < 65536"
  shows "\<exists>s2 i2 v2. aput w s0 s2 i2 v2 \<and> (if Suc k = nblocks d then cphase s2 = CFinished else a_round w P d (Suc k) s2 i2 v2)"
proof -
  let ?c = "put_cfg w" and ?req = "request_pkt WRQ (p_name w) (p_mode w)" and ?a = "ack_pkt (of_nat (Suc k))"
  obtain n where at: "at_block ?c d ?req n k s" and q: "cinq s = []" and i: "i < length (cout s)"
    and inv: "upload_inv P SEGSIZE d k v" "a_phase v = AReceiving" "server.inq v = []"
    using r by (auto simp: a_round_def)
  have fit: "fits SEGSIZE d" using d nsegs_nblocks [of d] by (simp add: fits_def size_defs)
  define v1 where "v1 = check_and_write_block (p_server w) True (segment SEGSIZE d k) (v\<lparr>server.inq := [], peer := demo_addr\<rparr>)"
  have a1: "aput w s0 s (length (cout s)) v1"
    using last_arrives [OF a i _ inv(3)] inv(2) last_block [OF at] by (simp add: v1_def recv_done_def running_def segment_block)
  have v1: "if Suc k < nblocks d
    then upload_inv P SEGSIZE d (Suc k) v1 \<and> a_phase v1 = ASending \<and> server.inq v1 = [] \<and> snd (server.pending v1) = ?a
    else ?a \<in> asent v1"
    using check_segment [of P SEGSIZE d k "v\<lparr>server.inq := [], peer := demo_addr\<rparr>" "p_server w" True] inv(1) fit
    by (simp add: v1_def nsegs_nblocks asent_def del: of_nat_Suc split: if_splits)
  let ?run = "csend_run ?c (p_set w) [CArrive demo_addr ?a, CRecv (True, True, True)] s"
  note ba = block_acked [OF at q, of "(True, True, True)" "p_set w" demo_addr]
  show ?thesis
  proof (cases "Suc k < nblocks d")
    case False
    then have "?a \<in> asent v1" "Suc k = nblocks d" using v1 inv(1) by (auto simp: upload_inv_def nsegs_nblocks)
    with reply_arrives [OF a1, of ?a] ba show ?thesis by (auto simp del: of_nat_Suc)
  next
    case True
    let ?v2 = "astep (p_server w) (ASent True) v1"
    have v2: "?v2 = (receive_block v1)\<lparr>server.out := server.out v1 @ [server.pending v1]\<rparr>"
      using v1 True by (intro reply_sent_next) simp
    have "aput w s0 s (length (cout s)) ?v2" by (rule a_server [OF a1]) simp
    moreover have "?a \<in> asent ?v2" using v1 True unfolding v2 by (simp add: asent_def del: of_nat_Suc)
    ultimately have a2: "aput w s0 ?run (length (cout s)) ?v2" by (rule reply_arrives)
    have at': "at_block ?c d ?req n (Suc k) ?run" "cinq ?run = []" using ba True by (auto simp del: of_nat_Suc)
    have "prefix (cout s) (cout ?run)"
      using cout_grows [of _ ?c "p_set w" "CRecv (True, True, True)"] cout_grows [of s ?c "p_set w" "CArrive demo_addr ?a"]
      unfolding csend_run_def fold_simps by (rule prefix_order.order_trans [rotated])
    moreover have "cout ?run \<noteq> cout s"
      using last_block(2) [OF at] last_block(2) [OF at'(1)] block_pkt_next [of d k] by auto
    ultimately have "length (cout s) < length (cout ?run)" by (metis prefix_def append_Nil2 length_append length_greater_0_conv less_add_same_cancel1)
    moreover have "upload_inv P SEGSIZE d (Suc k) ?v2"
      using v1 True unfolding v2 by (auto simp: upload_inv_def receive_block_def start_timeout_def)
    ultimately have "a_round w P d (Suc k) ?run (length (cout s)) ?v2"
      using at' v1 True unfolding v2 by (auto simp: a_round_def receive_block_def start_timeout_def)
    with a2 True show ?thesis by auto
  qed
qed

lemma a_rounds:
  assumes "aput w s0 s i v" "a_round w P d 0 s i v" "nblocks d < 65536"
  shows "k < nblocks d \<Longrightarrow> \<exists>s i v. aput w s0 s i v \<and> a_round w P d k s i v"
proof (induction k)
  case (Suc k)
  then obtain s i v where "aput w s0 s i v" "a_round w P d k s i v" by auto
  from a_round_next [OF this assms(3)] Suc.prems show ?case by (auto split: if_splits)
qed (use assms in blast)


lemma first_ack:
  fixes a
  assumes "tftp (a_env c) (take PKTSIZE rx) = Done 0 (Some f) path [] opts" "rx \<noteq> []" "sound_out f" "fdata f = []"
  defines "v \<equiv> astep c (ARecv True) (server_start\<lparr>server.inq := [(a, rx)]\<rparr>)"
  shows "upload_inv path (unat (g_segsize opts)) d 0 v \<and> a_phase v = ASending \<and> server.inq v = [] \<and> snd (server.pending v) = ack_pkt 0"
proof -
  have v: "v = arun c [AArrive a rx, ARecv True] server_start"
    by (simp add: v_def arun_def server_start_def running_def)
  have vs: "v = start_recvfile c (Some f) [] (server_start\<lparr>server.inq := [], sender := a, file_path := path, os := opts\<rparr>)"
    using assms(1,2) by (simp add: v_def server_start_def recv_done_def request_received_def size_defs)
  obtain i t where r: "rw_init False bfs_start = (i, t)" by fastforce
  have b: "length (bbuf (bfs bfs_start x)) = MAXPKTSIZE" for x by (simp add: bfs_start_def)
  have "drained t" using drained_init [OF b b r] by blast
  then have "snd (server.pending v) = ack_pkt 0"
    unfolding vs using r
    by (simp add: start_recvfile_def send_ack_def send_ackbuf_drained server_start_def Let_def TFTP_HEADER_def take_put_header
        ack_pkt_def size_defs)
  then show ?thesis using request_starts [OF assms(1-4) refl v, of d] by simp
qed

lemma aput_finishes:
  assumes acc: "accepted w f P" and d: "nblocks file < 65536"
    and s0: "s0 = client_start a sb ab (open_read file)" "bufs_ok sb" "length ab = PKTSIZE"
  shows "\<exists>s i v. aput w s0 s i v \<and> cphase s = CFinished"
proof -
  let ?c = "put_cfg w" and ?r = "request_pkt WRQ (p_name w) (p_mode w)" and ?v = "(True, True, True)"
  let ?s = "csendfile ?c (p_set w) (p_name w) (p_mode w) ?v s0"
  have "\<not> convert ?c" using acc octet_mode(3) by (auto simp: put_cfg_def mode_cfg_def accepted_def)
  then have e: "encoded (convert ?c) file = file" by (simp add: encoded_def)
  have fits: "length ?r \<le> PKTSIZE" using acc by (simp add: accepted_def)
  note st = csendfile_ok(1-4) [OF fits s0(2,3), where c = ?c and d = "file" and t = "p_set w" and v = ?v and a = a,
      folded s0(1), simplified, unfolded e]
  have ask: "asking ?c file ?r ?s" "requested (length (cout ?s)) ?r ?s" "cout ?s \<noteq> []"
    using put_waiting [OF st(1,2)] st(3) by auto
  then have l: "snd (last (cout ?s)) = ?r" by (intro requested_last)
  have rn: "?r \<noteq> []" by (simp add: request_pkt_def)
  let ?v1 = "astep (p_server w) (ARecv True) (server_start\<lparr>server.inq := [(demo_addr, ?r)]\<rparr>)"
  have v1: "upload_inv P SEGSIZE file 0 ?v1" "a_phase ?v1 = ASending" "server.inq ?v1 = []" "snd (server.pending ?v1) = ack_pkt 0"
    using first_ack [OF accepted_tftp [OF acc] rn, where a = demo_addr and d = "file"] acc
    by (simp_all add: accepted_def demo_segsize SEGSIZE_def)
  have a0: "aput w s0 ?s 0 server_start" by (rule a_call)
  have a1: "aput w s0 ?s (length (cout ?s)) ?v1"
    using last_arrives [OF a0] ask(3) by (simp add: l server_start_def running_def)
  let ?v2 = "astep (p_server w) (ASent True) ?v1"
  have v2: "?v2 = (receive_block ?v1)\<lparr>server.out := server.out ?v1 @ [server.pending ?v1]\<rparr>"
    using v1(2) by (rule reply_sent_next)
  have a2: "aput w s0 ?s (length (cout ?s)) ?v2" by (rule a_server [OF a1]) simp
  let ?s2 = "csend_run ?c (p_set w) [CArrive demo_addr (ack_pkt 0), CRecv ?v] ?s"
  have "ack_pkt 0 \<in> asent ?v2" using v1(4) unfolding v2 by (simp add: asent_def)
  then have a3: "aput w s0 ?s2 (length (cout ?s)) ?v2" by (rule reply_arrives [OF a2])
  have at: "at_block ?c file ?r (length (cout ?s)) 0 ?s2" "cinq ?s2 = []"
    using request_acked [OF ask(1,2) st(3,2) ask(3) st(4), of ?v] by simp_all
  then have "length (cout ?s) < length (cout ?s2)" by (auto simp: at_block_def sent_upto_def)
  moreover have "upload_inv P SEGSIZE file 0 ?v2"
    using v1 unfolding v2 by (auto simp: upload_inv_def receive_block_def start_timeout_def)
  ultimately have "a_round w P file 0 ?s2 (length (cout ?s)) ?v2"
    using at v1 unfolding v2 by (auto simp: a_round_def receive_block_def start_timeout_def)
  note rounds = a_rounds [OF a3 this d]
  have n: "nblocks file = Suc (nblocks file - 1)" by (simp add: nblocks_def)
  then obtain s i v where "aput w s0 s i v" "a_round w P file (nblocks file - 1) s i v" using rounds [of "nblocks file - 1"] by auto
  from a_round_next [OF this d] n show ?thesis by auto
qed

section \<open>Properties\<close>

text \<open>
  C4: end to end, to the C++ server: when the client considers a put in octet mode finished, the server has stored the client's file
  under the temporary name, with .upload behind it, and has called rename from there to the final name; \<open>renamed\<close> is the answer
  of that call, so the file has its final name if and only if rename succeeded.  The datagrams of the client arrive in the order
  they were sent, each once or never; those of the server may be lost, repeated, delayed and reordered.
\<close>

theorem async_put_delivers:
  assumes "aput w (client_start a sb ab (open_read file)) s i v" "accepted w f P"
    and "bufs_ok sb" "length ab = PKTSIZE" "nblocks file < 65536" "cphase s = CFinished"
  shows "renamed v = e_rename (a_env (p_server w)) (P @ cbytes ''.upload'') P \<and> file_path v = P \<and> (\<exists>f'. guard v = Some f' \<and> fdata f' = file)"
proof -
  have "aput_inv w P file s i v" by (rule aput_invariant [OF assms(1,2) refl assms(3,4,5)])
  with assms(6) show ?thesis by (auto simp: aput_inv_def joint_def stored_def)
qed

definition demo_pair :: apair where
  "demo_pair = \<lparr>p_client = demo_ccfg, p_set = demo_settings, p_name = cbytes ''/a'', p_mode = cbytes ''octet'',
     p_server = Async_Transfer.demo_cfg (open_trunc None)\<rparr>"

lemma demo_pair_accepted: "accepted demo_pair (open_trunc None) (cbytes ''/tmp/tftpboot/a'')"
proof -
  have m: "map c_tolower (cbytes ''octet'') = cbytes ''octet''" by (simp add: cbytes_def c_tolower_def c_isupper_def)
  have "length (request_pkt WRQ (cbytes ''/a'') (cbytes ''octet'')) \<le> PKTSIZE" by (simp add: wire_simps size_defs cbytes_def)
  with m show ?thesis
    by (simp add: accepted_def demo_pair_def Async_Transfer.demo_cfg_def demo_mkdir demo_access demo_names demo_tftp(3))
qed

theorem async_put_delivers_witness:
  "\<exists>s i v. aput demo_pair (client_start demo_addr subs_start (replicate PKTSIZE 0) (open_read [65])) s i v \<and>
    cphase s = CFinished \<and> (\<exists>f'. guard v = Some f' \<and> fdata f' = [65])"
proof -
  let ?s0 = "client_start demo_addr subs_start (replicate PKTSIZE 0) (open_read [65])"
  have n: "nblocks [65] < 65536" by (simp add: nblocks_def size_defs)
  obtain s i v where "aput demo_pair ?s0 s i v" "cphase s = CFinished"
    using aput_finishes [OF demo_pair_accepted n refl, of subs_start "replicate PKTSIZE 0"] by fastforce
  with async_put_delivers [OF this(1) demo_pair_accepted _ _ n] show ?thesis by auto
qed

end
