(* ===== verification/Async_Faults.thy ===== *)
theory Async_Faults
  imports Async_Transfer
begin

text \<open>
  How the asynchronous server ends when something goes wrong: timeouts, a full disk, an error
  packet from the client, and a request without a mode.
\<close>

section \<open>Timeouts\<close>

fun fires :: "acfg \<Rightarrow> aevent list \<Rightarrow> server \<Rightarrow> nat" where
  "fires c [] s = 0"
| "fires c (e # es) s = (if e = ATimer \<and> armed s \<and> running s then 1 else 0) + fires c es (astep c e s)"

text \<open>Handlers that leave the counter of the timeouts alone, or make the last wait.\<close>

definition keeps :: "server \<Rightarrow> server \<Rightarrow> bool" where
  "keeps s s' \<longleftrightarrow> timeout s' = timeout s \<and> last_timeout s' = last_timeout s \<or> last_timeout s' \<or> \<not> running s'"

lemma keeps_simps [simp]:
  "keeps s (quiet s)" "keeps s (receive_block s)" "keeps s (progress c s)" "keeps s (s\<lparr>a_phase := x\<rparr>)"
  "keeps s (send_error c err s)" "keeps s (send_ackbuf n s)" "keeps s (send_last_ack c ok s)"
  by (auto simp: keeps_def quiet_def receive_block_def start_timeout_def progress_def send_error_def send_ackbuf_def
      send_last_ack_def Let_def running_def split: option.split)

lemma keeps_send_ack: "keeps s (send_ack c s)"
  by (simp add: send_ack_def keeps_def send_ackbuf_def split: option.split)

lemma keeps_segment: "keeps s (write_segment c ok n s)"
proof -
  have "keeps s (finish_upload c ok s1)" if "timeout s1 = timeout s" "last_timeout s1 = last_timeout s" for s1
    using that keeps_simps(5) [of "s1\<lparr>guard := f, segs := t\<rparr>" c ENOSPACE for f t]
      keeps_simps(7) [of "s1\<lparr>guard := f, segs := t, renamed := r\<rparr>" c ok for f t r]
    by (auto simp: finish_upload_def keeps_def Let_def split: option.split)
  then show ?thesis
    using keeps_send_ack [of "s\<lparr>guard := f, segs := t, dp := i\<rparr>" c for f t i]
      keeps_simps(5) [of "s\<lparr>guard := f, segs := t, dp := i\<rparr>" c err for f t i err]
    by (auto simp: write_segment_def keeps_def Let_def split: option.split)
qed

lemma keeps_via:
  "keeps s1 s' \<Longrightarrow> timeout s1 = timeout s \<Longrightarrow> last_timeout s1 = last_timeout s \<Longrightarrow> keeps s s'"
  by (simp add: keeps_def)

lemma keeps_check: "keeps s (check_and_write_block c ok p s)"
proof -
  let ?h = "ntoh_header (a_host c) (overlay (bbuf (bfs (segs s) (dp s))) 0 (take MAXPKTSIZE p))"
  let ?s = "s\<lparr>segs := set_bbuf (dp s) ?h (segs s)\<rparr>"
  have p: "timeout (progress c ?s) = timeout s" "last_timeout (progress c ?s) = last_timeout s"
    by (simp_all add: progress_def Let_def)
  show ?thesis
    unfolding check_and_write_block_def Let_def
    using keeps_via [OF keeps_segment p] keeps_via [OF keeps_simps(1), of ?s s] keeps_via [OF keeps_simps(5), of ?s s c EBADID]
      keeps_via [OF keeps_simps(6), of "?s\<lparr>inq := synchnet (inq ?s)\<rparr>" s TFTP_HEADER]
      keeps_via [OF keeps_segment, of "?s\<lparr>inq := synchnet (inq ?s)\<rparr>" s c ok "length (take MAXPKTSIZE p) - TFTP_HEADER"]
    by (simp del: length_take)
qed

lemma keeps_start: "keeps s (start_recvfile c f optack s)"
proof -
  obtain i t where r: "rw_init False (segs s) = (i, t)" by fastforce
  let ?s = "s\<lparr>peer := sender s, block := 0, segs := t, dp := i\<rparr>"
  have k: "keeps s (s1\<lparr>guard := f, started := True\<rparr>)" if "keeps s s1" for s1
    using that by (simp add: keeps_def running_def)
  show ?thesis
    using k [OF keeps_via [OF keeps_send_ack, of ?s s c]]
      k [OF keeps_via [OF keeps_simps(6), of "?s\<lparr>ackbuf := overlay (ackbuf ?s) 0 optack, block := block ?s + 1\<rparr>" s "length optack"]]
    by (simp add: start_recvfile_def r Let_def)
qed

lemma keeps_request: "keeps s (request_received c ok p s)"
proof (cases "tftp (a_env c) (take PKTSIZE p)")
  case (Done e f path ack opts)
  let ?s = "s\<lparr>file_path := path, os := opts\<rparr>"
  have "keeps s (?s\<lparr>a_phase := x\<rparr>)" for x by (simp add: keeps_def)
  then show ?thesis
    using Done keeps_via [OF keeps_simps(5), of ?s s c e] keeps_via [OF keeps_start, of "?s\<lparr>inq := []\<rparr>" s c f ack]
    by (simp add: request_received_def Let_def)
qed (simp_all add: request_received_def Let_def)

lemma keeps_last: "keeps s (last_received c ok p s)"
  by (simp add: last_received_def keeps_def running_def Let_def)

lemma keeps_recv: "keeps s (recv_done c ok s)"
proof (cases "inq s")
  case (Cons ap q)
  obtain a p where ap: "ap = (a, p)" by (cases ap)
  have "keeps s (request_received c ok p (s\<lparr>inq := q, sender := a\<rparr>))"
    "keeps s (check_and_write_block c ok p (s\<lparr>inq := q, peer := a\<rparr>))"
    "keeps s (last_received c ok p (s\<lparr>inq := q, peer := a\<rparr>))"
    by (rule keeps_via [OF keeps_request] keeps_via [OF keeps_check] keeps_via [OF keeps_last]; simp)+
  with Cons ap show ?thesis by (simp add: recv_done_def keeps_def [of s s] split: aphase.split)
qed (simp add: recv_done_def keeps_def)

text \<open>Only an expiry of the timer counts, and a fifth of the scale ends the transfer.\<close>

lemma timer_step:
  assumes "running (astep c e s)" "\<not> last_timeout (astep c e s)"
  shows "running s \<and> \<not> last_timeout s \<and> (timeout s < maxtimeout \<longrightarrow> timeout (astep c e s) < maxtimeout) \<and>
    timeout (astep c e s) = timeout s + int (fires c [e] s)"
proof -
  have r: "running s"
    using assms(1) by (cases e; cases "a_phase s")
      (auto simp: running_def recv_done_def recv_failed_def send_done_def Let_def split: list.splits)
  show ?thesis
  proof (cases "e = ATimer")
    case True
    with r assms show ?thesis
      by (auto simp: timer_expired_def Let_def rexmtval_def running_def split: if_splits)
  next
    case False
    have "keeps s (astep c e s)"
    proof (cases e)
      case (ARecv ok)
      then show ?thesis by (simp add: keeps_recv)
    next
      case (AArrive a p)
      then show ?thesis by (simp add: keeps_def)
    next
      case ARecvFails
      then show ?thesis by (simp add: recv_failed_def keeps_def [of s s] split: aphase.split) (simp add: keeps_def running_def)
    next
      case (ASent ok)
      then show ?thesis
        by (cases "a_phase s"; cases ok)
          (simp_all add: send_done_def keeps_def quiet_def receive_block_def start_timeout_def running_def)
    next
      case ASentLate
      then show ?thesis
        by (cases "a_phase s")
          (simp_all add: send_done_def keeps_def quiet_def receive_block_def start_timeout_def running_def)
    qed (use False in simp)
    with r assms False show ?thesis by (auto simp: keeps_def)
  qed
qed

text \<open>
  C21: the timeouts of a transfer add up: the counter starts at 1, every expiry adds one and no received
  block resets it, so a transfer that still runs has seen fewer than four expiries in all.
\<close>

theorem async_timeouts_add_up:
  assumes "running (arun c evs server_start)" "\<not> last_timeout (arun c evs server_start)"
  shows "timeout (arun c evs server_start) = 1 + int (fires c evs server_start) \<and> fires c evs server_start < 4"
proof -
  have "timeout s < maxtimeout \<Longrightarrow> running (arun c evs s) \<Longrightarrow> \<not> last_timeout (arun c evs s) \<Longrightarrow>
      timeout (arun c evs s) = timeout s + int (fires c evs s) \<and> timeout (arun c evs s) < maxtimeout" for s
  proof (induction evs arbitrary: s rule: rev_induct)
    case Nil
    then show ?case by (simp add: arun_def)
  next
    case (snoc e es)
    have f: "fires c (es @ [e]) s = fires c es s + fires c [e] (arun c es s)"
      by (induction es arbitrary: s) (simp_all add: arun_def)
    have a: "arun c (es @ [e]) s = astep c e (arun c es s)" by (simp add: arun_def)
    show ?case
      using timer_step [of c e "arun c es s"] snoc.IH [OF snoc.prems(1)] snoc.prems(2,3) unfolding f a
      by (auto simp del: fires.simps astep.simps)
  qed
  from this [of server_start] assms show ?thesis by (simp add: server_start_def maxtimeout_def rexmtval_def)
qed

text \<open>The request is accepted, then the timer expires twice while the server waits for the first block.\<close>

theorem async_timeouts_add_up_witness:
  "timeout (arun (demo_cfg (open_trunc None))
     ([AArrive demo_addr demo_request, ARecv True] @ [ASent True, ATimer, ARecvFails, ATimer]) server_start) = 3"
proof -
  let ?c = "demo_cfg (open_trunc None)"
  let ?s = "arun ?c [AArrive demo_addr demo_request, ARecv True] server_start"
  let ?w = "[ASent True, ATimer, ARecvFails, ATimer]"
  have s: "upload_inv (cbytes ''/tmp/tftpboot/a'') 512 [] 0 ?s" "a_phase ?s = ASending"
    using request_starts [OF demo_accepted demo_tftp(3) _ _ demo_segsize [symmetric] refl] by simp_all
  then have l: "\<not> last_timeout ?s" by (simp add: upload_inv_def)
  have t: "timeout ?s = 1"
    using keeps_recv [of "astep ?c (AArrive demo_addr demo_request) server_start" ?c True] s l
    by (simp add: arun_def keeps_def running_def) (simp add: server_start_def rexmtval_def)
  have r: "running (arun ?c ?w ?s) \<and> \<not> last_timeout (arun ?c ?w ?s) \<and> fires ?c ?w ?s = 2"
    using s(2) l t
    by (simp add: arun_def send_done_def receive_block_def start_timeout_def running_def timer_expired_def recv_failed_def
        Let_def maxtimeout_def rexmtval_def)
  have f: "fires ?c ([AArrive demo_addr demo_request, ARecv True] @ ?w) server_start = fires ?c ?w ?s"
    by (simp add: arun_def)
  from async_timeouts_add_up [of ?c "[AArrive demo_addr demo_request, ARecv True] @ ?w"] r f show ?thesis
    by (simp add: arun_append del: append_Cons append_Nil fires.simps)
qed

section \<open>Faults of the disk, the client and the request\<close>

text \<open>
  A write error of any block but the last is ignored: with a full disk a full block leaves
  the file as it is, and is acknowledged.
\<close>

theorem async_ignores_write_errors:
  assumes "guard s = Some f" "flimit f = Some (fpos f)" "drained (segs s)" "length (ackbuf s) = PKTSIZE"
    and "n = unat (g_segsize (os s))" "0 < n" "n \<le> MAXSEGSIZE"
  shows "let s' = write_segment c ok n s
    in guard s' = Some f \<and> a_phase s' = ASending \<and> pending s' = (peer s, ack_pkt (block s)) \<and> block s' = block s + 1"
proof -
  let ?bs = "take n (drop 4 (bbuf (bfs (segs s) (current (segs s)))))"
  have "?bs \<noteq> []" using assms(6,7) drained_len [OF assms(3)] by (simp add: size_defs)
  then have w: "sys_write f ?bs = (Inl ENOSPC, f)"
    using assms(2) by (simp add: sys_write_def room_def)
  have a: "take TFTP_HEADER (put_header (a_host c) ACK (block s) (ackbuf s)) = ack_pkt (block s)"
    using assms(4) by (simp add: take_put_header ack_pkt_def size_defs)
  show ?thesis
    using writeit_drained [OF assms(3), of n "Some f"] write_held [OF assms(3), of f n] w a assms(1,5)
    by (simp add: write_segment_def send_ack_def send_ackbuf_def Let_def)
qed

theorem async_ignores_write_errors_witness:
  "pending (write_segment (demo_cfg (open_trunc None)) True 512
     (server_start\<lparr>guard := Some (open_trunc (Some 0)), segs := snd (rw_init False bfs_start), block := 1\<rparr>)) =
   (peer server_start, ack_pkt 1)"
proof -
  let ?s = "server_start\<lparr>guard := Some (open_trunc (Some 0)), segs := snd (rw_init False bfs_start), block := 1\<rparr>"
  obtain i t where r: "rw_init False bfs_start = (i, t)" by fastforce
  have d: "drained (segs ?s)" using drained_init [OF _ _ r] r by (simp add: bfs_start_def)
  have s: "guard ?s = Some (open_trunc (Some 0))" "length (ackbuf ?s) = PKTSIZE" "512 = unat (g_segsize (os ?s))"
    by (simp_all add: server_start_def demo_segsize)
  have f: "flimit (open_trunc (Some 0)) = Some (fpos (open_trunc (Some 0)))" by (simp add: open_trunc_def)
  have n: "(0 :: nat) < 512" "512 \<le> MAXSEGSIZE" by (simp_all add: size_defs)
  from async_ignores_write_errors [OF s(1) f d s(2,3) n, of "demo_cfg (open_trunc None)" True]
  show ?thesis by (simp only: Let_def) simp
qed

text \<open>
  An upload that the client aborts with an error packet ends like one that succeeded:
  \<^verbatim>\<open>receive_file\<close> returns the file name without an exception, although nothing was stored
  under that name.
\<close>

theorem async_aborted_returns:
  assumes "tftp (a_env c) (take PKTSIZE rx) = Done 0 (Some f) path optack opts" "rx \<noteq> []"
    and "sound_out f" "fdata f = []" "TFTP_HEADER \<le> length p" "net_short p 0 = ERROR"
    and "a_listen c" "e_mkdir (a_env c) (g_rootdir (a_env c))"
    and "evs = [AArrive a rx, ARecv True] @ [ASent True, AArrive b p, ARecv ok', ATimer]"
  shows "receive_file c evs = Returns path \<and> \<not> renamed (arun c evs server_start)"
proof -
  let ?s = "arun c [AArrive a rx, ARecv True] server_start"
  note st = request_starts [OF assms(1-4) refl refl, of "[]" a]
  have u: "\<not> last_timeout ?s" using st by (auto simp: upload_inv_def)
  have t: "timeout ?s = 1"
    using keeps_recv [of "astep c (AArrive a rx) server_start" c True] st u
    by (simp add: arun_def keeps_def running_def) (simp add: server_start_def rexmtval_def)
  obtain s1 where s1: "upload_inv path (unat (g_segsize opts)) [] 0 s1" "armed s1" "timeout s1 = timeout ?s"
    "\<And>p ok. arun c [ASent True, AArrive b p, ARecv ok] ?s = check_and_write_block c ok p s1"
    using exchange_run [of path _ "[]" 0 ?s b c thesis] st by blast
  let ?s2 = "s1\<lparr>segs := set_bbuf (dp s1) (ntoh_header (a_host c) (overlay (bbuf (bfs (segs s1) (dp s1))) 0 (take MAXPKTSIZE p))) (segs s1)\<rparr>"
  note h = header_received [OF upload_inv_dp_len [OF s1(1)] assms(5)]
  have e: "check_and_write_block c ok' p s1 = quiet ?s2"
    using h(1,3) assms(6) by (auto simp: check_and_write_block_def Let_def not_less)
  have inv: "upload_inv path (unat (g_segsize opts)) [] 0 ?s2" using set_dp_inv [OF s1(1) h(4)] .
  have "evs = [AArrive a rx, ARecv True] @ [ASent True, AArrive b p, ARecv ok'] @ [ATimer]" unfolding assms(9) by simp
  then have run: "arun c evs server_start = timer_expired (?s2\<lparr>a_phase := AQuiet\<rparr>)"
    by (simp only: arun_append s1(4) e) (simp add: arun_def quiet_def running_def s1(2))
  show ?thesis
    unfolding receive_file_def run
    using inv s1(2,3) t assms(7,8) by (auto simp: upload_inv_def timer_expired_def Let_def maxtimeout_def rexmtval_def)
qed

theorem async_aborted_returns_witness:
  "receive_file (demo_cfg (open_trunc None)) ([AArrive demo_addr demo_request, ARecv True] @
     [ASent True, AArrive demo_addr (error_pkt 3 (cbytes ''full'')), ARecv True, ATimer]) =
   Returns (cbytes ''/tmp/tftpboot/a'')"
proof -
  have "TFTP_HEADER \<le> length (error_pkt 3 (cbytes ''full''))" "net_short (error_pkt 3 (cbytes ''full'')) 0 = ERROR"
    by (simp_all add: error_pkt_def wire_simps size_defs)
  from async_aborted_returns [OF demo_accepted demo_tftp(3) _ _ this _ _ refl] show ?thesis by (simp add: demo_cfg_def demo_env_def)
qed

lemma write_segment_null:
  assumes "guard s = None" "drained (segs s)"
  shows "a_phase (write_segment c ok n s) = ACrashed"
  using writeit_drained [OF assms(2), of n None] assms(1)
  by (simp add: write_held_null [OF assms(2)] write_segment_def send_ack_def send_ackbuf_def finish_upload_def Let_def)

lemma check_null:
  assumes "guard s = None" "drained (segs s)" "TFTP_HEADER \<le> length p" "net_short p 0 = DATA" "net_short p 2 = block s"
  shows "a_phase (check_and_write_block c ok p s) = ACrashed"
proof -
  note h = header_received [OF drained_len [OF assms(2)] assms(3)]
  have "drained (segs (progress c (s\<lparr>segs := set_bbuf (dp s) (ntoh_header (a_host c)
      (overlay (bbuf (bfs (segs s) (dp s))) 0 (take MAXPKTSIZE p))) (segs s)\<rparr>)))"
    using h(4) assms(2) by (simp add: drained_set_bbuf)
  with h(1-3) assms write_segment_null show ?thesis
    by (auto simp: check_and_write_block_def Let_def not_less)
qed

text \<open>
  C34: a write request that consists of a file name only is taken for a transfer without a
  file: it is answered with a full packet of option acknowledgement, and the first data block
  makes the server use a null \<^verbatim>\<open>FILE\<close> pointer.
\<close>

theorem async_request_without_mode_crashes:
  assumes "name \<noteq> []" "0 \<notin> set name" "length name \<le> SEGSIZE" "length bs \<le> MAXSEGSIZE"
    and "a_listen c" "e_mkdir (a_env c) default_dir" "e_mkdir (a_env c) (g_rootdir (a_env c))"
  shows "receive_file c ([AArrive a ([hi_byte WRQ, lo_byte WRQ] @ name @ [0]), ARecv True,
    ASent True, AArrive b (data_pkt 1 bs), ARecv ok']) = Crashes"
proof -
  let ?rx = "[hi_byte WRQ, lo_byte WRQ] @ name @ [0]"
  let ?oack = "oack_header @ replicate (PKTSIZE - 2) (0 :: byte)"
  have rx: "take PKTSIZE ?rx = ?rx" "?rx \<noteq> []" using assms(3) by (simp_all add: size_defs)
  let ?s = "server_start\<lparr>inq := [], sender := a, file_path := [], os := init_opt\<rparr>"
  have s: "arun c [AArrive a ?rx, ARecv True] server_start = start_recvfile c None ?oack ?s"
    using tftp_without_mode [OF assms(1,2,6)] rx
    by (simp add: arun_def server_start_def running_def recv_done_def request_received_def)
  obtain i t where r: "rw_init False bfs_start = (i, t)" by fastforce
  have t: "drained t" "i = current t" using drained_init [OF _ _ r] by (simp_all add: bfs_start_def)
  have o: "?oack \<noteq> []" by (simp add: oack_header_def)
  let ?s1 = "start_recvfile c None ?oack ?s"
  have s1: "a_phase ?s1 = ASending" "inq ?s1 = []" "segs ?s1 = t" "dp ?s1 = current t" "guard ?s1 = None" "block ?s1 = 1"
    using o t by (simp_all add: start_recvfile_def server_start_def r send_ackbuf_drained del: append_is_Nil_conv)
  let ?s2 = "?s1\<lparr>out := out ?s1 @ [pending ?s1], armed := True, a_phase := AReceiving, inq := [], peer := b\<rparr>"
  have p: "TFTP_HEADER \<le> length (data_pkt 1 bs)" "net_short (data_pkt 1 bs) 0 = DATA" "net_short (data_pkt 1 bs) 2 = block ?s2"
    using s1(6) by (simp_all add: wire_simps size_defs)
  have g: "guard ?s2 = None" "drained (segs ?s2)" using s1(3,5) t(1) by simp_all
  have "arun c ([AArrive a ?rx, ARecv True] @ [ASent True, AArrive b (data_pkt 1 bs), ARecv ok']) server_start =
      check_and_write_block c ok' (data_pkt 1 bs) ?s2"
    unfolding arun_append s using s1(1,2)
    by (simp add: arun_def send_done_def receive_block_def start_timeout_def running_def recv_done_def)
  with check_null [OF g p, of c ok'] show ?thesis using assms(5,7) by (simp add: receive_file_def)
qed

theorem async_request_without_mode_crashes_witness:
  "receive_file (demo_cfg (open_trunc None))
    ([AArrive demo_addr ([hi_byte WRQ, lo_byte WRQ] @ cbytes ''a'' @ [0]), ARecv True,
      ASent True, AArrive demo_addr (data_pkt 1 [7]), ARecv True]) = Crashes"
  by (rule async_request_without_mode_crashes) (simp_all add: cbytes_def size_defs demo_cfg_def demo_env_def)

text \<open>
  On a little-endian host the final acknowledgement is never repeated: the header of the repeated
  last block is compared in network order.
\<close>

lemma async_final_ack_once:
  assumes "a_host c = Little" "a_phase s = ALast" "inq s = (b, p) # q" "TFTP_HEADER \<le> length p" "net_short p 0 = DATA"
  shows "a_phase (astep c (ARecv ok) s) = AReturned \<and> out (astep c (ARecv ok) s) = out s"
proof -
  have "mk16 (p ! 0) (p ! 1) = mk16 0 3" using assms(5) by (simp add: net_short_def DATA_def mk16_def word_cat_eq)
  then have "p ! 0 = 0 \<and> p ! 1 = 3" by simp
  then have "th_opcode (a_host c) (take MAXPKTSIZE p) \<noteq> DATA"
    using assms(1) by (simp add: th_opcode_def load_short_def size_defs DATA_def mk16_def word_cat_eq)
  then show ?thesis using assms(2,3) by (simp add: recv_done_def last_received_def Let_def)
qed

end
