(* ===== verification/Async_Safety.thy ===== *)
theory Async_Safety
  imports Async_Transfer
begin

text \<open>
  The memory the C++ server works on, whatever arrives in whatever order: the buffers keep their
  sizes, \<^verbatim>\<open>dp_\<close> points to the buffer in use, and undefined behaviour has four sources only.
\<close>

definition mem_ok :: "server \<Rightarrow> bool" where
  "mem_ok s \<longleftrightarrow> length (bbuf (bfs (segs s) False)) = MAXPKTSIZE \<and> length (bbuf (bfs (segs s) True)) = MAXPKTSIZE \<and>
     length (ackbuf s) = PKTSIZE \<and> (started s \<longrightarrow> drained (segs s) \<and> dp s = current (segs s))"

definition blame :: "acfg \<Rightarrow> server \<Rightarrow> bool" where
  "blame c s \<longleftrightarrow> (\<exists>err. error_packet c err = None) \<or> \<not> started s \<or> guard s = None"

definition safe :: "acfg \<Rightarrow> server \<Rightarrow> bool" where
  "safe c s \<longleftrightarrow> (running s \<longrightarrow> mem_ok s) \<and> (a_phase s = ACrashed \<longrightarrow> blame c s) \<and>
     (a_phase s \<in> {ASending, AReceiving, ALast} \<longrightarrow> started s) \<and> (a_phase s = AIdle \<longrightarrow> \<not> started s)"

lemma safe_quiet: "mem_ok s \<Longrightarrow> safe c (quiet s)"
  by (auto simp: safe_def quiet_def mem_ok_def)

lemma safe_send_error: "mem_ok s \<Longrightarrow> safe c (send_error c err s)"
  by (auto simp: safe_def send_error_def mem_ok_def blame_def split: option.split)

lemma safe_receive_block: "mem_ok s \<Longrightarrow> started s \<Longrightarrow> safe c (receive_block s)"
  by (simp add: safe_def receive_block_def start_timeout_def mem_ok_def)

lemma safe_resend: "mem_ok s \<Longrightarrow> started s \<Longrightarrow> safe c (send_ackbuf n s)"
  by (simp add: send_ackbuf_drained mem_ok_def safe_def)

lemma mem_ok_progress [simp]: "mem_ok (progress c s) = mem_ok s" "started (progress c s) = started s"
  by (simp_all add: progress_def mem_ok_def Let_def)

lemma safe_send_last_ack: "mem_ok s \<Longrightarrow> started s \<Longrightarrow> safe c (send_last_ack c ok s)"
  by (auto simp: safe_def send_last_ack_def start_timeout_def mem_ok_def Let_def running_def)

lemma safe_write_segment:
  assumes "mem_ok s" "started s"
  shows "safe c (write_segment c ok n s)"
proof -
  have d: "drained (segs s)" "dp s = current (segs s)" "length (ackbuf s) = PKTSIZE"
    using assms by (simp_all add: mem_ok_def)
  note w = writeit_drained [OF d(1)] write_held [OF d(1)] write_held_null [OF d(1)]
  note e = drained_emptied [OF d(1)] drained_len
  show ?thesis
  proof (cases "guard s")
    case None
    with w assms show ?thesis
      by (simp add: write_segment_def send_ack_def send_ackbuf_def finish_upload_def safe_def blame_def Let_def running_def)
  next
    case (Some f)
    obtain r f' where r: "sys_write f (take n (drop 4 (bbuf (bfs (segs s) (current (segs s)))))) = (r, f')" by fastforce
    define t where "t = (case r of Inl e \<Rightarrow> emptied n (segs s)\<lparr>errno := e\<rparr> | Inr _ \<Rightarrow> emptied n (segs s))"
    define i where "i = (case r of Inl _ \<Rightarrow> -1 | Inr m \<Rightarrow> int m)"
    have wh: "write_behind (Some f, held n (segs s)) = Some (i, Some f', t)"
      using w(2) [of f n] by (simp add: r t_def i_def split: sum.split)
    have t: "drained t" "current t = (\<not> current (segs s))" using e(1) [of n] by (simp_all add: t_def split: sum.split)
    let ?s = "s\<lparr>guard := Some f, segs := held n (segs s), dp := \<not> current (segs s)\<rparr>"
    have m: "mem_ok (?s\<lparr>ackbuf := a, block := b, guard := Some f', segs := t, pending := p, a_phase := x\<rparr>)"
      "mem_ok (?s\<lparr>guard := Some f', segs := t\<rparr>)" "mem_ok (?s\<lparr>guard := Some f', segs := t, renamed := y\<rparr>)"
      if "length a = PKTSIZE" for a b p x y
      using t that d(3) by (simp_all add: mem_ok_def drained_len)
    have a: "safe c (send_ack c ?s)"
      using m(1) d(3) assms(2) by (simp add: send_ack_def send_ackbuf_def wh safe_def)
    have l: "safe c (send_last_ack c ok (?s\<lparr>guard := Some f', segs := t, renamed := y\<rparr>))" for y
      using m(3) [OF d(3)] assms(2) by (intro safe_send_last_ack) simp_all
    have f: "safe c (send_error c ENOSPACE (?s\<lparr>guard := Some f', segs := t\<rparr>))"
      using m(2) [OF d(3)] by (rule safe_send_error)
    from l f have "safe c (finish_upload c ok ?s)" by (simp add: finish_upload_def wh Let_def)
    moreover have "write_segment c ok n s = (if n = unat (g_segsize (os s)) then send_ack c ?s else finish_upload c ok ?s)"
      by (simp add: write_segment_def Some w(1) Let_def)
    ultimately show ?thesis using a by (simp only: if_split [where P = "safe c"]) simp
  qed
qed

lemma safe_check:
  assumes "mem_ok s" "started s"
  shows "safe c (check_and_write_block c ok p s)"
proof (cases "length (take MAXPKTSIZE p) < TFTP_HEADER")
  case True
  then show ?thesis by (simp add: check_and_write_block_def Let_def safe_def running_def del: length_take)
next
  case False
  let ?h = "ntoh_header (a_host c) (overlay (bbuf (bfs (segs s) (dp s))) 0 (take MAXPKTSIZE p))"
  let ?s = "s\<lparr>segs := set_bbuf (dp s) ?h (segs s)\<rparr>"
  have "length (bbuf (bfs (segs s) (dp s))) = MAXPKTSIZE" using assms(1) by (cases "dp s") (auto simp: mem_ok_def)
  then have "length ?h = MAXPKTSIZE" by simp
  with assms have m: "mem_ok ?s" "started ?s" by (auto simp: mem_ok_def drained_set_bbuf bf_simps)
  then have q: "mem_ok (?s\<lparr>inq := q\<rparr>)" "started (?s\<lparr>inq := q\<rparr>)" for q by (simp_all add: mem_ok_def)
  from m q False show ?thesis
    by (simp add: check_and_write_block_def Let_def safe_quiet safe_send_error safe_write_segment safe_resend del: length_take)
qed

lemma safe_last: "mem_ok s \<Longrightarrow> started s \<Longrightarrow> safe c (last_received c ok p s)"
  by (simp add: last_received_def Let_def safe_def running_def)

lemma safe_start:
  assumes "mem_ok s" "length optack \<le> PKTSIZE"
  shows "safe c (start_recvfile c f optack s)"
proof -
  obtain i t where r: "rw_init False (segs s) = (i, t)" by fastforce
  have t: "drained t" "i = current t"
    using drained_init [OF _ _ r] assms(1) by (auto simp: mem_ok_def)
  let ?s = "s\<lparr>peer := sender s, block := 0, segs := t, dp := i\<rparr>"
  have "safe c ((send_ackbuf n (?s\<lparr>ackbuf := a, block := b\<rparr>))\<lparr>guard := f, started := True\<rparr>)"
    if "length a = PKTSIZE" for n a b
    using that t by (simp add: send_ackbuf_drained safe_def mem_ok_def drained_len)
  moreover have "length (ackbuf s) = PKTSIZE" using assms(1) by (simp add: mem_ok_def)
  ultimately show ?thesis using assms(2) by (simp add: start_recvfile_def send_ack_def r Let_def)
qed

lemma safe_request:
  assumes "mem_ok s" "\<not> started s"
  shows "safe c (request_received c ok p s)"
proof (cases "take PKTSIZE p = []")
  case True
  then show ?thesis by (simp add: request_received_def safe_quiet assms(1))
next
  case ne: False
  show ?thesis
  proof (cases "tftp (a_env c) (take PKTSIZE p)")
    case (Done e f path ack opts)
    let ?s = "s\<lparr>file_path := path, os := opts\<rparr>"
    have "length ack \<le> PKTSIZE" using tftp_sane_any [OF Done] by (auto simp: sane_done_def ack_ok_def)
    moreover have "mem_ok ?s" "mem_ok (?s\<lparr>inq := []\<rparr>)" using assms(1) by (simp_all add: mem_ok_def)
    ultimately show ?thesis
      using Done ne by (auto simp: request_received_def Let_def safe_send_error safe_start) (simp add: safe_def running_def)
  next
    case Asserts
    with ne show ?thesis by (simp add: request_received_def Let_def safe_def running_def)
  next
    case Raises
    with ne show ?thesis by (simp add: request_received_def Let_def safe_def running_def)
  next
    case Smash
    with ne assms(2) show ?thesis by (auto simp: request_received_def Let_def safe_def running_def blame_def)
  qed
qed

lemma safe_step:
  assumes "safe c s" "\<not> (a_phase s = AErrSending \<and> e = ASentLate)"
  shows "safe c (astep c e s)"
proof (cases "running s")
  case False
  have "astep c e s = s"
    using False by (cases e; cases "a_phase s")
      (auto simp: running_def recv_done_def recv_failed_def send_done_def Let_def split: list.splits)
  with assms(1) show ?thesis by simp
next
  case True
  then have m: "mem_ok s" and st: "a_phase s \<in> {ASending, AReceiving, ALast} \<longrightarrow> started s"
    and idle: "a_phase s = AIdle \<longrightarrow> \<not> started s"
    using assms by (simp_all add: safe_def)
  have sent: "safe c (send_done ok s)" for ok
  proof -
    have "mem_ok (s\<lparr>out := out s @ [pending s]\<rparr>)" using m by (simp add: mem_ok_def)
    moreover have "safe c (s1\<lparr>armed := False, a_phase := AThrown Operation_canceled\<rparr>)" for s1 :: server
      by (simp add: safe_def running_def)
    ultimately show ?thesis using m st assms(1)
      by (cases "a_phase s"; cases ok) (simp_all add: send_done_def safe_quiet safe_receive_block)
  qed
  show ?thesis
  proof (cases e)
    case (AArrive a p)
    with m st idle True show ?thesis by (auto simp: safe_def mem_ok_def running_def)
  next
    case (ARecv ok)
    show ?thesis
    proof (cases "inq s")
      case Nil
      with ARecv assms show ?thesis by (simp add: recv_done_def)
    next
      case (Cons ap q)
      obtain a p where ap: "ap = (a, p)" by (cases ap)
      have "mem_ok (s\<lparr>inq := q, sender := a\<rparr>)" "mem_ok (s\<lparr>inq := q, peer := a\<rparr>)" using m by (simp_all add: mem_ok_def)
      then have "a_phase s = AIdle \<Longrightarrow> safe c (request_received c ok p (s\<lparr>inq := q, sender := a\<rparr>))"
        "a_phase s = AReceiving \<Longrightarrow> safe c (check_and_write_block c ok p (s\<lparr>inq := q, peer := a\<rparr>))"
        "a_phase s = ALast \<Longrightarrow> safe c (last_received c ok p (s\<lparr>inq := q, peer := a\<rparr>))"
        using st idle by (auto intro: safe_request safe_check safe_last)
      with ARecv Cons ap assms show ?thesis by (simp add: recv_done_def split: aphase.split)
    qed
  next
    case ARecvFails
    have "a_phase s = ALast \<Longrightarrow> safe c (s\<lparr>armed := False, a_phase := AReturned\<rparr>)" by (simp add: safe_def running_def)
    with ARecvFails m st assms(1) show ?thesis
      by (cases "a_phase s") (simp_all add: recv_failed_def safe_quiet safe_receive_block)
  next
    case (ASent ok)
    with sent show ?thesis by simp
  next
    case ASentLate
    with sent assms(2) show ?thesis by simp
  next
    case ATimer
    with m st idle True show ?thesis by (auto simp: timer_expired_def Let_def safe_def mem_ok_def running_def)
  qed
qed

text \<open>A packet that is sent late is the only step that is not safe, and nothing happens behind it.\<close>

definition sound :: "acfg \<Rightarrow> server \<Rightarrow> bool" where
  "sound c s \<longleftrightarrow> safe c s \<or> a_phase s = ACrashed"

lemma sound_step:
  assumes "sound c s"
  shows "sound c (astep c e s)"
proof (cases "running s")
  case True
  with assms have "safe c s" by (auto simp: sound_def running_def)
  then show ?thesis using safe_step [of c s e] by (cases "a_phase s = AErrSending \<and> e = ASentLate") (auto simp: sound_def)
next
  case False
  have "astep c e s = s"
    using False by (cases e; cases "a_phase s")
      (auto simp: running_def recv_done_def recv_failed_def send_done_def Let_def split: list.splits)
  with assms show ?thesis by simp
qed

lemma sound_run: "sound c s \<Longrightarrow> sound c (arun c evs s)"
  by (induction evs arbitrary: s) (simp_all add: arun_def sound_step del: astep.simps)

lemma safe_begin: "safe c server_start"
  by (simp add: safe_def server_start_def mem_ok_def bfs_start_def)

lemma running_safe:
  assumes "running (arun c evs server_start)"
  shows "safe c (arun c evs server_start)"
  using sound_run [of c server_start evs] safe_begin [of c] assms by (auto simp: sound_def running_def)

lemma error_packet_fits:
  assumes "error_packet c err = None"
  shows "\<exists>e. 507 < length (a_strerror c e)"
proof (rule ccontr)
  assume short: "\<nexists>e. 507 < length (a_strerror c e)"
  obtain code m where m: "nak_code_msg errmsgs (a_strerror c) err = (code, m)" by fastforce
  have "length m \<le> 507"
  proof (cases "map_of errmsgs err")
    case None
    with m short show ?thesis by (auto simp: nak_code_msg_def not_less)
  next
    case (Some x)
    then have "length x \<le> 41"
      by (auto simp: errmsgs_def Tftp_Wire.errmsgs_def ecode_defs split: if_splits)
    with m Some show ?thesis by (simp add: nak_code_msg_def)
  qed
  with m assms show False by (simp add: error_packet_def Let_def size_defs)
qed

text \<open>
  C10: the memory of the C++ server, along every run, whatever arrives, completes or expires.  While it runs, the buffer it receives
  into has room for the largest packet and the acknowledgement buffer for a packet.  A step to undefined behaviour is one of four:
  the request (\<open>async_request_overflows\<close>), a transfer whose \<^verbatim>\<open>FILE\<close> is null (\<open>async_request_without_mode_crashes\<close>), an error
  message of more than 507 bytes, or an error packet that is not sent at once and read from a vector that is gone: this last step
  is always one.
\<close>

theorem async_memory_safe:
  assumes "running (arun c evs server_start)"
  defines "s \<equiv> arun c evs server_start"
  shows "length (bbuf (bfs (segs s) (dp s))) = MAXPKTSIZE \<and> length (ackbuf s) = PKTSIZE \<and>
    (a_phase (astep c e s) = ACrashed \<longrightarrow>
      \<not> started (astep c e s) \<or> guard (astep c e s) = None \<or> (\<exists>n. 507 < length (a_strerror c n)) \<or>
      a_phase s = AErrSending \<and> e = ASentLate) \<and>
    (a_phase s = AErrSending \<longrightarrow> a_phase (astep c ASentLate s) = ACrashed)"
proof -
  have s: "safe c s" using running_safe [OF assms(1)] by (simp add: s_def)
  then have "length (bbuf (bfs (segs s) (dp s))) = MAXPKTSIZE" "length (ackbuf s) = PKTSIZE"
    using assms(1) by (cases "dp s"; simp add: s_def safe_def mem_ok_def)+
  moreover have "\<not> started (astep c e s) \<or> guard (astep c e s) = None \<or> (\<exists>n. 507 < length (a_strerror c n))"
    if "a_phase (astep c e s) = ACrashed" "\<not> (a_phase s = AErrSending \<and> e = ASentLate)"
    using safe_step [OF s that(2)] that(1) error_packet_fits by (auto simp: safe_def blame_def)
  moreover have "a_phase s = AErrSending \<longrightarrow> a_phase (astep c ASentLate s) = ACrashed" by simp
  ultimately show ?thesis by blast
qed

theorem async_memory_safe_witness:
  "let s = arun (demo_cfg (open_trunc None)) ([AArrive demo_addr demo_request, ARecv True] @
      concat (map (exchange demo_addr 512 (replicate 600 7)) [0..<1])) server_start
   in length (bbuf (bfs (segs s) (dp s))) = MAXPKTSIZE \<and> length (ackbuf s) = PKTSIZE \<and>
     a_phase (astep (demo_cfg (open_trunc None)) (ASent True) s) \<noteq> ACrashed"
proof -
  let ?c = "demo_cfg (open_trunc None)"
  let ?es = "[AArrive demo_addr demo_request, ARecv True] @ concat (map (exchange demo_addr 512 (replicate 600 7)) [0..<1])"
  let ?s = "arun ?c ?es server_start"
  have n: "nsegs 512 (replicate 600 (7 :: byte)) = 2" by (simp add: nsegs_def)
  note st = request_starts [OF demo_accepted demo_tftp(3) _ _ demo_segsize [symmetric] refl,
      of "open_trunc None" "replicate 600 7" demo_addr]
  then have "fits 512 (replicate 600 (7 :: byte))" by (simp add: fits_def n)
  with exchanges_run [of "cbytes ''/tmp/tftpboot/a''" 512 "replicate 600 7" _ 1 ?c demo_addr] st n
  have i: "upload_inv (cbytes ''/tmp/tftpboot/a'') 512 (replicate 600 7) 1 ?s"
    and p: "a_phase ?s = ASending" by (simp_all only: Let_def arun_append) simp_all
  have r: "running ?s" using p by (simp add: running_def)
  have g: "started (astep ?c (ASent True) ?s)" "guard (astep ?c (ASent True) ?s) \<noteq> None"
    using i p by (auto simp: upload_inv_def send_done_def receive_block_def start_timeout_def)
  have short: "\<not> 507 < length (a_strerror ?c n)" for n by (simp add: demo_cfg_def)
  note m = async_memory_safe [OF r, of "ASent True"]
  have "a_phase (astep ?c (ASent True) ?s) \<noteq> ACrashed"
  proof
    assume "a_phase (astep ?c (ASent True) ?s) = ACrashed"
    from mp [OF conjunct1 [OF conjunct2 [OF conjunct2 [OF m]]] this] g short aevent.distinct show False by iprover
  qed
  with m show ?thesis unfolding Let_def by iprover
qed

end
