(* ===== verification/Async_Phases.thy ===== *)
theory Async_Phases
  imports Async_Transfer
begin

text \<open>
  The C++ server seen from its pending operation: an abstract machine on the phases, with a rule for what
  each completion handler may leave pending, and the proof that every step of the server is one of its moves.
\<close>

section \<open>The abstract machine\<close>

text \<open>Nothing but the timer is pending, or \<^verbatim>\<open>run\<close> returns.\<close>

definition rests :: "aphase set" where "rests = {AQuiet, AReturned}"

inductive moves :: "aphase \<Rightarrow> aphase \<Rightarrow> bool" where
  stays: "moves p p"
| request_answered: "q \<in> {ASending, AErrSending, AAborted, ACrashed, AThrown Mkdir_failed, AThrown Socket_failed} \<Longrightarrow> moves AIdle q"
| request_ignored: "q \<in> rests \<Longrightarrow> moves AIdle q"
| ack_sent: "q \<in> insert AReceiving rests \<Longrightarrow> moves ASending q"
| block_taken: "q \<in> {ASending, AErrSending, ALast, ACrashed, AAborted, AThrown Send_failed} \<union> rests \<Longrightarrow> moves AReceiving q"
| error_sent: "q \<in> {AThrown Operation_canceled, ACrashed} \<Longrightarrow> moves AErrSending q"
| last_block: "q \<in> {AReturned, AThrown Send_failed} \<Longrightarrow> moves ALast q"
| timer_quiet: "moves AQuiet AReturned"
| times_out: "p \<in> {AIdle, ASending, AReceiving, AErrSending, AQuiet} \<Longrightarrow> moves p (AThrown Timed_out)"

inductive_simps moves_simps [simp]:
  "moves AIdle q" "moves ASending q" "moves AReceiving q" "moves AErrSending q" "moves ALast q" "moves AQuiet q"
  "moves AReturned q" "moves (AThrown x) q" "moves ACrashed q" "moves AAborted q" "moves p AIdle"

section \<open>Every handler is a move\<close>

definition final_ok :: "server \<Rightarrow> bool" where "final_ok s \<longleftrightarrow> (a_phase s = ALast \<longrightarrow> last_timeout s)"

lemma quiet_rests [simp]: "a_phase (quiet s) \<in> rests" "a_phase (quiet s) \<noteq> ALast"
  by (simp_all add: quiet_def rests_def)

lemma send_error_phase: "a_phase (send_error c err s) \<in> {AErrSending, ACrashed}"
  by (simp add: send_error_def split: option.split)

lemma send_ackbuf_phase: "a_phase (send_ackbuf n s) \<in> {ASending, ACrashed}"
  by (auto simp: send_ackbuf_def split: option.split)

lemma start_phase: "a_phase (start_recvfile c f oack s) \<in> {ASending, ACrashed}"
  using send_ackbuf_phase by (simp add: start_recvfile_def send_ack_def Let_def split: prod.split)

lemma request_phase:
  "a_phase (request_received c ok p s) \<in>
    {ASending, AErrSending, AAborted, ACrashed, AThrown Mkdir_failed, AThrown Socket_failed} \<union> rests"
  (is "_ \<in> ?R")
proof -
  define R where "R = ?R"
  have q: "a_phase (quiet r) \<in> R" and e: "a_phase (send_error c err r) \<in> R"
    and st: "a_phase (start_recvfile c f oack r) \<in> R" for r err f oack
    unfolding R_def using quiet_rests(1) [of r] send_error_phase [of c err r] start_phase [of c f oack r] by blast+
  have k: "AAborted \<in> R" "ACrashed \<in> R" "AThrown Mkdir_failed \<in> R" "AThrown Socket_failed \<in> R" by (simp_all add: R_def)
  have "a_phase (request_received c ok p s) \<in> R"
    by (simp add: request_received_def Let_def q e st k split: verdict.split)
  then show ?thesis unfolding R_def .
qed

lemma segment_phase:
  "a_phase (write_segment c ok n s) \<in> {ASending, AErrSending, ALast, ACrashed, AThrown Send_failed}"
  "a_phase (write_segment c ok n s) = ALast \<Longrightarrow> last_timeout (write_segment c ok n s)"
proof -
  have l: "a_phase (send_last_ack c ok r) \<in> {ALast, AThrown Send_failed}"
    "a_phase (send_last_ack c ok r) = ALast \<Longrightarrow> last_timeout (send_last_ack c ok r)" for r
    by (auto simp: send_last_ack_def Let_def split: if_splits)
  have a: "a_phase (send_ack c r) \<in> {ASending, ACrashed}" for r
    unfolding send_ack_def by (rule send_ackbuf_phase)
  have e: "a_phase (send_error c err r) \<noteq> ALast" "a_phase (send_ack c r) \<noteq> ALast" for err r
    using send_error_phase [of c err r] a [of r] by auto
  show "a_phase (write_segment c ok n s) \<in> {ASending, AErrSending, ALast, ACrashed, AThrown Send_failed}"
  (is "_ \<in> ?R")
  proof -
    define R where "R = ?R"
    have k: "a_phase (send_last_ack c ok r) \<in> R" "a_phase (send_error c err r) \<in> R" "a_phase (send_ack c r) \<in> R" "ACrashed \<in> R" for r err
      unfolding R_def using l(1) [of r] a [of r] send_error_phase [of c err r] by blast+
    have "a_phase (write_segment c ok n s) \<in> R"
      by (simp add: write_segment_def finish_upload_def Let_def k split: option.split prod.split)
    then show ?thesis unfolding R_def .
  qed
  show "last_timeout (write_segment c ok n s)" if "a_phase (write_segment c ok n s) = ALast"
    using that l(2) e by (auto simp: write_segment_def finish_upload_def Let_def split: option.splits if_splits)
qed


lemma check_phase:
  "a_phase (check_and_write_block c ok p s) \<in> {ASending, AErrSending, ALast, ACrashed, AAborted, AThrown Send_failed} \<union> rests"
  (is "_ \<in> ?R")
  "a_phase (check_and_write_block c ok p s) = ALast \<Longrightarrow> last_timeout (check_and_write_block c ok p s)"
proof -
  define R where "R = ?R"
  have k: "a_phase (quiet r) \<in> R" "a_phase (send_error c err r) \<in> R" "a_phase (send_ackbuf n r) \<in> R"
    "a_phase (write_segment c ok n r) \<in> R" "AAborted \<in> R" for r err n
    unfolding R_def using quiet_rests(1) [of r] send_error_phase [of c err r] send_ackbuf_phase [of n r] segment_phase(1) [of c ok n r]
    by blast+
  have "a_phase (check_and_write_block c ok p s) \<in> R"
    by (simp add: check_and_write_block_def Let_def k)
  then show "a_phase (check_and_write_block c ok p s) \<in> ?R" unfolding R_def .
  have e: "a_phase (send_error c err r) \<noteq> ALast" "a_phase (send_ackbuf n r) \<noteq> ALast" "a_phase (quiet r) \<noteq> ALast" for r err n
    using quiet_rests(1) [of r] send_error_phase [of c err r] send_ackbuf_phase [of n r] by (auto simp: rests_def)
  show "last_timeout (check_and_write_block c ok p s)" if "a_phase (check_and_write_block c ok p s) = ALast"
    using that segment_phase(2) e by (auto simp: check_and_write_block_def Let_def split: if_splits)
qed

lemma step_moves:
  assumes "final_ok s"
  shows "moves (a_phase s) (a_phase (astep c e s)) \<and> final_ok (astep c e s)"
proof (cases e)
  case (ARecv ok)
  show ?thesis
  proof (cases "inq s")
    case Nil
    with ARecv assms show ?thesis by (simp add: recv_done_def stays)
  next
    case (Cons x q)
    obtain a p where x: "x = (a, p)" by fastforce
    have l: "a_phase (last_received c ok p r) \<in> {AReturned, AThrown Send_failed}" for r
      by (simp add: last_received_def Let_def)
    have ll: "a_phase (last_received c ok p r) \<noteq> ALast" for r using l [of r] by auto
    have r: "a_phase (request_received c ok p r) \<noteq> ALast" for r using request_phase [of c ok p r] by (auto simp: rests_def)
    have m: "moves AIdle (a_phase (request_received c ok p r))" "moves AReceiving (a_phase (check_and_write_block c ok p r))"
      "moves ALast (a_phase (last_received c ok p r))" for r
      using request_phase [of c ok p r] check_phase(1) [of c ok p r] l [of r] by auto
    show ?thesis
      using ARecv Cons x assms ll r check_phase(2)
      by (cases "a_phase s") (simp_all add: recv_done_def stays final_ok_def m del: moves_simps)
  qed
qed (use assms in \<open>auto simp: recv_failed_def receive_block_def start_timeout_def send_done_def send_late_def running_def
      timer_expired_def Let_def final_ok_def stays split: aphase.splits\<close>)


lemma run_moves:
  assumes "final_ok s"
  shows "moves\<^sup>*\<^sup>* (a_phase s) (a_phase (arun c es s)) \<and> final_ok (arun c es s)"
  using assms unfolding arun_def
proof (induction es arbitrary: s)
  case (Cons e es)
  note st = step_moves [OF Cons.prems, of c e]
  with Cons.IH [of "astep c e s"] show ?case
    by (auto intro: converse_rtranclp_into_rtranclp)
qed simp

lemma start_final [simp]: "final_ok server_start"
  by (simp add: final_ok_def server_start_def)

text \<open>What is reachable from the last phases, by induction over the moves.\<close>

lemma moves_over:
  "moves\<^sup>*\<^sup>* p q \<Longrightarrow> p \<in> {AReturned, ACrashed, AAborted} \<union> range AThrown \<Longrightarrow> q = p"
  by (induction rule: converse_rtranclp_induct) auto

lemma moves_last: "moves\<^sup>*\<^sup>* ALast q \<Longrightarrow> q \<in> {ALast, AReturned, AThrown Send_failed}"
  by (induction rule: rtranclp_induct) auto

lemma moves_not_idle: "moves\<^sup>*\<^sup>* p q \<Longrightarrow> p \<noteq> AIdle \<Longrightarrow> q \<noteq> AIdle"
  by (induction rule: rtranclp_induct) (auto simp: rests_def)

section \<open>Properties\<close>

text \<open>
  C11: the server implements the abstract machine: along every run the pending operations change by its moves.  So a server
  answers one request only, an upload whose last block is stored can no longer time out or be refused, and what has
  returned, thrown or stopped stays so.
\<close>

theorem async_follows_phases:
  assumes "s = arun c es server_start" "s' = arun c es' s"
  shows "moves\<^sup>*\<^sup>* (a_phase s) (a_phase s') \<and> (a_phase s \<noteq> AIdle \<longrightarrow> a_phase s' \<noteq> AIdle) \<and>
    (a_phase s = ALast \<longrightarrow> a_phase s' \<in> {ALast, AReturned, AThrown Send_failed}) \<and>
    (\<not> running s \<longrightarrow> a_phase s' = a_phase s)"
proof -
  have "final_ok s" using run_moves [OF start_final, of c es] assms(1) by simp
  with assms(2) have m: "moves\<^sup>*\<^sup>* (a_phase s) (a_phase s')" using run_moves by simp
  moreover have "\<not> running s \<Longrightarrow> a_phase s' = a_phase s"
    using moves_over [OF m] by (cases "a_phase s") (auto simp: running_def)
  ultimately show ?thesis using moves_last moves_not_idle by metis
qed

theorem async_follows_phases_witness:
  "let s = arun (demo_cfg (open_trunc None)) [ARecvFails] server_start; s' = arun (demo_cfg (open_trunc None)) [ATimer] s
   in moves\<^sup>*\<^sup>* AQuiet (a_phase s') \<and> a_phase s' \<noteq> AIdle"
proof -
  let ?s = "arun (demo_cfg (open_trunc None)) [ARecvFails] server_start"
  have "a_phase ?s = AQuiet" by (simp add: arun_def server_start_def recv_failed_def quiet_def)
  with async_follows_phases [OF refl refl, of "demo_cfg (open_trunc None)" "[ARecvFails]" "[ATimer]"]
  show ?thesis by (simp add: Let_def)
qed

end
