(* ===== verification/Async_Option_Test.thy ===== *)
theory Async_Option_Test
  imports Async_Request
begin

text \<open>
  The repository's own test of \<^verbatim>\<open>tftp()\<close>, \<^verbatim>\<open>option_test.cpp\<close>, run on the model.  Its variables \<^verbatim>\<open>path\<close>, \<^verbatim>\<open>fp\<close>
  and \<^verbatim>\<open>ackbuf\<close> go to every call by reference and keep what a call leaves in them: \<^verbatim>\<open>path\<close> is only
  assigned when the mode is accepted.  A failed assertion is \<open>None\<close>.
\<close>

record vars =
  v_path :: path
  v_fp :: "cfile option"
  v_ack :: "byte list"

definition call_tftp :: "env \<Rightarrow> byte list \<Rightarrow> vars \<Rightarrow> (int \<times> vars \<times> opts) option" where
  "call_tftp e rx v =
     (case tftp e rx of
        Done err f p a o' \<Rightarrow> Some (err, \<lparr>v_path = (if p = [] then v_path v else p), v_fp = f, v_ack = a\<rparr>, o')
      | _ \<Rightarrow> None)"

text \<open>One block of the test: a call and the assertions behind it.\<close>

definition check :: "env \<Rightarrow> byte list \<Rightarrow> (int \<Rightarrow> vars \<Rightarrow> opts \<Rightarrow> bool) \<Rightarrow> vars \<Rightarrow> vars option" where
  "check e rx asserts v =
     (case call_tftp e rx v of
        None \<Rightarrow> None
      | Some (err, v', o') \<Rightarrow> if asserts err v' o' then Some v' else None)"

definition corrupt :: "byte list" where "corrupt = cbytes ''invalid data block'' @ [0]"

definition test1 :: "(str \<times> str) list" where
  "test1 =
     [(cbytes ''blksize'', cbytes ''1047''), (cbytes ''blksize2'', cbytes ''1234''), (cbytes ''rollover'', cbytes ''1''),
      (cbytes ''timeout'', cbytes ''1''), (cbytes ''utimeout'', cbytes ''33333''), (cbytes ''tsize'', cbytes ''12345678910'')]"

definition test2 :: "(str \<times> str) list" where
  "test2 = [(cbytes ''timeout'', cbytes ''2''), (cbytes ''blksize2'', cbytes ''65464'')]"

definition test3 :: "(str \<times> str) list" where
  "test3 = [(cbytes ''blksize2'', cbytes ''1234''), (cbytes ''utimeout'', cbytes ''10000'')]"

definition test4 :: "(str \<times> str) list" where
  "test4 =
     [(cbytes ''blksize'', cbytes ''777777''), (cbytes ''blksize'', cbytes ''0''), (cbytes ''timeout'', cbytes ''333''),
      (cbytes ''timeout'', cbytes ''0''), (cbytes ''tsize'', cbytes ''NoNumber''), (cbytes ''utimeout'', cbytes ''999'')]"

definition test_request :: "string \<Rightarrow> (str \<times> str) list \<Rightarrow> byte list" where
  "test_request name ovs = request_opts WRQ (cbytes name) (cbytes ''octet'') ovs"

definition unknown :: "byte list" where
  "unknown = [0, 1] @ cbytes ''unknown_mode.dat'' @ 0 # cbytes ''netascii'' @ [0, 0]"

definition missing :: "byte list" where
  "missing = [0, 1] @ cbytes ''missing_mode.dat'' @ [0, 0]"

definition option_test :: "env \<Rightarrow> vars option" where
  "option_test e =
     Option.bind (check e corrupt
         (\<lambda>err v o'. err \<noteq> 0 \<and> g_segsize o' = of_nat SEGSIZE \<and> v_path v = [] \<and> v_ack v = [] \<and> v_fp v = None)
         \<lparr>v_path = [], v_fp = None, v_ack = []\<rparr>) (\<lambda>v.
     Option.bind (check e (test_request ''testfile.dat'' test1)
         (\<lambda>err v o'. err = 0 \<and> v_ack v \<noteq> [] \<and> g_segsize o' = 1047 \<and> g_tsize o' = 12345678910 \<and> g_timeout o' = 33) v) (\<lambda>v.
     Option.bind (check e (test_request ''testfile.dat'' test2)
         (\<lambda>err v o'. err = 0 \<and> g_segsize o' = push_bit 15 1 \<and> g_tsize o' = 0 \<and> g_timeout o' = 2000) v) (\<lambda>v.
     Option.bind (check e (test_request ''testfile.dat'' test3)
         (\<lambda>err v o'. err = 0 \<and> g_segsize o' = 1024 \<and> g_timeout o' = 10) v) (\<lambda>v.
     Option.bind (check e (test_request ''minimal.dat'' test4)
         (\<lambda>err v o'. err = 0 \<and> v_ack v \<noteq> [] \<and> g_segsize o' = of_nat MAXSEGSIZE \<and> g_timeout o' = 1000) v) (\<lambda>v.
     Option.bind (check e unknown
         (\<lambda>err v o'. err \<noteq> 0 \<and> g_segsize o' = of_nat SEGSIZE \<and> v_path v \<noteq> [] \<and> v_ack v = []) v) (\<lambda>v.
     check e missing (\<lambda>err v o'. v_ack v = [] \<and> err \<noteq> 0) v))))))"

section \<open>The calls of the test\<close>

lemma tested_numbers:
  "c_strtoumax (cbytes ''1'') = (1, [], False)" "c_strtoumax (cbytes ''2'') = (2, [], False)"
  "c_strtoumax (cbytes ''0'') = (0, [], False)" "c_strtoumax (cbytes ''333'') = (333, [], False)"
  "c_strtoumax (cbytes ''999'') = (999, [], False)" "c_strtoumax (cbytes ''1047'') = (1047, [], False)"
  "c_strtoumax (cbytes ''1234'') = (1234, [], False)" "c_strtoumax (cbytes ''10000'') = (10000, [], False)"
  "c_strtoumax (cbytes ''33333'') = (33333, [], False)" "c_strtoumax (cbytes ''65464'') = (65464, [], False)"
  "c_strtoumax (cbytes ''777777'') = (777777, [], False)"
  "c_strtoumax (cbytes ''12345678910'') = (12345678910, [], False)"
  "c_strtoumax (cbytes ''NoNumber'') = (0, cbytes ''NoNumber'', False)"
  by (simp_all add: c_strtoumax_def cbytes_def c_isspace_def c_isdigit_def)

lemma tested_options:
  "find_option (cbytes ''blksize'') = Some set_blksize" "find_option (cbytes ''blksize2'') = Some set_blksize2"
  "find_option (cbytes ''tsize'') = Some set_tsize" "find_option (cbytes ''timeout'') = Some set_timeout"
  "find_option (cbytes ''utimeout'') = Some set_utimeout" "find_option (cbytes ''rollover'') = None"
  by (simp_all add: find_option_def options_def cbytes_def c_tolower_def c_isupper_def)

lemma pow2_of_1234: "pow2_loop 1234 1 = 1024" and pow2_of_65464: "pow2_loop 65464 1 = 32768"
  by (simp_all add: pow2_loop.simps drop_bit_eq_div push_bit_eq_mult)

lemma cbytes_empty: "cbytes s = [] \<longleftrightarrow> s = []"
  by (simp add: cbytes_def)

lemmas test_simps = cbytes_empty accept_opt_def tested_numbers tested_options pow2_of_1234 pow2_of_65464 set_blksize_def set_blksize2_def
  set_tsize_def set_timeout_def set_utimeout_def tsize_ok_def init_opt_def min_blksize_rfc_def max_blksize_def
  max_timeout_def MS_1K_def size_defs

lemma negotiated_tests:
  "negotiate test1 init_opt = (\<lparr>g_timeout = 33, g_segsize = 1047, g_tsize = 12345678910, blksize_set = True\<rparr>,
     [(cbytes ''blksize'', 1047), (cbytes ''timeout'', 1), (cbytes ''utimeout'', 33333), (cbytes ''tsize'', 12345678910)])"
  "negotiate test2 init_opt = (\<lparr>g_timeout = 2000, g_segsize = 32768, g_tsize = 0, blksize_set = True\<rparr>,
     [(cbytes ''timeout'', 2), (cbytes ''blksize2'', 32768)])"
  "negotiate test3 init_opt = (\<lparr>g_timeout = 10, g_segsize = 1024, g_tsize = 0, blksize_set = True\<rparr>,
     [(cbytes ''blksize2'', 1024), (cbytes ''utimeout'', 10000)])"
  "negotiate test4 init_opt = (\<lparr>g_timeout = 1000, g_segsize = 65464, g_tsize = 0, blksize_set = True\<rparr>,
     [(cbytes ''blksize'', 65464)])"
  by (simp_all add: test1_def test2_def test3_def test4_def test_simps)

lemma well_formed_tests: "well_formed test1" "well_formed test2" "well_formed test3" "well_formed test4"
  by (simp_all add: well_formed_def test1_def test2_def test3_def test4_def cbytes_def)

text \<open>A directory one can upload to.\<close>

definition writable :: "env \<Rightarrow> bool" where
  "writable e \<longleftrightarrow> e_mkdir e default_dir \<and> e_chdir e (g_rootdir e) \<and> (\<forall>p. (\<exists>f. e_open e p True = Inr f) \<and> e_fdopen e p = None)"

lemma upload_opens:
  assumes "writable e" "\<not> climbs name"
  shows "\<exists>f. validate_access e name WRQ = (Inr f, g_rootdir e @ SLASH # dropWhile (\<lambda>c. c = SLASH) name)"
proof -
  have o: "\<exists>f. open_file e p WRQ = Inr f" for p
    using assms(1) by (auto simp: open_file_def writable_def split: sum.split) (metis Inl_not_Inr)
  show ?thesis
    using assms o by (auto simp: validate_access_def writable_def climbs_def secure_tftp_def allow_create_def Let_def
        split: sum.split)
qed

lemma test_call:
  assumes "writable e" "\<not> climbs (cbytes name)" "cbytes name \<noteq> []" "0 \<notin> set (cbytes name)" "well_formed ovs" "ovs \<noteq> []"
    and "negotiate ovs init_opt = (o', acc)" "length (oack_header @ enc_opts acc) \<le> PKTSIZE"
  shows "\<exists>f p. p \<noteq> [] \<and> call_tftp e (test_request name ovs) v =
    Some (0, \<lparr>v_path = p, v_fp = Some f, v_ack = oack_header @ enc_opts acc\<rparr>, o')"
proof -
  obtain f where f: "validate_access e (cbytes name) WRQ = (Inr f, g_rootdir e @ SLASH # dropWhile (\<lambda>c. c = SLASH) (cbytes name))"
    using upload_opens [OF assms(1,2)] by blast
  have "tftp e (test_request name ovs) = respond e WRQ (cbytes name) (cbytes ''octet'') ovs"
    unfolding test_request_def by (rule tftp_request) (use assms(3-5) in \<open>simp_all add: cbytes_def\<close>)
  also have "\<dots> = Done 0 (Some f) (g_rootdir e @ SLASH # dropWhile (\<lambda>c. c = SLASH) (cbytes name)) (oack_header @ enc_opts acc) o'"
    using assms(1,6-8) f by (simp add: respond_def opcode_defs writable_def) (simp add: cbytes_def c_tolower_def c_isupper_def)
  finally show ?thesis by (simp add: call_tftp_def)
qed


text \<open>The results of the calls fit into the buffer for the acknowledgement.\<close>

lemma tests_fit:
  "length (oack_header @ enc_opts [(cbytes ''blksize'', 1047), (cbytes ''timeout'', 1), (cbytes ''utimeout'', 33333), (cbytes ''tsize'', 12345678910)]) \<le> PKTSIZE"
  "length (oack_header @ enc_opts [(cbytes ''timeout'', 2), (cbytes ''blksize2'', 32768)]) \<le> PKTSIZE"
  "length (oack_header @ enc_opts [(cbytes ''blksize2'', 1024), (cbytes ''utimeout'', 10000)]) \<le> PKTSIZE"
  "length (oack_header @ enc_opts [(cbytes ''blksize'', 65464)]) \<le> PKTSIZE"
  by (simp_all add: oack_header_def enc_opts_def enc_opt_def cbytes_def decimal.simps size_defs)

text \<open>A mode that is not served, and a read request without a mode.\<close>

lemma tftp_first:
  assumes "TFTP_HEADER \<le> length rx" "net_short rx 0 = RRQ" "drop 2 rx = name @ 0 # rest" "name \<noteq> []" "0 \<notin> set name"
    "e_mkdir e default_dir"
  shows "tftp e rx = args_loop e rx RRQ (Suc (2 + length name))
    \<lparr>argn = 1, l_mode = Suc (2 + length name), l_opt = 0, l_val = 0, l_file = None, l_path = [],
     l_ack = [hi_byte OACK, lo_byte OACK], l_opts = init_opt\<rparr>"
  using assms(1,2,6) args_turn(1) [OF assms(3-5)] by (simp add: tftp_def)

lemma tftp_unknown_mode:
  assumes "TFTP_HEADER \<le> length rx" "net_short rx 0 = RRQ" "drop 2 rx = name @ 0 # mode @ 0 # rest" "name \<noteq> []" "0 \<notin> set name"
    "mode \<noteq> []" "0 \<notin> set mode" "map c_tolower mode \<noteq> cbytes ''octet''" "e_mkdir e default_dir"
  shows "tftp e rx = Done EBADOP None [] [] init_opt"
proof -
  note at1 = at_string [OF assms(3-5)]
  note at2 = at_string [OF at1(4) assms(6,7)]
  show ?thesis
    unfolding tftp_first [OF assms(1-5,9)] using args_turn(2) [OF at1(4) assms(6,7)] at2(5) assms(8) by (simp add: formats_def)
qed

lemma tftp_missing_mode:
  assumes "TFTP_HEADER \<le> length rx" "net_short rx 0 = RRQ" "drop 2 rx = name @ 0 # [0]" "name \<noteq> []" "0 \<notin> set name"
    "e_mkdir e default_dir"
  shows "tftp e rx = Done EBADOP None [] [] init_opt"
proof -
  have "drop (Suc (2 + length name)) rx = [0]" using at_string(4) [OF assms(3-5)] by simp
  then have "rx ! Suc (2 + length name) = 0" by (metis Cons_nth_drop_Suc drop_eq_Nil leI list.inject list.distinct(1))
  then show ?thesis
    unfolding tftp_first [OF assms] by (subst args_loop.simps) (simp add: finish_def)
qed

lemma refused_calls:
  assumes "writable e"
  shows "call_tftp e corrupt v = Some (EBADID, \<lparr>v_path = v_path v, v_fp = None, v_ack = []\<rparr>, init_opt)"
  "call_tftp e unknown v = Some (EBADOP, \<lparr>v_path = v_path v, v_fp = None, v_ack = []\<rparr>, init_opt)"
  "call_tftp e missing v = Some (EBADOP, \<lparr>v_path = v_path v, v_fp = None, v_ack = []\<rparr>, init_opt)"
proof -
  have d: "e_mkdir e default_dir" using assms by (simp add: writable_def)
  show "call_tftp e corrupt v = Some (EBADID, \<lparr>v_path = v_path v, v_fp = None, v_ack = []\<rparr>, init_opt)"
  proof -
    have "hi_byte (net_short corrupt 0) = 105" by (simp add: net_short_def corrupt_def cbytes_def)
    moreover have "hi_byte RRQ = 0" "hi_byte WRQ = 0" by code_simp+
    ultimately have "net_short corrupt 0 \<noteq> RRQ" "net_short corrupt 0 \<noteq> WRQ" by auto
    then show ?thesis using d by (simp add: call_tftp_def tftp_def) (simp add: corrupt_def cbytes_def size_defs)
  qed
  have one: "mk16 0 1 = RRQ" by code_simp
  have "tftp e unknown = Done EBADOP None [] [] init_opt"
    by (rule tftp_unknown_mode [of _ "cbytes ''unknown_mode.dat''" "cbytes ''netascii''" "[0]"])
      (simp_all add: d unknown_def cbytes_def size_defs net_short_def one c_tolower_def c_isupper_def)
  then show "call_tftp e unknown v = Some (EBADOP, \<lparr>v_path = v_path v, v_fp = None, v_ack = []\<rparr>, init_opt)" by (simp add: call_tftp_def)
  have "tftp e missing = Done EBADOP None [] [] init_opt"
    by (rule tftp_missing_mode [of _ "cbytes ''missing_mode.dat''"])
      (simp_all add: d missing_def cbytes_def size_defs net_short_def one)
  then show "call_tftp e missing v = Some (EBADOP, \<lparr>v_path = v_path v, v_fp = None, v_ack = []\<rparr>, init_opt)" by (simp add: call_tftp_def)
qed

lemma bind_request:
  assumes "writable e" "\<not> climbs (cbytes name)" "cbytes name \<noteq> []" "0 \<notin> set (cbytes name)" "well_formed ovs" "ovs \<noteq> []"
    and "negotiate ovs init_opt = (o', acc)" "length (oack_header @ enc_opts acc) \<le> PKTSIZE"
    and "\<And>v. v_ack v = oack_header @ enc_opts acc \<Longrightarrow> asserts 0 v o'" "\<And>v. v_path v \<noteq> [] \<Longrightarrow> k v \<noteq> None"
  shows "Option.bind (check e (test_request name ovs) asserts v) k \<noteq> None"
  using test_call [OF assms(1-8), of v] assms(9,10) by (auto simp: check_def)

lemma test_names:
  "\<not> climbs (cbytes ''testfile.dat'')" "\<not> climbs (cbytes ''minimal.dat'')"
  "0 \<notin> set (cbytes ''testfile.dat'')" "0 \<notin> set (cbytes ''minimal.dat'')"
  by (simp_all add: climbs_def cbytes_def SLASH_def DOT_def sublist_Cons_right)

section \<open>Properties\<close>

text \<open>
  The test of the repository passes in every environment whose root directory exists and can be written to.
\<close>

theorem option_test_passes:
  assumes "writable e"
  shows "option_test e \<noteq> None"
proof -
  have n: "cbytes ''testfile.dat'' \<noteq> []" "cbytes ''minimal.dat'' \<noteq> []" by (simp_all add: cbytes_empty)
  have ne: "test1 \<noteq> []" "test2 \<noteq> []" "test3 \<noteq> []" "test4 \<noteq> []"
    by (simp_all add: test1_def test2_def test3_def test4_def)
  note req = bind_request [OF assms test_names(1) n(1) test_names(3)]
  have s: "EBADID \<noteq> 0" "EBADOP \<noteq> 0" "g_segsize init_opt = of_nat SEGSIZE"
    by (simp_all add: init_opt_def default_blksize_def ecode_defs)
  show ?thesis
    unfolding option_test_def
    apply (simp add: check_def [of _ corrupt] refused_calls [OF assms] s del: not_None_eq)
    apply (rule req [OF well_formed_tests(1) ne(1) negotiated_tests(1) tests_fit(1)], simp add: oack_header_def)
    apply (rule req [OF well_formed_tests(2) ne(2) negotiated_tests(2) tests_fit(2)], simp)
    apply (rule req [OF well_formed_tests(3) ne(3) negotiated_tests(3) tests_fit(3)], simp)
    apply (rule bind_request [OF assms test_names(2) n(2) test_names(4) well_formed_tests(4) ne(4) negotiated_tests(4) tests_fit(4)])
     apply (simp add: oack_header_def size_defs)
    apply (simp add: check_def refused_calls [OF assms] s)
    done
qed

theorem option_test_passes_witness:
  "option_test (demo_env (open_trunc None)) \<noteq> None"
  by (rule option_test_passes) (simp add: writable_def demo_env_def)

end
