(* ===== verification/Async_Test_Program.thy ===== *)
theory Async_Test_Program
  imports Async_Faults
begin

text \<open>
  The program \<^verbatim>\<open>tftpd_test.cpp\<close>: one upload with \<^verbatim>\<open>receive_file\<close>, the progress on the standard output,
  and what is reported at the end.  The texts of the exceptions are an argument, and so is what the
  server meets on a port; the root directory and the callback are the program's.
\<close>

section \<open>The program\<close>

text \<open>The exit code with standard output and error; a signal; or the server still runs.\<close>

datatype ending = Exit int "byte list" "byte list" | Signal | Waits

definition print_num :: "u64 \<Rightarrow> byte list" where "print_num i = decimal (unat i) @ [10]"

definition test_cfg :: "(u16 \<Rightarrow> acfg) \<Rightarrow> str \<Rightarrow> acfg" where
  "test_cfg at_port arg =
     (let c = at_port (ucast (fst (c_strtoumax arg)))
      in c\<lparr>a_callback := True, a_env := (a_env c)\<lparr>g_rootdir := cbytes ''/tmp/tftpboot''\<rparr>\<rparr>)"

definition test_main :: "(thrown \<Rightarrow> str) \<Rightarrow> (u16 \<Rightarrow> acfg) \<Rightarrow> str list \<Rightarrow> aevent list \<Rightarrow> ending" where
  "test_main what at_port argv evs =
     (if length argv \<noteq> 2 then Exit 0 [] (cbytes ''Usage: tftpd <port>'' @ [10, 10])
      else let c = test_cfg at_port (argv ! 1);
               ran = (a_listen c \<and> e_mkdir (a_env c) (g_rootdir (a_env c)));
               progress_out = (if ran then concat (map print_num (called (arun c evs server_start))) else [])
           in case receive_file c evs of
                Returns name \<Rightarrow>
                  Exit 0 (progress_out @ (if name \<noteq> [] then cbytes ''Successfully received: '' @ name @ [10, 10] else [])) []
              | Throws x \<Rightarrow> Exit 1 progress_out (cbytes ''Exception: '' @ what x @ [10, 10])
              | Crashes \<Rightarrow> Signal
              | Aborts \<Rightarrow> Signal
              | Running \<Rightarrow> Waits)"

section \<open>Properties\<close>

lemma root_after_cfg: "g_rootdir (a_env (test_cfg at_port arg)) = cbytes ''/tmp/tftpboot''"
  by (simp add: test_cfg_def Let_def)

text \<open>
  C35: the test program cannot tell an upload the client gave up from a successful one: after an error packet
  it prints that the file was received and exits with 0, although no file of that name was made.
\<close>

theorem test_program_reports_aborted:
  assumes "c = test_cfg at_port arg"
    and "tftp (a_env c) (take PKTSIZE rx) = Done 0 (Some f) path optack opts" "rx \<noteq> []" "path \<noteq> []"
    and "sound_out f" "fdata f = []" "TFTP_HEADER \<le> length p" "net_short p 0 = ERROR"
    and "a_listen c" "e_mkdir (a_env c) (cbytes ''/tmp/tftpboot'')"
    and "evs = [AArrive a rx, ARecv True] @ [ASent True, AArrive b p, ARecv ok', ATimer]"
  shows "\<exists>before. test_main what at_port [prog, arg] evs =
      Exit 0 (before @ cbytes ''Successfully received: '' @ path @ [10, 10]) [] \<and> \<not> renamed (arun c evs server_start)"
proof -
  have "e_mkdir (a_env c) (g_rootdir (a_env c))" unfolding assms(1) root_after_cfg using assms(1,10) by simp
  from async_aborted_returns [OF assms(2,3,5-9) this assms(11)]
  have "receive_file c evs = Returns path" "\<not> renamed (arun c evs server_start)" by simp_all
  with assms(1,4) show ?thesis by (simp add: test_main_def Let_def)
qed

theorem test_program_reports_aborted_witness:
  "\<exists>before. test_main (\<lambda>_. []) (\<lambda>_. demo_cfg (open_trunc None)) [cbytes ''tftpd_test'', cbytes ''1234'']
      ([AArrive demo_addr demo_request, ARecv True] @
       [ASent True, AArrive demo_addr (error_pkt 3 (cbytes ''full'')), ARecv True, ATimer]) =
    Exit 0 (before @ cbytes ''Successfully received: '' @ cbytes ''/tmp/tftpboot/a'' @ [10, 10]) []"
proof -
  have p: "TFTP_HEADER \<le> length (error_pkt 3 (cbytes ''full''))" "net_short (error_pkt 3 (cbytes ''full'')) 0 = ERROR"
    by (simp_all add: error_pkt_def wire_simps size_defs)
  let ?c = "test_cfg (\<lambda>_. demo_cfg (open_trunc None)) (cbytes ''1234'')"
  have c: "a_env ?c = demo_env (open_trunc None)" "a_listen ?c"
    by (simp_all add: test_cfg_def demo_cfg_def demo_env_def Let_def)
  have n: "cbytes ''/tmp/tftpboot/a'' \<noteq> []" by (simp add: cbytes_def)
  have t: "tftp (a_env ?c) (take PKTSIZE demo_request) = Done 0 (Some (open_trunc None)) (cbytes ''/tmp/tftpboot/a'') [] init_opt"
    by (simp add: c demo_tftp)
  have m: "e_mkdir (a_env ?c) (cbytes ''/tmp/tftpboot'')" by (simp add: c demo_mkdir)
  from test_program_reports_aborted [OF refl t demo_tftp(3) n _ _ p c(2) m refl] show ?thesis by simp
qed

text \<open>Wrong usage is no error for the caller; an exception is.\<close>

theorem test_program_exits:
  "test_main what at_port argv evs = Exit code text err \<Longrightarrow>
    code = (if length argv = 2 \<and> (\<exists>x. receive_file (test_cfg at_port (argv ! 1)) evs = Throws x) then 1 else 0)"
  by (auto simp: test_main_def Let_def split: if_splits outcome.splits)

end
