(* ===== verification/Third_Party_Lib.thy ===== *)
theory Third_Party_Lib
  imports Tftp_Text
begin

text \<open>
  \<^verbatim>\<open>third_party_lib.cpp\<close>, the echo server the repository keeps as a pattern for foreign code on asio sockets:
  the polled library (\<^verbatim>\<open>session\<close>), the glue that waits for its socket (\<^verbatim>\<open>connection\<close>), and the
  acceptor (\<^verbatim>\<open>server\<close>).  A connection is one record, since it owns the socket and the session, and its
  completion handlers are functions on it.

  What the socket does is in the events: bytes arrive, and a wait completes with or without an error code.
  The answer in the event is what the non-blocking \<^verbatim>\<open>read_some\<close> or \<^verbatim>\<open>write_some\<close> of the
  handler meets: an error, or room for at least so many bytes (none means \<^verbatim>\<open>would_block\<close>).
\<close>

section \<open>The library\<close>

datatype sstate = Reading | Writing

datatype error_code = Would_block | Eof | Aborted | Reset

datatype answer = Moves nat | Fails error_code

text \<open>\<open>write_buffer\<close>: the offset in \<open>data\<close> and the length of \<^verbatim>\<open>write_buffer_\<close>, which points into \<^verbatim>\<open>data_\<close>.\<close>

record connection =
  is_open :: bool
  queue :: "byte list"
  sent :: "byte list"
  state :: sstate
  data :: "byte list"
  write_buffer :: "nat \<times> nat"
  read_in_progress :: bool
  write_in_progress :: bool

definition DATA_SIZE :: nat where "DATA_SIZE = 128"

definition read_some :: "answer \<Rightarrow> connection \<Rightarrow> nat \<times> error_code option \<times> connection" where
  "read_some a c =
     (case a of
        Fails e \<Rightarrow> (0, Some e, c)
      | Moves n \<Rightarrow>
          (let bs = take (min n (length (data c))) (queue c) in
           if bs = [] then (0, Some Would_block, c)
           else (length bs, None, c\<lparr>queue := drop (length bs) (queue c), data := overlay (data c) 0 bs\<rparr>)))"

definition to_write :: "connection \<Rightarrow> byte list" where
  "to_write c = take (snd (write_buffer c)) (drop (fst (write_buffer c)) (data c))"

text \<open>Writing an empty buffer succeeds at once.\<close>

definition write_some :: "answer \<Rightarrow> connection \<Rightarrow> nat \<times> error_code option \<times> connection" where
  "write_some a c =
     (if to_write c = [] then (0, None, c)
      else case a of
        Fails e \<Rightarrow> (0, Some e, c)
      | Moves n \<Rightarrow>
          (let bs = take n (to_write c) in
           if bs = [] then (0, Some Would_block, c) else (length bs, None, c\<lparr>sent := sent c @ bs\<rparr>)))"

definition want_read :: "connection \<Rightarrow> bool" where "want_read c \<longleftrightarrow> state c = Reading"
definition want_write :: "connection \<Rightarrow> bool" where "want_write c \<longleftrightarrow> state c = Writing"

definition do_read :: "answer \<Rightarrow> connection \<Rightarrow> error_code option \<times> connection" where
  "do_read a c =
     (let (len, ec, c1) = read_some a c
      in (ec, if len \<noteq> 0 then c1\<lparr>write_buffer := (0, len), state := Writing\<rparr> else c1))"

definition do_write :: "answer \<Rightarrow> connection \<Rightarrow> error_code option \<times> connection" where
  "do_write a c =
     (let (len, ec, c1) = write_some a c; (off, n) = write_buffer c1
      in (ec, if len \<noteq> 0
              then c1\<lparr>write_buffer := (off + len, n - len), state := if n - len > 0 then Writing else Reading\<rparr>
              else c1))"

section \<open>The connection\<close>

datatype conn_event = Arrive "byte list" | Readable "error_code option" answer | Writable "error_code option" answer

definition do_operations :: "connection \<Rightarrow> connection" where
  "do_operations c =
     (let c1 = (if want_read c \<and> \<not> read_in_progress c then c\<lparr>read_in_progress := True\<rparr> else c)
      in if want_write c1 \<and> \<not> write_in_progress c1 then c1\<lparr>write_in_progress := True\<rparr> else c1)"

definition go_on :: "error_code option \<Rightarrow> connection \<Rightarrow> connection" where
  "go_on ec c = (if ec = None \<or> ec = Some Would_block then do_operations c else c\<lparr>is_open := False\<rparr>)"

definition on_readable :: "error_code option \<Rightarrow> answer \<Rightarrow> connection \<Rightarrow> connection" where
  "on_readable ec a c =
     (let c1 = c\<lparr>read_in_progress := False\<rparr>; (ec2, c2) = (if ec = None then do_read a c1 else (ec, c1))
      in go_on ec2 c2)"

definition on_writable :: "error_code option \<Rightarrow> answer \<Rightarrow> connection \<Rightarrow> connection" where
  "on_writable ec a c =
     (let c1 = c\<lparr>write_in_progress := False\<rparr>; (ec2, c2) = (if ec = None then do_write a c1 else (ec, c1))
      in go_on ec2 c2)"

fun cstep :: "conn_event \<Rightarrow> connection \<Rightarrow> connection" where
  "cstep (Arrive bs) c = (if is_open c then c\<lparr>queue := queue c @ bs\<rparr> else c)"
| "cstep (Readable ec a) c = (if read_in_progress c then on_readable ec a c else c)"
| "cstep (Writable ec a) c = (if write_in_progress c then on_writable ec a c else c)"

definition crun :: "conn_event list \<Rightarrow> connection \<Rightarrow> connection" where "crun es c = fold cstep es c"

text \<open>The constructor and \<^verbatim>\<open>start()\<close>; the array is not initialised, \<open>d\<close> is what it holds.\<close>

definition start :: "byte list \<Rightarrow> connection" where
  "start d = do_operations
     \<lparr>is_open = True, queue = [], sent = [], state = Reading, data = d, write_buffer = (0, 0),
      read_in_progress = False, write_in_progress = False\<rparr>"

section \<open>The server and the program\<close>

text \<open>
  \<^verbatim>\<open>async_accept\<close> completes with an error code or with a socket, whose \<^verbatim>\<open>non_blocking\<close> may throw
  (the text is the one of \<^verbatim>\<open>what()\<close>); the accept is started again either way.
\<close>

datatype sevent = Accepts "error_code option" "str option" "byte list" | On nat conn_event

record echo_server =
  connections :: "connection list"
  thrown :: "str option"

definition on_accept :: "error_code option \<Rightarrow> str option \<Rightarrow> byte list \<Rightarrow> echo_server \<Rightarrow> echo_server" where
  "on_accept ec nb d s =
     (if ec \<noteq> None then s
      else case nb of Some x \<Rightarrow> s\<lparr>thrown := Some x\<rparr> | None \<Rightarrow> s\<lparr>connections := connections s @ [start d]\<rparr>)"

fun sstep :: "sevent \<Rightarrow> echo_server \<Rightarrow> echo_server" where
  "sstep (Accepts ec nb d) s = (if thrown s = None then on_accept ec nb d s else s)"
| "sstep (On i e) s =
     (if thrown s = None \<and> i < length (connections s)
      then s\<lparr>connections := (connections s)[i := cstep e (connections s ! i)]\<rparr> else s)"

definition srun :: "sevent list \<Rightarrow> echo_server \<Rightarrow> echo_server" where "srun es s = fold sstep es s"

definition echo_start :: echo_server where "echo_start = \<lparr>connections = [], thrown = None\<rparr>"

datatype exit = Exits int "byte list" | Serves echo_server

text \<open>\<open>listen\<close>: the acceptor is opened and bound to the port, or throws.  The port is the \<^verbatim>\<open>int\<close> of \<^verbatim>\<open>atoi\<close> cut to 16 bits.\<close>

definition echo_main :: "(u16 \<Rightarrow> str option) \<Rightarrow> str list \<Rightarrow> sevent list \<Rightarrow> exit" where
  "echo_main listen argv es =
     (let exception = (\<lambda>x. Exits 0 (cbytes ''Exception: '' @ x @ [10])) in
      if length argv \<noteq> 2 then Exits 1 (cbytes ''Usage: third_party_lib <port>'' @ [10])
      else case listen (of_int (to_int (c_strtol (argv ! 1)))) of
             Some x \<Rightarrow> exception x
           | None \<Rightarrow>
               (let s = srun es echo_start in case thrown s of Some x \<Rightarrow> exception x | None \<Rightarrow> Serves s))"

section \<open>One connection\<close>

text \<open>One wait is pending while the socket is open: for reading with nothing to write, or for writing with something.\<close>

definition conn_ok :: "byte list \<Rightarrow> connection \<Rightarrow> bool" where
  "conn_ok received c \<longleftrightarrow>
     length (data c) = DATA_SIZE \<and> fst (write_buffer c) + snd (write_buffer c) \<le> DATA_SIZE \<and>
     (state c = Reading \<longleftrightarrow> snd (write_buffer c) = 0) \<and>
     prefix (sent c @ to_write c @ queue c) received \<and>
     (is_open c \<longrightarrow> received = sent c @ to_write c @ queue c \<and>
        (read_in_progress c \<longleftrightarrow> state c = Reading) \<and> (write_in_progress c \<longleftrightarrow> state c = Writing)) \<and>
     (\<not> is_open c \<longrightarrow> \<not> read_in_progress c \<and> \<not> write_in_progress c)"

fun arrivals :: "conn_event list \<Rightarrow> byte list" where
  "arrivals [] = []"
| "arrivals (Arrive bs # es) = bs @ arrivals es"
| "arrivals (e # es) = arrivals es"

lemma to_write_updates [simp]:
  "to_write (c\<lparr>write_in_progress := b\<rparr>) = to_write c" "to_write (c\<lparr>read_in_progress := b\<rparr>) = to_write c"
  "to_write (c\<lparr>sent := x\<rparr>) = to_write c" "to_write (c\<lparr>queue := x\<rparr>) = to_write c" "to_write (c\<lparr>is_open := b\<rparr>) = to_write c"
  by (simp_all add: to_write_def)

text \<open>What a handler has to leave to \<^verbatim>\<open>do_operations\<close>.\<close>

lemma operations_ok:
  assumes "length (data c) = DATA_SIZE" "fst (write_buffer c) + snd (write_buffer c) \<le> DATA_SIZE"
    "state c = Reading \<longleftrightarrow> snd (write_buffer c) = 0" "r = sent c @ to_write c @ queue c" "is_open c"
    "\<not> read_in_progress c" "\<not> write_in_progress c"
  shows "conn_ok r (do_operations c)"
  using assms by (cases "state c") (auto simp: conn_ok_def do_operations_def want_read_def want_write_def)

lemma start_ok: "length d = DATA_SIZE \<Longrightarrow> conn_ok [] (start d)"
  unfolding start_def by (rule operations_ok) (simp_all add: to_write_def)


lemma read_moves:
  assumes "length (data c) = DATA_SIZE" "bs = take (min n DATA_SIZE) (queue c)" "bs \<noteq> []"
  shows "on_readable None (Moves n) c =
    do_operations (c\<lparr>read_in_progress := False, queue := drop (length bs) (queue c), data := overlay (data c) 0 bs,
      write_buffer := (0, length bs), state := Writing\<rparr>)"
  using assms(1,3) by (simp add: on_readable_def do_read_def read_some_def assms(2) [symmetric] Let_def go_on_def
    del: take_eq_Nil take_eq_Nil2)

lemma write_moves:
  assumes "write_buffer c = (off, n)" "length (to_write c) = n" "0 < n" "0 < m" "k = min m n"
  shows "on_writable None (Moves m) c =
    do_operations (c\<lparr>write_in_progress := False, sent := sent c @ take k (to_write c), write_buffer := (off + k, n - k),
      state := if n - k > 0 then Writing else Reading\<rparr>)"
proof -
  have "take m (to_write c) = take k (to_write c)" "to_write c \<noteq> []" "take k (to_write c) \<noteq> []" "length (take k (to_write c)) = k"
    using assms(2-5) by (auto simp: min_def)
  then show ?thesis
    using assms(1,3-5) by (simp add: on_writable_def do_write_def write_some_def Let_def go_on_def
      del: take_eq_Nil take_eq_Nil2 length_take)
qed

lemma read_ok:
  assumes "conn_ok r c" "read_in_progress c"
  shows "conn_ok r (on_readable ec a c)"
proof (cases "ec = None \<and> (\<exists>n. a = Moves n \<and> take (min n DATA_SIZE) (queue c) \<noteq> [])")
  case True
  then obtain n where n: "ec = None" "a = Moves n" "take (min n DATA_SIZE) (queue c) \<noteq> []" by blast
  define bs where "bs = take (min n DATA_SIZE) (queue c)"
  have bs: "bs \<noteq> []" "length bs \<le> DATA_SIZE" "bs @ drop (length bs) (queue c) = queue c"
    using n by (auto simp: bs_def min_def)
  have c: "length (data c) = DATA_SIZE" "to_write c = []" "r = sent c @ queue c" "is_open c" "state c = Reading" "\<not> write_in_progress c"
    using assms by (auto simp: conn_ok_def to_write_def)
  let ?c = "c\<lparr>read_in_progress := False, queue := drop (length bs) (queue c), data := overlay (data c) 0 bs,
      write_buffer := (0, length bs), state := Writing\<rparr>"
  have "to_write ?c = bs" using take_overlay_0 [of bs "data c"] by (simp add: to_write_def)
  then show ?thesis
    unfolding n(1,2) read_moves [OF c(1) bs_def bs(1)] using bs c by (intro operations_ok) auto
next
  case False
  then have "on_readable ec a c = go_on (if ec = None then (case a of Fails e \<Rightarrow> Some e | _ \<Rightarrow> Some Would_block) else ec)
      (c\<lparr>read_in_progress := False\<rparr>)"
    using assms by (auto simp: on_readable_def do_read_def read_some_def conn_ok_def Let_def split: answer.split)
  then show ?thesis
    using assms by (auto simp: go_on_def do_operations_def want_read_def want_write_def conn_ok_def to_write_def)
qed

lemma write_ok:
  assumes "conn_ok r c" "write_in_progress c"
  shows "conn_ok r (on_writable ec a c)"
proof -
  obtain off n where w: "write_buffer c = (off, n)" by fastforce
  have c: "length (data c) = DATA_SIZE" "off + n \<le> DATA_SIZE" "0 < n" "r = sent c @ to_write c @ queue c" "is_open c"
      "state c = Writing" "\<not> read_in_progress c" "to_write c = take n (drop off (data c))"
    using assms w by (auto simp: conn_ok_def to_write_def)
  then have l: "length (to_write c) = n" by simp
  show ?thesis
  proof (cases "ec = None \<and> (\<exists>m. a = Moves m \<and> 0 < m)")
    case True
    then obtain m where m: "ec = None" "a = Moves m" "0 < m" by blast
    define k where "k = min m n"
    let ?c = "c\<lparr>write_in_progress := False, sent := sent c @ take k (to_write c), write_buffer := (off + k, n - k),
      state := if n - k > 0 then Writing else Reading\<rparr>"
    have "to_write ?c = take (n - k) (drop (off + k) (data c))" unfolding to_write_def by simp
    also have "\<dots> = drop k (to_write c)" unfolding c(8) by (simp add: drop_take add.commute)
    finally have "r = sent ?c @ to_write ?c @ queue ?c" using c(4) by simp
    then show ?thesis
      unfolding m(1,2) write_moves [OF w l c(3) m(3) k_def] using c(1,2,5,7) k_def by (intro operations_ok) auto
  next
    case False
    have "to_write c \<noteq> []" using l c(3) by auto
    with False have "on_writable ec a c = go_on (if ec = None then (case a of Fails e \<Rightarrow> Some e | _ \<Rightarrow> Some Would_block) else ec)
        (c\<lparr>write_in_progress := False\<rparr>)"
      by (auto simp: on_writable_def do_write_def write_some_def Let_def split: answer.split)
    then show ?thesis
      using assms by (auto simp: go_on_def do_operations_def want_read_def want_write_def conn_ok_def to_write_def)
  qed
qed

lemma step_ok: "conn_ok r c \<Longrightarrow> conn_ok (r @ arrivals [e]) (cstep e c)"
proof (cases e)
  case (Arrive bs)
  assume "conn_ok r c"
  then show ?thesis
    using Arrive by (auto simp: conn_ok_def to_write_def intro: prefix_prefix)
qed (simp_all add: read_ok write_ok)

lemma arrivals_append [simp]: "arrivals (xs @ ys) = arrivals xs @ arrivals ys"
  by (induction xs rule: arrivals.induct) simp_all

lemma run_ok: "length d = DATA_SIZE \<Longrightarrow> conn_ok (arrivals es) (crun es (start d))"
proof (induction es rule: rev_induct)
  case Nil
  then show ?case using start_ok by (simp add: crun_def)
next
  case (snoc e es)
  then show ?case using step_ok [of "arrivals es" "crun es (start d)" e] by (simp add: crun_def)
qed


text \<open>
  One round: the socket becomes readable and gives up to \<open>n\<close> bytes, becomes writable and takes them.
\<close>

definition round_trip :: "nat \<Rightarrow> conn_event list" where
  "round_trip n = [Readable None (Moves n), Writable None (Moves n)]"

lemma round_trip_ok:
  assumes "conn_ok r c" "is_open c" "state c = Reading" "0 < n" "l = min n DATA_SIZE"
  shows "state (crun (round_trip n) c) = Reading \<and> is_open (crun (round_trip n) c) \<and>
    sent (crun (round_trip n) c) = sent c @ take l (queue c) \<and> queue (crun (round_trip n) c) = drop l (queue c)"
proof -
  define bs where "bs = take (min n DATA_SIZE) (queue c)"
  have c: "read_in_progress c" "\<not> write_in_progress c" "length (data c) = DATA_SIZE"
    using assms(1-3) by (auto simp: conn_ok_def)
  show ?thesis
  proof (cases "queue c = []")
    case True
    have "crun (round_trip n) c = c"
      using assms(2,3) c True by (simp add: crun_def round_trip_def on_readable_def do_read_def read_some_def go_on_def do_operations_def
        want_read_def want_write_def)
    then show ?thesis using assms(2,3) True by simp
  next
    case False
    then have b: "bs \<noteq> []" using assms(4) by (simp add: bs_def DATA_SIZE_def)
    let ?c = "on_readable None (Moves n) c"
    have d: "?c = c\<lparr>read_in_progress := False, queue := drop (length bs) (queue c), data := overlay (data c) 0 bs,
        write_buffer := (0, length bs), state := Writing, write_in_progress := True\<rparr>"
      using c by (simp add: read_moves [OF c(3) bs_def b] do_operations_def want_read_def want_write_def)
    have w: "write_buffer ?c = (0, length bs)" "to_write ?c = bs" "length bs = min n (length bs)"
      using take_overlay_0 [of bs "data c"] unfolding d to_write_def by (auto simp: bs_def)
    have "crun (round_trip n) c = on_writable None (Moves n) ?c"
      using c unfolding crun_def round_trip_def by (simp add: d)
    then show ?thesis
      using write_moves [OF w(1) _ _ assms(4) w(3)] w(2) b assms(2,5) d c
      by (simp add: do_operations_def want_read_def want_write_def bs_def)
  qed
qed


lemma crun_append: "crun (xs @ ys) c = crun ys (crun xs c)"
  by (simp add: crun_def)

lemma round_trips:
  assumes "conn_ok r c" "is_open c" "state c = Reading" "0 < n" "l = min n DATA_SIZE"
  shows "sent (crun (concat (replicate k (round_trip n))) c) = sent c @ take (l * k) (queue c)"
  using assms(1-3)
proof (induction k arbitrary: c)
  case 0
  then show ?case by (simp add: crun_def)
next
  case (Suc k)
  note x = round_trip_ok [OF Suc.prems assms(4,5)]
  have "conn_ok r (crun (round_trip n) c)"
    using step_ok [OF step_ok [OF Suc.prems(1), of "Readable None (Moves n)"], of "Writable None (Moves n)"]
    by (simp add: crun_def round_trip_def)
  from Suc.IH [OF this] x show ?case
    by (simp add: crun_append take_add add.commute)
qed

text \<open>
  A connection of the echo server sends a beginning of what it receives, whatever its waits, reads and
  writes do; its writes stay inside the array, and while the socket is open nothing is lost and exactly one
  wait is pending.
\<close>

theorem echo_connection:
  assumes "length d = DATA_SIZE" "c = crun es (start d)"
  shows "prefix (sent c) (arrivals es) \<and> fst (write_buffer c) + snd (write_buffer c) \<le> length (data c) \<and>
    (is_open c \<longrightarrow> arrivals es = sent c @ to_write c @ queue c \<and> read_in_progress c = want_read c \<and>
       write_in_progress c = want_write c \<and> want_read c = (\<not> want_write c))"
proof -
  have "conn_ok (arrivals es) c" using run_ok [OF assms(1)] assms(2) by simp
  then show ?thesis
    by (cases "state c") (auto simp: conn_ok_def want_read_def want_write_def dest: append_prefixD)
qed

theorem echo_connection_witness:
  "prefix (sent (crun [Arrive [1, 2, 3], Readable None (Moves 2), Writable None (Moves 1)] (start (replicate 128 0)))) [1, 2, 3]"
  using echo_connection [OF _ refl, of "replicate 128 0" "[Arrive [1, 2, 3], Readable None (Moves 2), Writable None (Moves 1)]"]
  by (simp add: DATA_SIZE_def)

text \<open>
  A client that keeps the socket ready gets back what it sends, at most 128 bytes at a time.
\<close>

theorem echo_answers:
  assumes "length d = DATA_SIZE" "0 < n"
  shows "sent (crun (Arrive bs # concat (replicate k (round_trip n))) (start d)) = take (min n DATA_SIZE * k) bs"
proof -
  let ?c = "cstep (Arrive bs) (start d)"
  have "conn_ok bs ?c" using step_ok [OF start_ok [OF assms(1)], of "Arrive bs"] by simp
  moreover have "is_open ?c" "state ?c = Reading" "sent ?c = []" "queue ?c = bs"
    by (simp_all add: start_def do_operations_def want_read_def want_write_def)
  ultimately show ?thesis using round_trips [OF _ _ _ assms(2) refl, of bs ?c k] by (simp add: crun_def)
qed

section \<open>All connections\<close>

text \<open>The events of connection \<open>i\<close> in a run that begins with \<open>n\<close> connections.\<close>

fun own :: "nat \<Rightarrow> nat \<Rightarrow> sevent list \<Rightarrow> conn_event list" where
  "own i n [] = []"
| "own i n (Accepts ec nb d # es) =
     (if ec \<noteq> None then own i n es else if nb \<noteq> None then [] else own i (Suc n) es)"
| "own i n (On j e # es) = (if i = j \<and> j < n then e # own i n es else own i n es)"

lemma srun_thrown: "thrown s \<noteq> None \<Longrightarrow> srun es s = s"
proof (induction es)
  case (Cons e es)
  have "sstep e s = s" using Cons.prems by (cases e) auto
  with Cons show ?case by (simp add: srun_def)
qed (simp add: srun_def)

lemma srun_Cons [simp]: "srun (e # es) s = srun es (sstep e s)" "srun [] s = s"
  by (simp_all add: srun_def)

lemma own_old:
  assumes "i < length (connections s)" "thrown s = None"
  shows "i < length (connections (srun es s)) \<and>
    connections (srun es s) ! i = crun (own i (length (connections s)) es) (connections s ! i)"
  using assms
proof (induction es arbitrary: s)
  case Nil
  then show ?case by (simp add: crun_def)
next
  case (Cons e es)
  show ?case
  proof (cases e)
    case (Accepts ec nb d)
    then show ?thesis
      using Cons.prems Cons.IH [of s] Cons.IH [of "s\<lparr>connections := connections s @ [start d]\<rparr>"]
        srun_thrown [of "s\<lparr>thrown := nb\<rparr>" es]
      by (auto simp: on_accept_def nth_append crun_def split: option.split)
  next
    case (On j ev)
    then show ?thesis
      using Cons.prems Cons.IH [of s] Cons.IH [of "s\<lparr>connections := (connections s)[j := cstep ev (connections s ! j)]\<rparr>"]
      by (auto simp: nth_list_update crun_def)
  qed
qed

lemma own_new:
  assumes "length (connections s) \<le> i" "thrown s = None" "i < length (connections (srun es s))"
  shows "\<exists>d. Accepts None None d \<in> set es \<and>
    connections (srun es s) ! i = crun (own i (length (connections s)) es) (start d)"
  using assms
proof (induction es arbitrary: s)
  case (Cons e es)
  show ?case
  proof (cases e)
    case (Accepts ec nb d)
    let ?s = "s\<lparr>connections := connections s @ [start d]\<rparr>"
    show ?thesis
    proof (cases "ec = None \<and> nb = None \<and> i = length (connections s)")
      case True
      then show ?thesis
        using own_old [of i ?s es] Cons.prems(2) Accepts by (auto simp: on_accept_def)
    next
      case False
      then show ?thesis
        using Cons.prems Cons.IH [of s] Cons.IH [of ?s] Accepts srun_thrown [of "s\<lparr>thrown := nb\<rparr>" es]
        by (auto simp: on_accept_def split: option.splits)
    qed
  next
    case (On j ev)
    then show ?thesis
      using Cons.prems Cons.IH [of s] Cons.IH [of "s\<lparr>connections := (connections s)[j := cstep ev (connections s ! j)]\<rparr>"]
      by (auto split: if_splits)
  qed
qed simp

text \<open>
  C40: the connections of the echo server do not disturb one another: what it sends on one is a beginning of what has
  arrived on that one, whatever happens on the others and however often accepting fails.
\<close>

theorem echo_connections_apart:
  assumes "\<forall>d. Accepts None None d \<in> set es \<longrightarrow> length d = DATA_SIZE"
    "echo_main listen argv es = Serves s" "i < length (connections s)"
  shows "prefix (sent (connections s ! i)) (arrivals (own i 0 es))"
proof -
  have s: "s = srun es echo_start"
    using assms(2) by (auto simp: echo_main_def Let_def split: if_splits option.splits)
  obtain d where d: "Accepts None None d \<in> set es" "connections s ! i = crun (own i 0 es) (start d)"
    using own_new [of echo_start i es] assms(3) by (auto simp: s echo_start_def)
  have "conn_ok (arrivals (own i 0 es)) (connections s ! i)"
    unfolding d(2) using d(1) assms(1) by (intro run_ok) blast
  then show ?thesis by (auto simp: conn_ok_def dest: append_prefixD)
qed

theorem echo_connections_apart_witness:
  "prefix (sent (start (replicate 128 0))) (arrivals (own 0 0 [Accepts (Some Aborted) None [], Accepts None None (replicate 128 0)]))"
  using echo_connections_apart [of "[Accepts (Some Aborted) None [], Accepts None None (replicate 128 0)]" "\<lambda>_. None"
      "[cbytes ''echo'', cbytes ''7'']" "\<lparr>connections = [start (replicate 128 0)], thrown = None\<rparr>" 0]
  by (simp add: DATA_SIZE_def echo_main_def echo_start_def on_accept_def)

text \<open>Exits: only a wrong number of arguments is an error for the caller.\<close>

theorem echo_exits:
  "echo_main listen argv es = Exits code text \<Longrightarrow> code = (if length argv \<noteq> 2 then 1 else 0)"
  by (auto simp: echo_main_def Let_def split: if_splits option.splits)

end
